(* ===== verification/Prelude.thy ===== *)
theory Prelude
  imports Main "HOL-Library.Word"
begin

text \<open>
  Shared vocabulary of the development.

  The C code computes with \<^verbatim>\<open>size_t\<close>, \<^verbatim>\<open>uint64_t\<close> and region offsets, all of them 64 bits
  wide on the only platform the program supports (AMD64). Where the code works on bits
  (hashing, the random number generator, the bit tricks) the model uses \<open>64 word\<close>;
  where it works on sizes and offsets the model uses \<open>nat\<close> with the wrap-around written
  out by the operations \<open>uadd\<close>, \<open>usub\<close> and \<open>umul\<close> below.

  A function of the program that can fail to return (an \<^verbatim>\<open>optics_assert\<close> or
  \<^verbatim>\<open>optics_abort\<close> that kills the process, a spin on a lock nobody releases, a recursion that
  does not end) has a result of type \<open>'a option\<close> and does not return exactly when it
  is \<open>None\<close>. Ordinary error returns (\<^verbatim>\<open>NULL\<close>, \<^verbatim>\<open>0\<close>, \<^verbatim>\<open>false\<close>, \<^verbatim>\<open>optics_err\<close>)
  are values of the result, as in the code.

  The collections: \<open>wrap_simps\<close> removes wrap-around where the operands are small
  enough, \<open>layout\<close> holds the sizes and field offsets of the packed structs.
\<close>

named_theorems wrap_simps "wrap-around arithmetic that does not wrap"
named_theorems layout "sizes and field offsets of packed structs"

type_synonym u64 = "64 word"
type_synonym off = nat

section \<open>Sizes and offsets: naturals below two to the 64\<close>

definition u64_max :: nat where
  "u64_max = 18446744073709551615"

definition uadd :: "nat \<Rightarrow> nat \<Rightarrow> nat" where
  "uadd a b = (a + b) mod 18446744073709551616"

definition usub :: "nat \<Rightarrow> nat \<Rightarrow> nat" where
  "usub a b = (a + (18446744073709551616 - b)) mod 18446744073709551616"

definition umul :: "nat \<Rightarrow> nat \<Rightarrow> nat" where
  "umul a b = (a * b) mod 18446744073709551616"

lemma uadd_small [wrap_simps]: "a + b < 18446744073709551616 \<Longrightarrow> uadd a b = a + b"
  by (simp add: uadd_def)

lemma umul_small [wrap_simps]: "a * b < 18446744073709551616 \<Longrightarrow> umul a b = a * b"
  by (simp add: umul_def)

lemma usub_small [wrap_simps]:
  assumes "b \<le> a" "a < 18446744073709551616"
  shows "usub a b = a - b"
proof -
  have "usub a b = ((a - b) + 18446744073709551616) mod 18446744073709551616"
    using assms by (simp add: usub_def)
  also have "\<dots> = a - b"
    using assms by (subst mod_add_self2) simp
  finally show ?thesis .
qed

lemma uadd_less [simp]: "uadd a b < 18446744073709551616"
  by (simp add: uadd_def)

lemma umul_less [simp]: "umul a b < 18446744073709551616"
  by (simp add: umul_def)

lemma usub_less [simp]: "usub a b < 18446744073709551616"
  by (simp add: usub_def)

text \<open>
  The loop \<^verbatim>\<open>while (c < x) c *= 2;\<close> on a 64-bit \<^verbatim>\<open>c\<close>, which the hash table, the
  buffer and the region all use to pick a new capacity. After 64 doublings \<open>c\<close> is 0 and
  stays 0, so 64 rounds are enough to tell a loop that ends from one that spins forever
  (\<open>None\<close>).
\<close>

fun double_loop :: "nat \<Rightarrow> nat \<Rightarrow> nat \<Rightarrow> nat option" where
  "double_loop 0 c x = (if c < x then None else Some c)"
| "double_loop (Suc n) c x = (if c < x then double_loop n (umul c 2) x else Some c)"

definition double_until :: "nat \<Rightarrow> nat \<Rightarrow> nat option" where
  "double_until c x = double_loop 64 c x"

lemma double_loop_numeral:
  "double_loop (numeral v) c x =
     (if c < x then double_loop (pred_numeral v) (umul c 2) x else Some c)"
  by (simp only: numeral_eq_Suc double_loop.simps)

lemma double_loop_ends:
  assumes "0 < c" "x \<le> 9223372036854775808" "x \<le> c * 2 ^ n"
  shows "\<exists>k. double_loop n c x = Some (c * 2 ^ k) \<and> x \<le> c * 2 ^ k \<and> (k = 0 \<or> c * 2 ^ k < 2 * x)"
  using assms
proof (induction n arbitrary: c)
  case 0
  then show ?case by (intro exI [of _ 0]) simp
next
  case (Suc n)
  show ?case
  proof (cases "c < x")
    case False
    then show ?thesis by (intro exI [of _ 0]) simp
  next
    case True
    then have u: "umul c 2 = c * 2"
      using Suc.prems(2) by (intro umul_small) linarith
    obtain k where k: "double_loop n (c * 2) x = Some (c * 2 * 2 ^ k)" "x \<le> c * 2 * 2 ^ k"
        "k = 0 \<or> c * 2 * 2 ^ k < 2 * x"
      using Suc.IH [of "c * 2"] Suc.prems by (auto simp: mult.assoc)
    have "c * 2 ^ Suc k < 2 * x"
      using k(3) True by (auto simp: mult.assoc)
    then show ?thesis
      using k True u by (intro exI [of _ "Suc k"]) (simp add: mult.assoc)
  qed
qed

lemma double_until_ends:
  assumes "0 < c" "x \<le> 9223372036854775808"
  obtains k where "double_until c x = Some (c * 2 ^ k)" "x \<le> c * 2 ^ k"
    "k = 0 \<or> c * 2 ^ k < 2 * x"
proof -
  have "x \<le> 1 * 2 ^ 64" using assms(2) by simp
  also have "\<dots> \<le> c * 2 ^ 64" using assms(1) by (intro mult_right_mono) auto
  finally show ?thesis
    using double_loop_ends [OF assms, of 64] that by (auto simp: double_until_def)
qed

lemma double_loop_ge: "double_loop n c x = Some r \<Longrightarrow> x \<le> r"
  by (induction n arbitrary: c) (auto split: if_splits)

lemma double_until_ge: "double_until c x = Some r \<Longrightarrow> x \<le> r"
  by (simp add: double_until_def double_loop_ge)

section \<open>C strings\<close>

text \<open>
  A C string is the list of its characters before the terminating nil byte, so a
  well-formed one holds no nil character.
\<close>

definition nil_char :: char where
  "nil_char = CHR 0x00"

definition cstring :: "string \<Rightarrow> bool" where
  "cstring s \<longleftrightarrow> nil_char \<notin> set s"

definition strnlen :: "string \<Rightarrow> nat \<Rightarrow> nat" where
  "strnlen s n = min (length s) n"

definition strndup :: "string \<Rightarrow> nat \<Rightarrow> string" where
  "strndup s n = take n s"

text \<open>\<^verbatim>\<open>strncmp(a, b, n) == 0\<close>: equal up to the first \<open>n\<close> characters.\<close>

definition strneq :: "string \<Rightarrow> string \<Rightarrow> nat \<Rightarrow> bool" where
  "strneq a b n \<longleftrightarrow> take n a = take n b"

lemma strnlen_le: "strnlen s n \<le> n"
  by (simp add: strnlen_def)

lemma strneq_refl [simp]: "strneq s s n"
  by (simp add: strneq_def)

lemma strneq_strndup [simp]: "strneq (strndup s n) s n"
  by (simp add: strneq_def strndup_def)

lemma cstring_take [simp]: "cstring s \<Longrightarrow> cstring (take n s)"
  by (auto simp: cstring_def dest: in_set_takeD)

lemma cstring_append [simp]: "cstring (a @ b) \<longleftrightarrow> cstring a \<and> cstring b"
  by (auto simp: cstring_def)

lemma cstring_Nil [simp]: "cstring []"
  by (simp add: cstring_def)

text \<open>The decimal digits of a number, as \<^verbatim>\<open>printf\<close> writes it with \<^verbatim>\<open>%lu\<close>.\<close>

definition digit :: "nat \<Rightarrow> char" where
  "digit n = char_of (48 + n)"

fun dec :: "nat \<Rightarrow> string" where
  "dec n = (if n < 10 then [digit n] else dec (n div 10) @ [digit (n mod 10)])"

declare dec.simps [simp del]

section \<open>Options\<close>

lemma bind_Some_iff [simp]:
  "(Option.bind x f = Some y) \<longleftrightarrow> (\<exists>a. x = Some a \<and> f a = Some y)"
  by (cases x) auto

end
