(* ===== verification/Bits.thy ===== *)
theory Bits
  imports Prelude
begin

text \<open>
  The bit operations of \<^verbatim>\<open>src/utils/bits.h\<close>: leading and trailing zero counts, powers of
  two, rounded division and alignment, and the search for the next set bit in a bitfield.
  The compiler builtins follow their documentation (undefined at zero, which the wrappers
  test for).
\<close>

unbundle bit_operations_syntax

section \<open>Definitions\<close>

definition builtin_clzll :: "u64 \<Rightarrow> nat" where
  "builtin_clzll x = length (takeWhile (\<lambda>i. \<not> bit x i) (rev [0..<64]))"

definition builtin_ctzll :: "u64 \<Rightarrow> nat" where
  "builtin_ctzll x = length (takeWhile (\<lambda>i. \<not> bit x i) [0..<64])"

definition clz :: "u64 \<Rightarrow> nat" where
  "clz x = (if x \<noteq> 0 then builtin_clzll x else 64)"

definition ctz :: "u64 \<Rightarrow> nat" where
  "ctz x = (if x \<noteq> 0 then builtin_ctzll x else 64)"

definition pop :: "u64 \<Rightarrow> nat" where
  "pop x = length (filter (bit x) [0..<64])"

definition leading_bit :: "u64 \<Rightarrow> u64" where
  "leading_bit x = (if x = 0 then 0 else x AND push_bit (63 - clz x) 1)"

definition is_pow2 :: "u64 \<Rightarrow> bool" where
  "is_pow2 x \<longleftrightarrow> pop x = 1"

definition ceil_pow2 :: "u64 \<Rightarrow> u64" where
  "ceil_pow2 x = (if x > 1 then push_bit 1 (leading_bit (x - 1)) else 1)"

definition ceil_div :: "nat \<Rightarrow> nat \<Rightarrow> nat" where
  "ceil_div n d = (if n \<noteq> 0 then uadd ((n - 1) div d) 1 else 0)"

definition align :: "nat \<Rightarrow> nat \<Rightarrow> nat" where
  "align n a = umul (ceil_div n a) a"

text \<open>
  Shifting \<^verbatim>\<open>1UL\<close> by 64 or more is undefined in C, so \<open>bitfield_next\<close> has no value there.
\<close>

definition bitfield_next :: "u64 \<Rightarrow> nat \<Rightarrow> nat option" where
  "bitfield_next bf b =
     (if b < 64 then Some (ctz (bf AND NOT (push_bit b 1 - 1))) else None)"

text \<open>
  The array of \<open>bitfields_next\<close> is a list; a read past its end is undefined (\<open>None\<close>).
\<close>

function bitfields_next :: "u64 list \<Rightarrow> nat \<Rightarrow> nat \<Rightarrow> nat option" where
  "bitfields_next bf b n =
     (if b < n then
        (let low = b mod 64; high = b div 64 in
         if high < length bf then
           (if bf ! high \<noteq> 0 then
              (case bitfield_next (bf ! high) low of
                 None \<Rightarrow> None
               | Some i \<Rightarrow>
                   if i < 64 then Some (i + high * 64)
                   else bitfields_next bf (high * 64 + 64) n)
            else bitfields_next bf (high * 64 + 64) n)
         else None)
      else Some n)"
  by pat_completeness auto
termination
proof (relation "measure (\<lambda>(bf, b, n). n - b)", goal_cases)
  case 1
  show ?case by simp
next
  case (2 bf b n x xa)
  then show ?case
    using mod_mult_div_eq [of b 64] mod_less_divisor [of 64 b] by (simp add: diff_less_mono2)
next
  case (3 bf b n x xa)
  then show ?case
    using mod_mult_div_eq [of b 64] mod_less_divisor [of 64 b] by (simp add: diff_less_mono2)
qed

declare bitfields_next.simps [simp del]

section \<open>Leading and trailing zeros\<close>

lemma takeWhile_stop:
  assumes "\<exists>x \<in> set xs. \<not> P x"
  shows "length (takeWhile P xs) < length xs"
    and "\<not> P (xs ! length (takeWhile P xs))"
    and "j < length (takeWhile P xs) \<Longrightarrow> P (xs ! j)"
proof -
  show lt: "length (takeWhile P xs) < length xs"
    using assms by (metis length_takeWhile_le linorder_le_less_linear nat_less_le
        takeWhile_eq_all_conv takeWhile_eq_take take_all)
  show "\<not> P (xs ! length (takeWhile P xs))"
    using lt by (rule nth_length_takeWhile)
  show "j < length (takeWhile P xs) \<Longrightarrow> P (xs ! j)"
    by (metis nth_mem set_takeWhileD takeWhile_nth)
qed

lemma nonzero_has_bit: "(x :: u64) \<noteq> 0 \<Longrightarrow> \<exists>i < 64. bit x i"
proof (rule ccontr)
  assume "x \<noteq> 0" "\<not> (\<exists>i < 64. bit x i)"
  then have "x = 0"
    by (intro bit_word_eqI) auto
  with \<open>x \<noteq> 0\<close> show False by simp
qed

lemma ctz_bit:
  assumes "x \<noteq> 0"
  shows "ctz x < 64" and "bit x (ctz x)" and "j < ctz x \<Longrightarrow> \<not> bit x j"
proof -
  let ?P = "\<lambda>i. \<not> bit x i"
  have ex: "\<exists>i \<in> set [0..<64]. \<not> ?P i"
    using nonzero_has_bit [OF assms] by auto
  have eq: "ctz x = length (takeWhile ?P [0..<64])"
    using assms by (simp add: ctz_def builtin_ctzll_def)
  show lt: "ctz x < 64"
    using takeWhile_stop(1) [OF ex] by (simp add: eq)
  show "bit x (ctz x)"
    using takeWhile_stop(1,2) [OF ex] by (simp add: eq)
  show "j < ctz x \<Longrightarrow> \<not> bit x j"
    using takeWhile_stop(3) [OF ex, of j] lt by (simp add: eq)
qed

lemma clz_bit:
  assumes "x \<noteq> 0"
  shows "clz x < 64" and "bit x (63 - clz x)" and "63 - clz x < j \<Longrightarrow> \<not> bit x j"
proof -
  let ?P = "\<lambda>i. \<not> bit x i"
  have ex: "\<exists>i \<in> set (rev [0..<64]). \<not> ?P i"
    using nonzero_has_bit [OF assms] by auto
  have eq: "clz x = length (takeWhile ?P (rev [0..<64]))"
    using assms by (simp add: clz_def builtin_clzll_def)
  have nth: "rev [0..<64] ! i = 63 - i" if "i < 64" for i
    using that by (simp add: rev_nth)
  show lt: "clz x < 64"
    using takeWhile_stop(1) [OF ex] by (simp add: eq)
  show "bit x (63 - clz x)"
    using takeWhile_stop(2) [OF ex] lt by (simp add: nth flip: eq)
  show "\<not> bit x j" if j: "63 - clz x < j"
  proof (cases "j < 64")
    case True
    then have "63 - j < clz x" using j lt by linarith
    then show ?thesis
      using takeWhile_stop(3) [OF ex, of "63 - j"] True by (simp add: nth flip: eq)
  next
    case False
    then show ?thesis by (simp add: bit_imp_le_length not_less not_le impossible_bit)
  qed
qed

lemma ctz_eqI:
  assumes "i < 64" "bit x i" "\<And>j. j < i \<Longrightarrow> \<not> bit x j"
  shows "ctz x = i"
proof -
  have "x \<noteq> 0" using assms(2) by auto
  then show ?thesis
    using ctz_bit [of x] assms by (meson linorder_neqE_nat)
qed


lemma unat_2_power: "k < 64 \<Longrightarrow> unat (2 ^ k :: u64) = 2 ^ k"
proof -
  assume "k < 64"
  then have "(2 :: nat) ^ k < 2 ^ 64" by (rule power_strict_increasing) simp
  then show ?thesis
    using unat_of_nat [where 'a = 64, of "2 ^ k"] by simp
qed

lemma leading_bit_eq:
  assumes "x \<noteq> 0"
  shows "leading_bit x = push_bit (63 - clz x) 1"
proof (rule bit_word_eqI)
  fix n assume "n < LENGTH(64)"
  then show "bit (leading_bit x) n = bit (push_bit (63 - clz x) (1 :: u64)) n"
    using clz_bit(2) [OF assms] assms
    by (auto simp: leading_bit_def bit_and_iff bit_exp_iff)
qed

lemma leading_bit_bounds:
  assumes "x \<noteq> 0"
  shows "unat (leading_bit x) = 2 ^ (63 - clz x)"
    and "2 ^ (63 - clz x) \<le> unat x" and "unat x < 2 ^ Suc (63 - clz x)"
proof -
  define k where "k = 63 - clz x"
  have k: "k < 64" by (simp add: k_def)
  have "unat (push_bit k (1 :: u64)) = 2 ^ k"
    using k by (simp add: unat_2_power)
  then show "unat (leading_bit x) = 2 ^ (63 - clz x)"
    by (simp add: leading_bit_eq [OF assms] k_def)
  have "take_bit (Suc k) x = x"
  proof (rule bit_word_eqI)
    fix n
    show "bit (take_bit (Suc k) x) n = bit x n"
      using clz_bit(3) [OF assms, of n]
      by (cases "63 - clz x < n") (simp_all add: bit_take_bit_iff k_def)
  qed
  then have "take_bit (Suc k) (unat x) = unat x"
    by (metis unsigned_take_bit_eq)
  then show "unat x < 2 ^ Suc (63 - clz x)"
    by (simp add: take_bit_nat_eq_self_iff k_def)
  have "bit (unat x) k"
    using clz_bit(2) [OF assms] k by (simp add: k_def bit_unsigned_iff)
  then show "2 ^ (63 - clz x) \<le> unat x"
    using bit_nat_iff by (metis bit_iff_odd div_less even_zero k_def not_le)
qed

lemma pop_push_bit: "k < 64 \<Longrightarrow> pop (push_bit k 1) = 1"
proof -
  assume k: "k < 64"
  have "filter (bit (push_bit k (1 :: u64))) [0..<64] = filter (\<lambda>i. i = k) [0..<64]"
    by (rule filter_cong [OF refl]) (auto simp: bit_exp_iff)
  moreover have "length (filter (\<lambda>i. i = k) [0..<64]) = 1"
  proof -
    have "[0..<64] = [0..<k] @ k # [Suc k..<64]"
      using k by (metis le0 less_imp_le_nat upt_conv_Cons upt_add_eq_append add_0
          le_add_diff_inverse)
    then show ?thesis
      by (simp add: filter_False)
  qed
  ultimately show ?thesis by (simp add: pop_def)
qed

section \<open>Powers of two\<close>

lemma ceil_pow2_eq:
  assumes "1 < unat x" "unat x \<le> 2 ^ 63"
  obtains k where "k < 63" "ceil_pow2 x = push_bit (Suc k) 1"
    "2 ^ k < unat x" "unat x \<le> 2 ^ Suc k"
proof -
  let ?y = "x - 1"
  have gt: "x > 1" using assms(1) by (simp add: word_less_nat_alt)
  then have y: "unat ?y = unat x - 1"
    using assms(1) by (subst unat_minus_one) auto
  have nz: "?y \<noteq> 0" using y assms(1) by auto
  define k where "k = 63 - clz ?y"
  have b: "2 ^ k \<le> unat ?y" "unat ?y < 2 ^ Suc k"
    using leading_bit_bounds(2,3) [OF nz] by (simp_all add: k_def)
  have "2 ^ k < (2 :: nat) ^ 63"
    using b(1) y assms by linarith
  then have "k < 63" by (rule power_less_imp_less_exp [rotated]) simp
  moreover have "ceil_pow2 x = push_bit (Suc k) 1"
    using gt by (simp add: ceil_pow2_def leading_bit_eq [OF nz] k_def)
  ultimately show ?thesis
    using that b y assms(1) by fastforce
qed

text \<open>
  For every \<open>x\<close> from 1 to two to the 63, \<open>ceil_pow2 x\<close> is a power of two, at least
  \<open>x\<close> and less than twice \<open>x\<close>: the smallest power of two that is not below \<open>x\<close>.
\<close>

theorem ceil_pow2_least:
  assumes "1 \<le> unat x" "unat x \<le> 2 ^ 63"
  shows "is_pow2 (ceil_pow2 x) \<and> unat x \<le> unat (ceil_pow2 x) \<and> unat (ceil_pow2 x) < 2 * unat x"
proof (cases "unat x = 1")
  case True
  then have "x = 1" by (simp add: word_unat_eq_iff)
  then show ?thesis
    using pop_push_bit [of 0] by (simp add: ceil_pow2_def is_pow2_def)
next
  case False
  then have "1 < unat x" using assms(1) by linarith
  from ceil_pow2_eq [OF this assms(2)] obtain k where k: "k < 63"
      "ceil_pow2 x = push_bit (Suc k) 1" "2 ^ k < unat x" "unat x \<le> 2 ^ Suc k" .
  have "unat (push_bit (Suc k) (1 :: u64)) = 2 ^ Suc k"
    using k(1) unat_2_power [of "Suc k"] by simp
  then show ?thesis
    using k pop_push_bit [of "Suc k"] by (simp add: is_pow2_def)
qed

theorem ceil_pow2_least_witness:
  "is_pow2 (ceil_pow2 300) \<and> (300 :: nat) \<le> unat (ceil_pow2 300) \<and> unat (ceil_pow2 300) < 600"
  using ceil_pow2_least [of 300] by simp

section \<open>Rounded division and alignment\<close>

lemma ceil_div_bounds:
  assumes "0 < d" "n < 18446744073709551615"
  shows "n \<le> ceil_div n d * d" and "ceil_div n d * d < n + d"
proof -
  show "n \<le> ceil_div n d * d"
  proof (cases "n = 0")
    case False
    have "(n - 1) div d + 1 < 18446744073709551616"
      using div_le_dividend [of "n - 1" d] assms(2) by linarith
    then have "ceil_div n d = (n - 1) div d + 1"
      using False by (simp only: ceil_div_def uadd_small) simp
    moreover have "n - 1 < ((n - 1) div d + 1) * d"
      using assms(1) by (metis add.commute dividend_less_div_times mult_Suc add.right_neutral
          add_Suc_right One_nat_def)
    ultimately show ?thesis
      by (simp only: Suc_leI flip: Suc_le_eq)
  qed (simp add: ceil_div_def)
  show "ceil_div n d * d < n + d"
  proof (cases "n = 0")
    case False
    have "(n - 1) div d + 1 < 18446744073709551616"
      using div_le_dividend [of "n - 1" d] assms(2) by linarith
    then have "ceil_div n d = (n - 1) div d + 1"
      using False by (simp only: ceil_div_def uadd_small) simp
    moreover have "(n - 1) div d * d < n"
      using div_times_less_eq_dividend [of "n - 1" d] False by linarith
    ultimately show ?thesis by simp
  qed (use assms in \<open>simp add: ceil_div_def\<close>)
qed

lemma align_bounds:
  assumes "0 < a" "n + a < 18446744073709551616"
  shows "a dvd align n a" and "n \<le> align n a" and "align n a < n + a"
proof -
  have "n < 18446744073709551615" using assms by linarith
  note b = ceil_div_bounds [OF assms(1) this]
  have "align n a = ceil_div n a * a"
    using b(2) assms(2) by (simp add: align_def umul_small)
  then show "a dvd align n a" "n \<le> align n a" "align n a < n + a"
    using b by simp_all
qed


section \<open>Searching a bitfield\<close>

lemma bit_mask_above:
  assumes "b < 64"
  shows "bit (bf AND NOT (push_bit b 1 - 1 :: u64)) i \<longleftrightarrow> bit bf i \<and> b \<le> i"
  using assms
  by (cases "i < 64")
    (auto simp: bit_simps not_less simp flip: mask_eq_exp_minus_1 dest: bit_imp_le_length)

lemma bitfield_next_cases:
  assumes "b < 64"
  obtains (found) i where "bitfield_next bf b = Some i" "i < 64" "b \<le> i" "bit bf i"
      "\<And>j. b \<le> j \<Longrightarrow> j < i \<Longrightarrow> \<not> bit bf j"
    | (none) "bitfield_next bf b = Some 64" "\<And>j. b \<le> j \<Longrightarrow> \<not> bit bf j"
proof -
  let ?m = "bf AND NOT (push_bit b 1 - 1 :: u64)"
  show thesis
  proof (cases "?m = 0")
    case True
    have "\<not> bit bf j" if "b \<le> j" for j
      using bit_mask_above [OF assms, of bf j] that True by simp
    then show thesis
      using none True assms by (simp add: bitfield_next_def ctz_def)
  next
    case False
    note z = ctz_bit [OF False]
    show thesis
    proof (rule found)
      show "bitfield_next bf b = Some (ctz ?m)"
        using assms by (simp add: bitfield_next_def)
      show "ctz ?m < 64" by (rule z(1))
      show "b \<le> ctz ?m" "bit bf (ctz ?m)"
        using z(2) bit_mask_above [OF assms] by blast+
      show "\<not> bit bf j" if "b \<le> j" "j < ctz ?m" for j
        using z(3) [OF that(2)] bit_mask_above [OF assms] that(1) by blast
    qed
  qed
qed

text \<open>The bit of an array of bitfields that the search looks for.\<close>

definition field_bit :: "u64 list \<Rightarrow> nat \<Rightarrow> bool" where
  "field_bit bf i \<longleftrightarrow> i div 64 < length bf \<and> bit (bf ! (i div 64)) (i mod 64)"

lemma field_bit_div: "j div 64 = h \<Longrightarrow> h < length bf \<Longrightarrow> field_bit bf j = bit (bf ! h) (j - h * 64)"
  by (auto simp: field_bit_def minus_div_mult_eq_mod)

lemma bitfields_next_step:
  assumes "b < n" "n \<le> 64 * length bf"
  obtains (found) r where "bitfields_next bf b n = Some r" "b \<le> r" "field_bit bf r"
      "\<And>j. b \<le> j \<Longrightarrow> j < r \<Longrightarrow> \<not> field_bit bf j"
    | (skip) c where "b < c" "bitfields_next bf b n = bitfields_next bf c n"
      "\<And>j. b \<le> j \<Longrightarrow> j < c \<Longrightarrow> \<not> field_bit bf j"
proof -
  define h where "h = b div 64"
  have h: "h < length bf" "b = h * 64 + b mod 64" "b mod 64 < 64"
    using assms by (auto simp: h_def)
  have inside: "field_bit bf j = bit (bf ! h) (j - h * 64)" if "b \<le> j" "j < h * 64 + 64" for j
    using that h by (intro field_bit_div) auto
  have bn: "bitfields_next bf b n =
     (if bf ! h \<noteq> 0 then
        (case bitfield_next (bf ! h) (b mod 64) of None \<Rightarrow> None
         | Some i \<Rightarrow> if i < 64 then Some (i + h * 64) else bitfields_next bf (h * 64 + 64) n)
      else bitfields_next bf (h * 64 + 64) n)"
    using assms(1) h(1) by (subst bitfields_next.simps) (simp add: Let_def flip: h_def)
  have skip': thesis if "\<And>i. b mod 64 \<le> i \<Longrightarrow> \<not> bit (bf ! h) i"
      "bitfields_next bf b n = bitfields_next bf (h * 64 + 64) n"
  proof (rule skip)
    show "b < h * 64 + 64" using h(2,3) by linarith
    show "\<not> field_bit bf j" if "b \<le> j" "j < h * 64 + 64" for j
      using inside [OF that] \<open>\<And>i. b mod 64 \<le> i \<Longrightarrow> \<not> bit (bf ! h) i\<close> [of "j - h * 64"] that h(2)
      by simp
  qed (rule that(2))
  show thesis
  proof (cases "bf ! h = 0")
    case True
    then show thesis by (intro skip') (simp_all add: bn)
  next
    case nonzero: False
    show thesis
      using h(3)
    proof (cases rule: bitfield_next_cases [where bf = "bf ! h"])
      case (found i)
      have "b \<le> i + h * 64" using found(3) h(2) by linarith
      moreover have "field_bit bf (i + h * 64)"
        using inside [of "i + h * 64"] found(2,4) calculation by simp
      moreover have "\<not> field_bit bf j" if "b \<le> j" "j < i + h * 64" for j
        using inside [of j] found(2) found(5) [of "j - h * 64"] that h(2) by auto
      ultimately show thesis
        using \<open>\<And>r. bitfields_next bf b n = Some r \<Longrightarrow> b \<le> r \<Longrightarrow> field_bit bf r \<Longrightarrow>
            (\<And>j. b \<le> j \<Longrightarrow> j < r \<Longrightarrow> \<not> field_bit bf j) \<Longrightarrow> thesis\<close> [of "i + h * 64"]
          bn nonzero found(1,2) by simp
    next
      case none
      then show thesis by (intro skip') (simp_all add: bn)
    qed
  qed
qed

text \<open>
  Over an array that holds all \<open>n\<close> bits, the search returns, never reads past the
  array, skips only clear bits, and stops either at a set bit or past the last of the
  \<open>n\<close> bits.
\<close>

theorem bitfields_next_finds:
  assumes "n \<le> 64 * length bf" and "b \<le> n"
  shows "\<exists>r. bitfields_next bf b n = Some r \<and> b \<le> r \<and>
           (\<forall>j. b \<le> j \<and> j < r \<and> j < n \<longrightarrow> \<not> field_bit bf j) \<and> (r < n \<longrightarrow> field_bit bf r)"
proof -
  have "\<exists>r. bitfields_next bf b n = Some r \<and> min b n \<le> r \<and>
           (\<forall>j. b \<le> j \<and> j < r \<and> j < n \<longrightarrow> \<not> field_bit bf j) \<and> (r < n \<longrightarrow> field_bit bf r)" for b
  proof (induction "n - b" arbitrary: b rule: less_induct)
    case less
    show ?case
    proof (cases "b < n")
      case False
      then show ?thesis by (subst bitfields_next.simps) auto
    next
      case True
      show ?thesis
        using True assms(1)
      proof (cases rule: bitfields_next_step)
        case (found r)
        then show ?thesis by auto
      next
        case (skip c)
        have "n - c < n - b" using skip(1) True by linarith
        from less [OF this] skip obtain r where "bitfields_next bf b n = Some r" "min c n \<le> r"
            and c: "\<forall>j. c \<le> j \<and> j < r \<and> j < n \<longrightarrow> \<not> field_bit bf j"
            and "r < n \<longrightarrow> field_bit bf r" by auto
        moreover have "\<not> field_bit bf j" if "b \<le> j" "j < r" "j < n" for j
          using skip(3) [of j] c that by (cases "j < c") auto
        ultimately show ?thesis
          using skip(1) True by (intro exI [of _ r]) auto
      qed
    qed
  qed
  from this [of b] show ?thesis
    using assms(2) by simp
qed

theorem bitfields_next_finds_witness:
  "\<exists>r. bitfields_next [0, 4] 1 128 = Some r \<and> 1 \<le> r \<and>
     (\<forall>j. 1 \<le> j \<and> j < r \<and> j < 128 \<longrightarrow> \<not> field_bit [0, 4] j) \<and> (r < 128 \<longrightarrow> field_bit [0, 4] r)"
  by (rule bitfields_next_finds) simp_all

end
