(* ===== verification/Slock.thy ===== *)
theory Slock
  imports Prelude
begin

text \<open>
  The spin lock and the spin barrier of \<^verbatim>\<open>src/utils/lock.h\<close>.

  The operations of the other components call the lock from one thread, where
  \<open>slock_lock\<close> on a taken lock spins forever (\<open>None\<close>). The behaviour under many threads is
  a step relation: each thread is at one of the atomic accesses of the code, and a step is
  one thread performing one access. A weak compare-and-exchange may fail for no reason.
\<close>

section \<open>The lock in one thread\<close>

type_synonym slock = nat

definition slock_lock :: "slock \<Rightarrow> slock option" where
  "slock_lock l = (if l = 0 then Some 1 else None)"

definition slock_is_locked :: "slock \<Rightarrow> bool" where
  "slock_is_locked l \<longleftrightarrow> l \<noteq> 0"

definition slock_try_lock :: "slock \<Rightarrow> bool \<times> slock" where
  "slock_try_lock l = (if l = 0 then (True, 1) else (False, l))"

definition slock_unlock :: "slock \<Rightarrow> slock" where
  "slock_unlock l = 0"

lemma slock_simps [simp]:
  "slock_lock 0 = Some 1" "slock_unlock l = 0"
  "slock_try_lock 0 = (True, 1)" "slock_is_locked 0 = False"
  by (simp_all add: slock_lock_def slock_unlock_def slock_try_lock_def slock_is_locked_def)

section \<open>The lock under many threads\<close>

text \<open>
  Where a thread is: outside, before the relaxed load of \<^verbatim>\<open>slock_lock\<close>, before its
  compare-and-exchange (the load saw 0), or past the lock.
\<close>

datatype lock_pc = Outside | At_load | At_cas | Holding

record lock_sys =
  lval :: slock
  pcs :: "nat \<Rightarrow> lock_pc"

definition lock_init :: lock_sys where
  "lock_init = \<lparr>lval = 0, pcs = (\<lambda>_. Outside)\<rparr>"

definition set_pc :: "lock_sys \<Rightarrow> nat \<Rightarrow> lock_pc \<Rightarrow> lock_sys" where
  "set_pc s t pc = s\<lparr>pcs := (pcs s)(t := pc)\<rparr>"

inductive slock_step :: "lock_sys \<Rightarrow> lock_sys \<Rightarrow> bool" where
  call_lock: "pcs s t = Outside \<Longrightarrow> slock_step s (set_pc s t At_load)"
| load_busy: "pcs s t = At_load \<Longrightarrow> lval s \<noteq> 0 \<Longrightarrow> slock_step s s"
| load_free: "pcs s t = At_load \<Longrightarrow> lval s = 0 \<Longrightarrow> slock_step s (set_pc s t At_cas)"
| cas_ok: "pcs s t = At_cas \<Longrightarrow> lval s = 0 \<Longrightarrow> slock_step s ((set_pc s t Holding)\<lparr>lval := 1\<rparr>)"
| cas_fail: "pcs s t = At_cas \<Longrightarrow> slock_step s (set_pc s t At_load)"
| try_ok: "pcs s t = Outside \<Longrightarrow> slock_try_lock (lval s) = (True, l) \<Longrightarrow>
    slock_step s ((set_pc s t Holding)\<lparr>lval := l\<rparr>)"
| try_fail: "pcs s t = Outside \<Longrightarrow> slock_try_lock (lval s) = (False, l) \<Longrightarrow>
    slock_step s (s\<lparr>lval := l\<rparr>)"
| unlock: "pcs s t = Holding \<Longrightarrow>
    slock_step s ((set_pc s t Outside)\<lparr>lval := slock_unlock (lval s)\<rparr>)"

inductive slock_reachable :: "lock_sys \<Rightarrow> bool" where
  init: "slock_reachable lock_init"
| step: "slock_reachable s \<Longrightarrow> slock_step s s' \<Longrightarrow> slock_reachable s'"

text \<open>The lock word is 1 exactly while one thread, and only one, is past the lock.\<close>

definition slock_inv :: "lock_sys \<Rightarrow> bool" where
  "slock_inv s \<longleftrightarrow>
     (if lval s = 0 then \<forall>t. pcs s t \<noteq> Holding else \<exists>!t. pcs s t = Holding)"

lemma slock_step_inv: "slock_step s s' \<Longrightarrow> slock_inv s \<Longrightarrow> slock_inv s'"
proof (induction rule: slock_step.induct)
  case (unlock s t)
  then have "\<forall>u. u \<noteq> t \<longrightarrow> pcs s u \<noteq> Holding"
    by (auto simp: slock_inv_def split: if_splits)
  then show ?case by (simp add: slock_inv_def set_pc_def)
next
  case (try_ok s t l)
  then show ?case
    by (auto simp: slock_inv_def set_pc_def slock_try_lock_def split: if_splits)
next
  case (try_fail s t l)
  then show ?case
    by (auto simp: slock_inv_def slock_try_lock_def split: if_splits)
qed (auto simp: slock_inv_def set_pc_def split: if_splits; metis lock_pc.distinct)+

lemma slock_reachable_inv: "slock_reachable s \<Longrightarrow> slock_inv s"
proof (induction rule: slock_reachable.induct)
  case init
  show ?case by (simp add: slock_inv_def lock_init_def)
next
  case (step s s')
  then show ?case by (blast intro: slock_step_inv)
qed

text \<open>
  C39: mutual exclusion of the spin lock. In every state that threads reach by interleaving
  the atomic accesses of \<open>slock_lock\<close>, \<open>slock_try_lock\<close> and \<open>slock_unlock\<close> (each thread
  unlocking only what it holds), at most one thread is past the lock, and the lock word is
  nonzero while one is.
\<close>

theorem slock_mutual_exclusion:
  assumes "slock_reachable s" and "pcs s t = Holding"
  shows "slock_is_locked (lval s) \<and> (\<forall>u. pcs s u = Holding \<longrightarrow> u = t)"
  using slock_reachable_inv [OF assms(1)] assms(2)
  by (auto simp: slock_inv_def slock_is_locked_def split: if_splits)

theorem slock_mutual_exclusion_witness:
  "\<exists>s. slock_reachable s \<and> pcs s 3 = Holding \<and> slock_is_locked (lval s) \<and>
     (\<forall>u. pcs s u = Holding \<longrightarrow> u = 3)"
proof -
  let ?s1 = "set_pc lock_init 3 At_load"
  let ?s2 = "set_pc ?s1 3 At_cas"
  let ?s3 = "(set_pc ?s2 3 Holding)\<lparr>lval := 1\<rparr>"
  have "slock_step lock_init ?s1" by (rule call_lock) (simp add: lock_init_def)
  moreover have "slock_step ?s1 ?s2" by (rule load_free) (simp_all add: lock_init_def set_pc_def)
  moreover have "slock_step ?s2 ?s3" by (rule cas_ok) (simp_all add: lock_init_def set_pc_def)
  ultimately have r: "slock_reachable ?s3" by (meson slock_reachable.intros)
  moreover have h: "pcs ?s3 3 = Holding" by (simp add: set_pc_def)
  ultimately show ?thesis
    using slock_mutual_exclusion [OF r h] by blast
qed

section \<open>The barrier\<close>

text \<open>
  \<open>sbarrier_wait\<close>: an atomic increment whose caller goes on at once when it is the last of
  the \<open>target\<close> threads, and otherwise spins until the counter reads \<open>target\<close>.
\<close>

datatype barrier_pc = Before | Spinning | Passed

record sbarrier =
  target :: nat
  bval :: nat
  bpcs :: "nat \<Rightarrow> barrier_pc"

definition sbarrier_init :: "nat \<Rightarrow> sbarrier" where
  "sbarrier_init n = \<lparr>target = n, bval = 0, bpcs = (\<lambda>_. Before)\<rparr>"

text \<open>The threads that use a barrier are numbered below its target.\<close>

inductive sbarrier_step :: "sbarrier \<Rightarrow> sbarrier \<Rightarrow> bool" where
  arrive: "bpcs b t = Before \<Longrightarrow> t < target b \<Longrightarrow>
    sbarrier_step b (b\<lparr>bval := bval b + 1,
      bpcs := (bpcs b)(t := if bval b + 1 = target b then Passed else Spinning)\<rparr>)"
| spin: "bpcs b t = Spinning \<Longrightarrow> bval b \<noteq> target b \<Longrightarrow> sbarrier_step b b"
| leave: "bpcs b t = Spinning \<Longrightarrow> bval b = target b \<Longrightarrow>
    sbarrier_step b (b\<lparr>bpcs := (bpcs b)(t := Passed)\<rparr>)"

inductive sbarrier_reachable :: "nat \<Rightarrow> sbarrier \<Rightarrow> bool" for n where
  binit: "sbarrier_reachable n (sbarrier_init n)"
| bstep: "sbarrier_reachable n b \<Longrightarrow> sbarrier_step b b' \<Longrightarrow> sbarrier_reachable n b'"

definition arrived :: "sbarrier \<Rightarrow> nat set" where
  "arrived b = {t. t < target b \<and> bpcs b t \<noteq> Before}"

definition sbarrier_inv :: "nat \<Rightarrow> sbarrier \<Rightarrow> bool" where
  "sbarrier_inv n b \<longleftrightarrow> target b = n \<and> bval b = card (arrived b) \<and>
     (\<forall>t. n \<le> t \<longrightarrow> bpcs b t = Before) \<and>
     ((\<exists>t. bpcs b t = Passed) \<longrightarrow> bval b = n)"

lemma sbarrier_step_inv: "sbarrier_step b b' \<Longrightarrow> sbarrier_inv n b \<Longrightarrow> sbarrier_inv n b'"
proof (induction rule: sbarrier_step.induct)
  case (arrive b t)
  let ?b = "b\<lparr>bval := bval b + 1,
      bpcs := (bpcs b)(t := if bval b + 1 = target b then Passed else Spinning)\<rparr>"
  have set: "arrived ?b = insert t (arrived b)"
    using arrive by (auto simp: arrived_def)
  have "finite (arrived b)" by (simp add: arrived_def)
  moreover have "t \<notin> arrived b" using arrive by (simp add: arrived_def)
  ultimately have "card (arrived ?b) = bval b + 1"
    using arrive.prems by (simp only: set) (simp add: sbarrier_inv_def)
  moreover have "card (arrived ?b) \<le> card {..<n}"
    using arrive.prems by (intro card_mono) (auto simp: arrived_def sbarrier_inv_def)
  ultimately show ?case
    using arrive by (auto simp: sbarrier_inv_def)
next
  case (leave b t)
  have "arrived (b\<lparr>bpcs := (bpcs b)(t := Passed)\<rparr>) = arrived b"
    using leave by (auto simp: arrived_def)
  then show ?case
    using leave by (auto simp: sbarrier_inv_def)
qed simp

text \<open>
  No thread leaves the barrier before all have entered it. With as many threads as
  the barrier's target, once one thread is past \<open>sbarrier_wait\<close> every thread has arrived.
\<close>

theorem sbarrier_all_arrived:
  assumes "sbarrier_reachable n b" and "bpcs b t = Passed"
  shows "\<forall>u < n. bpcs b u \<noteq> Before"
proof -
  have "sbarrier_inv n b"
    using assms(1)
  proof (induction rule: sbarrier_reachable.induct)
    case binit
    show ?case by (simp add: sbarrier_inv_def sbarrier_init_def arrived_def)
  next
    case (bstep b b')
    then show ?case by (blast intro: sbarrier_step_inv)
  qed
  then have "card (arrived b) = card {..<n}" "arrived b \<subseteq> {..<n}"
    using assms(2) by (auto simp: sbarrier_inv_def arrived_def)
  then have "arrived b = {..<n}"
    by (intro card_subset_eq) auto
  then show ?thesis by (auto simp: arrived_def)
qed

theorem sbarrier_all_arrived_witness:
  "\<exists>b. sbarrier_reachable 1 b \<and> bpcs b 0 = Passed \<and> (\<forall>u < 1. bpcs b u \<noteq> Before)"
proof -
  let ?b = "sbarrier_init 1"
  let ?b' = "?b\<lparr>bval := bval ?b + 1,
    bpcs := (bpcs ?b)(0 := if bval ?b + 1 = target ?b then Passed else Spinning)\<rparr>"
  have "sbarrier_step ?b ?b'"
    by (rule arrive) (simp_all add: sbarrier_init_def)
  then have r: "sbarrier_reachable 1 ?b'" by (rule bstep [OF binit])
  moreover have p: "bpcs ?b' 0 = Passed" by (simp add: sbarrier_init_def)
  ultimately show ?thesis
    using sbarrier_all_arrived [OF r p] by blast
qed

end
