(* ===== verification/Region.thy ===== *)
theory Region
  imports Bits Slock
begin

text \<open>
  Regions, \<^verbatim>\<open>src/region.c\<close>: a file in shared memory that is mapped into the process, grown by
  mapping it again at twice its length, and read through bounds-checked offsets.

  The operating system is explicit: \<open>os\<close> holds the shared-memory directory (in the order
  \<^verbatim>\<open>readdir\<close> lists it) and the length of every file, \<open>sys\<close> says which calls the kernel lets
  succeed. A mapping is named by its length, the only thing about it the code's safety
  depends on; a pointer into a region is its offset (see theory \<open>Mem\<close>).
\<close>

section \<open>The operating system\<close>

record os =
  os_dir :: "(string \<times> nat) list"
  os_len :: "nat \<Rightarrow> nat"
  os_next :: nat

record sys =
  sys_shm_open :: "string \<Rightarrow> bool"
  sys_fstat :: bool
  sys_ftruncate :: "nat \<Rightarrow> bool"
  sys_mmap :: "nat \<Rightarrow> bool"
  sys_munmap :: "nat \<Rightarrow> bool"
  sys_close :: bool

text \<open>
  What the program relies on: \<^verbatim>\<open>mmap\<close> fails on an empty mapping (\<^verbatim>\<open>EINVAL\<close>) and on one that
  does not fit the address space (\<^verbatim>\<open>ENOMEM\<close>), which on AMD64 is two to the 47 bytes.
\<close>

definition sys_amd64 :: "sys \<Rightarrow> bool" where
  "sys_amd64 sys \<longleftrightarrow> (\<forall>n. sys_mmap sys n \<longrightarrow> 0 < n \<and> n \<le> 140737488355328)"

text \<open>A kernel that refuses nothing else.\<close>

definition sys_ok :: sys where
  "sys_ok = \<lparr>sys_shm_open = (\<lambda>_. True), sys_fstat = True, sys_ftruncate = (\<lambda>_. True),
     sys_mmap = (\<lambda>n. 0 < n \<and> n \<le> 140737488355328), sys_munmap = (\<lambda>_. True), sys_close = True\<rparr>"

definition shm_unlink :: "os \<Rightarrow> string \<Rightarrow> bool \<times> os" where
  "shm_unlink os name =
     (if map_of (os_dir os) name = None then (False, os)
      else (True, os\<lparr>os_dir := filter (\<lambda>e. fst e \<noteq> name) (os_dir os)\<rparr>))"

section \<open>Definitions\<close>

definition region_default_len :: nat where
  "region_default_len = 1048576"

definition page_len :: nat where
  "page_len = 4096"

definition cache_line_len :: nat where
  "cache_line_len = 64"

definition name_max :: nat where
  "name_max = 255"

text \<open>
  \<^verbatim>\<open>struct region\<close>. \<open>vma_len\<close> is the current mapping, \<open>vma_older\<close> the ones it replaced,
  which stay mapped.
\<close>

record region =
  fd :: nat
  owned :: bool
  rname :: string
  rlock :: slock
  min_pos :: nat
  pos :: nat
  vma_len :: nat
  vma_older :: "nat list"

definition zero_region :: region where
  "zero_region = \<lparr>fd = 0, owned = False, rname = [], rlock = 0, min_pos = 0, pos = 0,
     vma_len = 0, vma_older = []\<rparr>"

definition region_shm_name :: "string \<Rightarrow> nat \<Rightarrow> string option" where
  "region_shm_name name dest_len =
     (if 7 + length name < dest_len then Some (''optics.'' @ name) else None)"

definition region_file_len :: "sys \<Rightarrow> os \<Rightarrow> nat \<Rightarrow> nat option" where
  "region_file_len sys os f = (if sys_fstat sys then Some (os_len os f) else None)"

definition region_unlink :: "os \<Rightarrow> string \<Rightarrow> bool \<times> os" where
  "region_unlink os name =
     (case region_shm_name name name_max of
        None \<Rightarrow> (False, os)
      | Some shm_name \<Rightarrow> shm_unlink os shm_name)"

text \<open>\<open>None\<close> is the failed assertion that the default length is a multiple of a page.\<close>

definition region_create :: "sys \<Rightarrow> os \<Rightarrow> string \<Rightarrow> nat \<Rightarrow> ((bool \<times> region) \<times> os) option" where
  "region_create sys os0 name len =
     (let os = snd (region_unlink os0 name) in
      case region_shm_name name name_max of
        None \<Rightarrow> Some ((False, zero_region), os)
      | Some shm_name \<Rightarrow>
          if map_of (os_dir os) shm_name \<noteq> None \<or> \<not> sys_shm_open sys shm_name
          then Some ((False, zero_region), os)
          else
            (let f = os_next os;
                 os1 = os\<lparr>os_dir := os_dir os @ [(shm_name, f)], os_len := (os_len os)(f := 0),
                          os_next := Suc f\<rparr>
             in if region_default_len \<noteq> align region_default_len page_len then None
                else if \<not> sys_ftruncate sys region_default_len
                then Some ((False, zero_region), snd (shm_unlink os1 shm_name))
                else
                  (let os2 = os1\<lparr>os_len := (os_len os1)(f := region_default_len)\<rparr> in
                   if \<not> sys_mmap sys region_default_len
                   then Some ((False, zero_region), snd (shm_unlink os2 shm_name))
                   else
                     Some ((True, zero_region\<lparr>fd := f, owned := True, rname := shm_name,
                        min_pos := len, vma_len := region_default_len,
                        pos := align len cache_line_len\<rparr>), os2))))"

definition region_open :: "sys \<Rightarrow> os \<Rightarrow> string \<Rightarrow> bool \<times> region" where
  "region_open sys os name =
     (case region_shm_name name name_max of
        None \<Rightarrow> (False, zero_region)
      | Some shm_name \<Rightarrow>
          (case map_of (os_dir os) shm_name of
             None \<Rightarrow> (False, zero_region)
           | Some f \<Rightarrow>
               if \<not> sys_shm_open sys shm_name then (False, zero_region)
               else
                 (case region_file_len sys os f of
                    None \<Rightarrow> (False, zero_region)
                  | Some len \<Rightarrow>
                      if \<not> sys_mmap sys len then (False, zero_region)
                      else (True, zero_region\<lparr>fd := f, owned := False, rname := shm_name,
                              vma_len := len, pos := len\<rparr>))))"

text \<open>The loop over the mappings stops at the first one that cannot be unmapped.\<close>

definition region_close :: "sys \<Rightarrow> os \<Rightarrow> region \<Rightarrow> (bool \<times> os) option" where
  "region_close sys os r =
     (if \<not> fst (slock_try_lock (rlock r)) then None
      else if \<not> list_all (sys_munmap sys) (vma_len r # vma_older r) then Some (False, os)
      else if \<not> sys_close sys then Some (False, os)
      else if owned r then Some (shm_unlink os (rname r))
      else Some (True, os))"

text \<open>
  \<open>region_grow\<close> returns the offset of the new space, 0 when it fails. \<open>None\<close>: the lock is
  taken or the length doubles past 64 bits, and the call spins.
\<close>

definition region_grow :: "sys \<Rightarrow> os \<Rightarrow> region \<Rightarrow> nat \<Rightarrow> (nat \<times> region \<times> os) option" where
  "region_grow sys os r len =
     (if \<not> owned r then Some (0, r, os)
      else
        (case slock_lock (rlock r) of
           None \<Rightarrow> None
         | Some l \<Rightarrow>
             (let r1 = r\<lparr>rlock := l\<rparr>;
                  old_pos = pos r1;
                  new_pos = uadd old_pos len;
                  unlock = (\<lambda>r. r\<lparr>rlock := slock_unlock (rlock r)\<rparr>)
              in if new_pos \<le> vma_len r1 then Some (old_pos, unlock (r1\<lparr>pos := new_pos\<rparr>), os)
                 else
                   (case double_until (vma_len r1) (new_pos + 1) of
                      None \<Rightarrow> None
                    | Some new_len \<Rightarrow>
                        if \<not> sys_ftruncate sys new_len then Some (0, unlock r1, os)
                        else
                          (let os' = os\<lparr>os_len := (os_len os)(fd r1 := new_len)\<rparr> in
                           if \<not> sys_mmap sys new_len then Some (0, unlock r1, os')
                           else
                             Some (old_pos,
                               unlock (r1\<lparr>vma_older := vma_len r1 # vma_older r1,
                                          vma_len := new_len, pos := new_pos\<rparr>), os'))))))"

definition region_ptr_unsafe :: "region \<Rightarrow> off \<Rightarrow> nat \<Rightarrow> off option" where
  "region_ptr_unsafe r off len =
     (let max_len = pos r in
      if max_len < off \<or> max_len < uadd off len then None else Some off)"

definition region_ptr :: "region \<Rightarrow> off \<Rightarrow> nat \<Rightarrow> off option" where
  "region_ptr r off len = (if off < min_pos r then None else region_ptr_unsafe r off len)"

section \<open>Lemmas\<close>

text \<open>
  A region in use: unlocked, its position inside the current mapping, which is inside the
  file and no larger than the address space.
\<close>

definition region_inv :: "os \<Rightarrow> region \<Rightarrow> bool" where
  "region_inv os r \<longleftrightarrow> rlock r = 0 \<and> min_pos r \<le> pos r \<and> pos r \<le> vma_len r \<and> 0 < vma_len r \<and>
     vma_len r \<le> os_len os (fd r) \<and> vma_len r \<le> 140737488355328 \<and>
     list_all (\<lambda>v. v \<le> vma_len r) (vma_older r)"

lemma region_ptr_Some_iff:
  assumes "off + len < 18446744073709551616"
  shows "region_ptr r off len = Some p \<longleftrightarrow> p = off \<and> min_pos r \<le> off \<and> off + len \<le> pos r"
  using assms by (auto simp: region_ptr_def region_ptr_unsafe_def Let_def wrap_simps)

lemma region_ptr_SomeI:
  "min_pos r \<le> off \<Longrightarrow> off + len \<le> pos r \<Longrightarrow> pos r < 18446744073709551616 \<Longrightarrow>
     region_ptr r off len = Some off"
  by (simp add: region_ptr_Some_iff)

lemma sys_ok_amd64 [simp]: "sys_amd64 sys_ok"
  by (simp add: sys_amd64_def sys_ok_def)

lemma region_grow_cases:
  assumes "region_inv os r" "owned r" "sys_amd64 sys" "len \<le> 140737488355328"
  obtains
    (fail) r' os' where "region_grow sys os r len = Some (0, r', os')" "r' = r"
      "region_inv os' r" "vma_len r < pos r + len"
  | (grown) r' os' where "region_grow sys os r len = Some (pos r, r', os')" "region_inv os' r'"
      "pos r' = pos r + len" "min_pos r' = min_pos r" "owned r'" "fd r' = fd r"
      "rname r' = rname r" "vma_len r \<le> vma_len r'"
      "set (vma_len r # vma_older r) \<subseteq> set (vma_len r' # vma_older r')"
proof -
  have inv: "rlock r = 0" "min_pos r \<le> pos r" "pos r \<le> vma_len r" "0 < vma_len r"
      "vma_len r \<le> os_len os (fd r)" "vma_len r \<le> 140737488355328"
      "list_all (\<lambda>v. v \<le> vma_len r) (vma_older r)"
    using assms(1) by (simp_all add: region_inv_def)
  have u: "uadd (pos r) len = pos r + len"
    using assms(4) inv by (intro uadd_small) simp
  have same: "r\<lparr>rlock := 0\<rparr> = r" using inv(1) by simp
  show thesis
  proof (cases "pos r + len \<le> vma_len r")
    case True
    then show thesis
      using assms inv u
      by (intro grown [of "r\<lparr>pos := pos r + len\<rparr>" os]) (auto simp: region_grow_def Let_def region_inv_def same)
  next
    case big: False
    obtain k where k: "double_until (vma_len r) (pos r + len + 1) = Some (vma_len r * 2 ^ k)"
        "pos r + len + 1 \<le> vma_len r * 2 ^ k"
      by (rule double_until_ends [of "vma_len r" "pos r + len + 1"]) (use inv assms(4) in auto)
    let ?n = "vma_len r * 2 ^ k"
    let ?os = "os\<lparr>os_len := (os_len os)(fd r := ?n)\<rparr>"
    let ?r = "r\<lparr>vma_older := vma_len r # vma_older r, vma_len := ?n, pos := pos r + len\<rparr>"
    have n: "vma_len r \<le> ?n" by simp
    have eq: "region_grow sys os r len =
      (if \<not> sys_ftruncate sys ?n then Some (0, r, os)
       else if \<not> sys_mmap sys ?n then Some (0, r, ?os) else Some (pos r, ?r, ?os))"
      using assms(2) inv(1) u k(1) big by (simp add: region_grow_def Let_def)
    have "region_inv ?os r" using inv n by (simp add: region_inv_def)
    moreover have "sys_mmap sys ?n \<Longrightarrow> region_inv ?os ?r"
      using inv n k(2) assms(3)
      by (auto simp: region_inv_def list_all_iff sys_amd64_def intro: le_trans [OF _ n])
    ultimately show thesis
    proof (cases "sys_ftruncate sys ?n \<and> sys_mmap sys ?n")
      case True
      then show thesis
        using \<open>sys_mmap sys ?n \<Longrightarrow> region_inv ?os ?r\<close> eq n assms(2) by (intro grown [of ?r ?os]) auto
    next
      case no: False
      show thesis
      proof (cases "sys_ftruncate sys ?n")
        case True
        with no eq \<open>region_inv ?os r\<close> big show thesis by (intro fail [of r ?os]) auto
      next
        case False
        with eq assms(1) big show thesis by (intro fail [of r os]) auto
      qed
    qed
  qed
qed

text \<open>
  C33: growing a region. On a region in use, \<open>region_grow\<close> returns whatever the kernel does
  (no spin, no overflow). It either returns 0 and leaves the region as it was, or returns
  the old position as the offset of \<open>len\<close> new bytes: they lie inside the new mapping, every
  earlier mapping is kept, every access that was accepted before is accepted still, and the
  lock is free again.
\<close>

theorem region_grow_spec:
  assumes "region_inv os r" "owned r" "sys_amd64 sys" "len \<le> 140737488355328"
  shows "\<exists>off r' os'. region_grow sys os r len = Some (off, r', os') \<and> region_inv os' r' \<and>
     (off = 0 \<and> r' = r \<or>
      off = pos r \<and> pos r' = pos r + len \<and> pos r' \<le> vma_len r' \<and>
      set (vma_len r # vma_older r) \<subseteq> set (vma_len r' # vma_older r') \<and>
      (\<forall>o' l. o' + l < 18446744073709551616 \<longrightarrow> region_ptr r o' l \<noteq> None \<longrightarrow>
         region_ptr r' o' l = Some o'))"
  using assms
proof (cases rule: region_grow_cases [where sys = sys])
  case (fail r' os')
  then show ?thesis by blast
next
  case (grown r' os')
  have "region_ptr r' o' l = Some o'"
    if "o' + l < 18446744073709551616" "region_ptr r o' l \<noteq> None" for o' l
    using that grown(3,4) by (auto simp: region_ptr_Some_iff)
  then show ?thesis using grown by (auto simp: region_inv_def)
qed

definition fresh_region :: region where
  "fresh_region = zero_region\<lparr>fd := 0, owned := True, rname := ''optics.t'', min_pos := 656,
     vma_len := region_default_len, pos := 704\<rparr>"

definition fresh_os :: os where
  "fresh_os = \<lparr>os_dir = [(''optics.t'', 0)], os_len = (\<lambda>_. region_default_len), os_next = 1\<rparr>"

lemma fresh_region_inv [simp]: "region_inv fresh_os fresh_region" "owned fresh_region"
  by (simp_all add: region_inv_def fresh_region_def fresh_os_def zero_region_def
        region_default_len_def)

theorem region_grow_spec_witness:
  "\<exists>off r' os'. region_grow sys_ok fresh_os fresh_region 65536 = Some (off, r', os') \<and>
     region_inv os' r' \<and>
     (off = 0 \<and> r' = fresh_region \<or>
      off = pos fresh_region \<and> pos r' = pos fresh_region + 65536 \<and> pos r' \<le> vma_len r' \<and>
      set (vma_len fresh_region # vma_older fresh_region) \<subseteq> set (vma_len r' # vma_older r') \<and>
      (\<forall>o' l. o' + l < 18446744073709551616 \<longrightarrow> region_ptr fresh_region o' l \<noteq> None \<longrightarrow>
         region_ptr r' o' l = Some o'))"
  by (rule region_grow_spec) simp_all

text \<open>
  C34: bounds of an access. For an access whose end does not wrap around, \<open>region_ptr\<close>
  accepts exactly the ranges between the header and the position, and an accepted range
  lies inside the current mapping and the file.
\<close>

theorem region_ptr_bounds:
  assumes "region_inv os r" "off + len < 18446744073709551616"
  shows "(region_ptr r off len = Some off \<longleftrightarrow> min_pos r \<le> off \<and> off + len \<le> pos r) \<and>
     (\<forall>p. region_ptr r off len = Some p \<longrightarrow>
        p = off \<and> p + len \<le> vma_len r \<and> p + len \<le> os_len os (fd r))"
  using assms by (auto simp: region_ptr_Some_iff region_inv_def)

theorem region_ptr_bounds_witness:
  "region_ptr fresh_region 656 48 = Some 656 \<and> 656 + 48 \<le> vma_len fresh_region"
proof -
  have "min_pos fresh_region \<le> 656 \<and> 656 + 48 \<le> pos fresh_region"
    by (simp add: fresh_region_def zero_region_def)
  then show ?thesis
    using region_ptr_bounds [of fresh_os fresh_region 656 48] by auto
qed

text \<open>
  The end of the range is not protected against wrap-around: an access of a length
  close to two to the 64 is accepted at any valid offset, though the range leaves the
  mapping. The code's separate check of \<^verbatim>\<open>off\<close> covers a large offset only.
\<close>

theorem region_ptr_len_wraps:
  "region_ptr fresh_region 700 18446744073709551000 = Some 700 \<and>
   \<not> 700 + 18446744073709551000 \<le> vma_len fresh_region"
  by (simp add: region_ptr_def region_ptr_unsafe_def uadd_def fresh_region_def zero_region_def
        region_default_len_def)

section \<open>Creating, opening and closing\<close>

lemma map_of_filter_neq:
  "map_of (filter (\<lambda>e. fst e \<noteq> n) xs) k = (if k = n then None else map_of xs k)"
  by (induction xs) auto

lemma shm_unlink_dir:
  "map_of (os_dir (snd (shm_unlink os n))) k = (if k = n then None else map_of (os_dir os) k)"
  by (simp add: shm_unlink_def map_of_filter_neq)

lemma shm_unlink_other [simp]:
  "os_len (snd (shm_unlink os n)) = os_len os" "os_next (snd (shm_unlink os n)) = os_next os"
  by (simp_all add: shm_unlink_def)

lemma region_unlink_dir:
  "region_shm_name name name_max = Some n \<Longrightarrow>
     map_of (os_dir (snd (region_unlink os name))) k = (if k = n then None else map_of (os_dir os) k)"
  by (simp add: region_unlink_def shm_unlink_dir)

lemma region_unlink_other [simp]:
  "os_len (snd (region_unlink os n)) = os_len os" "os_next (snd (region_unlink os n)) = os_next os"
  by (simp_all add: region_unlink_def split: option.split)

lemma region_default_len_aligned: "align region_default_len page_len = region_default_len"
  by (simp add: align_def ceil_div_def region_default_len_def page_len_def umul_def uadd_def)

text \<open>
  The region that a successful \<open>region_create\<close> makes, and the file behind it.
\<close>

definition created_region :: "string \<Rightarrow> nat \<Rightarrow> nat \<Rightarrow> region" where
  "created_region n f len = zero_region\<lparr>fd := f, owned := True, rname := n, min_pos := len,
     vma_len := region_default_len, pos := align len cache_line_len\<rparr>"

lemma region_create_cases:
  assumes "region_shm_name name name_max = Some n"
  obtains
    (fail) os' where "region_create sys os name len = Some ((False, zero_region), os')"
      "\<And>k. map_of (os_dir os') k = (if k = n then None else map_of (os_dir os) k)"
      "\<not> (sys_shm_open sys n \<and> sys_ftruncate sys region_default_len \<and>
          sys_mmap sys region_default_len)"
  | (ok) os' where "region_create sys os name len =
        Some ((True, created_region n (os_next os) len), os')"
      "\<And>k. map_of (os_dir os') k = (if k = n then Some (os_next os) else map_of (os_dir os) k)"
      "os_len os' = (os_len os)(os_next os := region_default_len)" "os_next os' = Suc (os_next os)"
      "sys_shm_open sys n" "sys_mmap sys region_default_len"
proof -
  let ?os = "snd (region_unlink os name)"
  let ?os1 = "?os\<lparr>os_dir := os_dir ?os @ [(n, os_next os)],
    os_len := (os_len os)(os_next os := 0), os_next := Suc (os_next os)\<rparr>"
  let ?os2 = "?os1\<lparr>os_len := (os_len os)(os_next os := region_default_len)\<rparr>"
  note dir = region_unlink_dir [OF assms, of os]
  have eq: "region_create sys os name len =
    (if \<not> sys_shm_open sys n then Some ((False, zero_region), ?os)
     else if \<not> sys_ftruncate sys region_default_len
     then Some ((False, zero_region), snd (shm_unlink ?os1 n))
     else if \<not> sys_mmap sys region_default_len
     then Some ((False, zero_region), snd (shm_unlink ?os2 n))
     else Some ((True, created_region n (os_next os) len), ?os2))"
    using dir [of n]
    by (simp add: region_create_def assms Let_def region_default_len_aligned created_region_def)
  show thesis
  proof (cases "sys_shm_open sys n \<and> sys_ftruncate sys region_default_len \<and>
      sys_mmap sys region_default_len")
    case True
    then show thesis
      using eq dir by (intro ok [of ?os2]) (auto simp: map_add_def split: option.split)
  next
    case False
    consider "\<not> sys_shm_open sys n"
      | "sys_shm_open sys n" "\<not> sys_ftruncate sys region_default_len"
      | "sys_shm_open sys n" "sys_ftruncate sys region_default_len"
        "\<not> sys_mmap sys region_default_len"
      using False by blast
    then show thesis
    proof cases
      case 1
      then show thesis using eq dir by (intro fail [of ?os]) auto
    next
      case 2
      then show thesis using eq dir
        by (intro fail [of "snd (shm_unlink ?os1 n)"])
          (auto simp: shm_unlink_dir map_add_def split: option.split)
    next
      case 3
      then show thesis using eq dir
        by (intro fail [of "snd (shm_unlink ?os2 n)"])
          (auto simp: shm_unlink_dir map_add_def split: option.split)
    qed
  qed
qed

lemma region_create_sys_ok:
  assumes "region_shm_name name name_max = Some n"
  obtains os' where "region_create sys_ok os name len =
      Some ((True, created_region n (os_next os) len), os')"
    "map_of (os_dir os') n = Some (os_next os)" "os_next os' = Suc (os_next os)"
  using assms
  by (cases rule: region_create_cases [where sys = sys_ok and os = os and len = len])
    (auto simp: sys_ok_def region_default_len_def)



text \<open>
  Closing an owned region unlinks by name. The file that \<open>region_close\<close> removes is
  whichever one has the name at that moment, so a process that outlives the re-creation of
  its region by another process removes the other's file: nobody can open it any more.
\<close>

theorem region_close_unlinks_name:
  assumes "rlock r = 0" "owned r" "list_all (sys_munmap sys) (vma_len r # vma_older r)"
    "sys_close sys" "map_of (os_dir os) (rname r) = Some f"
  shows "\<exists>os'. region_close sys os r = Some (True, os') \<and>
     map_of (os_dir os') (rname r) = None \<and>
     (\<forall>k. k \<noteq> rname r \<longrightarrow> map_of (os_dir os') k = map_of (os_dir os) k)"
  using assms shm_unlink_dir [of os "rname r"]
  by (auto simp: region_close_def shm_unlink_def)

theorem region_close_unlinks_name_witness:
  "\<exists>os1 r1 os2 r2 os'. region_create sys_ok fresh_os ''t'' 656 = Some ((True, r1), os1) \<and>
     region_create sys_ok os1 ''t'' 656 = Some ((True, r2), os2) \<and> fd r1 \<noteq> fd r2 \<and>
     region_close sys_ok os2 r1 = Some (True, os') \<and>
     map_of (os_dir os') ''optics.t'' = None"
proof -
  have n: "region_shm_name ''t'' name_max = Some ''optics.t''"
    by (simp add: region_shm_name_def name_max_def)
  obtain os1 where 1: "region_create sys_ok fresh_os ''t'' 656 =
      Some ((True, created_region ''optics.t'' 1 656), os1)" (is "_ = Some ((_, ?r1), _)")
      "os_next os1 = 2"
    by (rule region_create_sys_ok [OF n, of fresh_os 656]) (simp add: fresh_os_def)
  obtain os2 where 2: "region_create sys_ok os1 ''t'' 656 =
      Some ((True, created_region ''optics.t'' 2 656), os2)"
      "map_of (os_dir os2) ''optics.t'' = Some 2"
    by (rule region_create_sys_ok [OF n, of os1 656]) (simp add: 1)
  have r1: "rlock ?r1 = 0" "owned ?r1" "rname ?r1 = ''optics.t''"
    "list_all (sys_munmap sys_ok) (vma_len ?r1 # vma_older ?r1)" "sys_close sys_ok"
    by (simp_all add: created_region_def zero_region_def sys_ok_def)
  obtain os' where "region_close sys_ok os2 ?r1 = Some (True, os')"
      "map_of (os_dir os') ''optics.t'' = None"
    using region_close_unlinks_name [OF r1(1,2,4,5), of os2 2] 2(2) r1(3) by auto
  then show ?thesis
    using 1 2 by (intro exI conjI) (assumption | simp add: created_region_def)+
qed

section \<open>Reading while the region grows\<close>

text \<open>
  \<open>region_ptr_unsafe\<close> takes no lock. Of a growing region a reader can see the mapping and the
  position before, between and after the two stores of \<open>region_grow\<close>; it loads the mapping
  at one moment \<open>i\<close> and the position at a later or the same moment \<open>j\<close>, and gets a pointer into
  the mapping it loaded when the check passes.
\<close>

definition region_grow_stores :: "region \<Rightarrow> region \<Rightarrow> (nat \<times> nat) list" where
  "region_grow_stores r r' =
     [(vma_len r, pos r), (vma_len r', pos r), (vma_len r', pos r')]"

definition region_ptr_during :: "(nat \<times> nat) list \<Rightarrow> nat \<Rightarrow> nat \<Rightarrow> off \<Rightarrow> nat \<Rightarrow> (nat \<times> off) option" where
  "region_ptr_during states i j off len =
     (let vma = fst (states ! i); max_len = snd (states ! j) in
      if max_len < off \<or> max_len < uadd off len then None else Some (vma, off))"

text \<open>
  C37: the order of the two loads. While a grow replaces the mapping, an accepted access
  stays inside the mapping the reader loaded at every pair of moments but one: when the
  mapping is loaded before both stores and the position after both, accesses past the end
  of the old mapping are accepted. (The comments in \<^verbatim>\<open>region_grow\<close> and
  \<^verbatim>\<open>region_ptr_unsafe\<close> say that reading \<^verbatim>\<open>pos\<close> after \<^verbatim>\<open>ptr\<close> excludes this.)
\<close>

theorem region_ptr_during_grow:
  assumes "region_inv os r" "owned r" "sys_amd64 sys" "len \<le> 140737488355328"
    and "region_grow sys os r len = Some (off, r', os')" "off \<noteq> 0" "vma_len r < pos r + len"
    and "i \<le> j" "j < 3"
  shows "(\<forall>a l v p. a + l < 18446744073709551616 \<longrightarrow>
       region_ptr_during (region_grow_stores r r') i j a l = Some (v, p) \<longrightarrow> p + l \<le> v)
     \<longleftrightarrow> \<not> (i = 0 \<and> j = 2)"
    (is "?safe \<longleftrightarrow> _")
proof -
  have r': "pos r \<le> vma_len r" "vma_len r \<le> vma_len r'" "pos r' \<le> vma_len r'" "pos r' = pos r + len"
      "pos r' < 18446744073709551616"
    using assms(1-4)
    by (cases rule: region_grow_cases [where sys = sys]; use assms(1,5,6) in \<open>simp add: region_inv_def\<close>)+
  consider "i = 0" "j = 0" | "i = 0" "j = 1" | "i = 0" "j = 2" | "i = 1" "j = 1" | "i = 1" "j = 2"
    | "i = 2" "j = 2"
    using assms(8,9) by linarith
  then show ?thesis
  proof cases
    case 3
    have "region_ptr_during (region_grow_stores r r') i j (pos r' - 1) 1 = Some (vma_len r, pos r' - 1)"
      using 3 r' assms(7) by (simp add: region_ptr_during_def region_grow_stores_def wrap_simps Let_def)
    then have "\<not> ?safe"
    proof (rule contrapos_pn)
      assume ?safe
      then have "\<lbrakk>(pos r' - 1) + 1 < 18446744073709551616; region_ptr_during (region_grow_stores r r') i j
          (pos r' - 1) 1 = Some (vma_len r, pos r' - 1)\<rbrakk> \<Longrightarrow> (pos r' - 1) + 1 \<le> vma_len r"
        by blast
      with r' assms(7) show "region_ptr_during (region_grow_stores r r') i j (pos r' - 1) 1 \<noteq>
          Some (vma_len r, pos r' - 1)" by auto
    qed
    then show ?thesis using 3 by simp
  qed (use r' in \<open>auto simp: region_ptr_during_def region_grow_stores_def wrap_simps Let_def
         numeral_2_eq_2 split: if_splits\<close>)
qed

definition full_region :: region where
  "full_region = fresh_region\<lparr>pos := 1048000\<rparr>"

lemma full_region_inv: "region_inv fresh_os full_region" "owned full_region"
  by (simp_all add: region_inv_def full_region_def fresh_region_def fresh_os_def zero_region_def
        region_default_len_def)

lemma full_region_grow:
  obtains os' where "region_grow sys_ok fresh_os full_region 65536 =
    Some (1048000, full_region\<lparr>vma_older := [1048576], vma_len := 2097152, pos := 1113536\<rparr>, os')"
  by (simp add: region_grow_def full_region_def fresh_region_def zero_region_def
        region_default_len_def sys_ok_def double_until_def double_loop_numeral uadd_def umul_def
        Let_def)

theorem region_ptr_during_grow_witness:
  "\<exists>r' os'. region_grow sys_ok fresh_os full_region 65536 = Some (1048000, r', os') \<and>
     \<not> (\<forall>a l v p. a + l < 18446744073709551616 \<longrightarrow>
       region_ptr_during (region_grow_stores full_region r') 0 2 a l = Some (v, p) \<longrightarrow> p + l \<le> v)"
proof -
  obtain r' os' where g: "region_grow sys_ok fresh_os full_region 65536 = Some (1048000, r', os')"
    using full_region_grow by blast
  have "vma_len full_region < pos full_region + 65536"
    by (simp add: full_region_def fresh_region_def zero_region_def region_default_len_def)
  then show ?thesis
    using region_ptr_during_grow [OF full_region_inv sys_ok_amd64 _ g, of 0 2] g by fastforce
qed

end
