(* ===== verification/Mem.thy ===== *)
theory Mem
  imports Prelude
begin

text \<open>
  The bytes of a region. A region is a file in shared memory that every process maps from
  its start, possibly several times at different addresses (\<^verbatim>\<open>region_grow\<close> keeps the old
  mappings), so a pointer into the region is modelled by its offset and all the mappings
  alias one byte array. The machine is little-endian.
\<close>

type_synonym byte = "8 word"
type_synonym mem = "nat \<Rightarrow> byte"

section \<open>Loads and stores\<close>

fun load :: "nat \<Rightarrow> mem \<Rightarrow> nat \<Rightarrow> nat" where
  "load 0 m a = 0"
| "load (Suc w) m a = unat (m a) + 256 * load w m (Suc a)"

fun store :: "nat \<Rightarrow> mem \<Rightarrow> nat \<Rightarrow> nat \<Rightarrow> mem" where
  "store 0 m a v = m"
| "store (Suc w) m a v = store w (m(a := of_nat v)) (Suc a) (v div 256)"

abbreviation load64 :: "mem \<Rightarrow> nat \<Rightarrow> nat" where
  "load64 \<equiv> load 8"

abbreviation store64 :: "mem \<Rightarrow> nat \<Rightarrow> nat \<Rightarrow> mem" where
  "store64 \<equiv> store 8"

abbreviation load32 :: "mem \<Rightarrow> nat \<Rightarrow> nat" where
  "load32 \<equiv> load 4"

abbreviation store32 :: "mem \<Rightarrow> nat \<Rightarrow> nat \<Rightarrow> mem" where
  "store32 \<equiv> store 4"

text \<open>\<^verbatim>\<open>memset\<close>, and \<^verbatim>\<open>memcpy\<close> from a list of bytes.\<close>

definition memset :: "mem \<Rightarrow> nat \<Rightarrow> byte \<Rightarrow> nat \<Rightarrow> mem" where
  "memset m a c n = (\<lambda>x. if a \<le> x \<and> x < a + n then c else m x)"

definition memcpy :: "mem \<Rightarrow> nat \<Rightarrow> byte list \<Rightarrow> mem" where
  "memcpy m a bs = (\<lambda>x. if a \<le> x \<and> x < a + length bs then bs ! (x - a) else m x)"

definition byte_of :: "char \<Rightarrow> byte" where
  "byte_of c = of_nat (of_char c)"

definition char_of_byte :: "byte \<Rightarrow> char" where
  "char_of_byte b = char_of (unat b)"

text \<open>The C string that starts at \<open>a\<close>, read for at most \<open>n\<close> bytes.\<close>

definition read_cstr :: "mem \<Rightarrow> nat \<Rightarrow> nat \<Rightarrow> string" where
  "read_cstr m a n = map char_of_byte (takeWhile (\<lambda>b. b \<noteq> 0) (map m [a..<a + n]))"

section \<open>What a cell promises\<close>

text \<open>
  The interface of a fixed-width cell: a load after a store at the same place gives the
  stored value at the cell's width, a store changes only its own bytes, and a load looks
  at no other bytes.
\<close>

locale cell =
  fixes ld :: "mem \<Rightarrow> nat \<Rightarrow> nat" and st :: "mem \<Rightarrow> nat \<Rightarrow> nat \<Rightarrow> mem" and sz :: nat
  assumes ld_st: "ld (st m a v) a = v mod 256 ^ sz"
    and st_frame: "x < a \<or> a + sz \<le> x \<Longrightarrow> st m a v x = m x"
    and ld_cong: "(\<And>x. a \<le> x \<Longrightarrow> x < a + sz \<Longrightarrow> m x = m' x) \<Longrightarrow> ld m a = ld m' a"
begin

lemma ld_st_same: "v < 256 ^ sz \<Longrightarrow> ld (st m a v) a = v"
  by (simp add: ld_st)

lemma ld_st_other: "a + sz \<le> b \<or> b + sz \<le> a \<Longrightarrow> ld (st m b v) a = ld m a"
  by (rule ld_cong) (auto simp: st_frame)

lemma ld_memset_other: "a + sz \<le> b \<or> b + n \<le> a \<Longrightarrow> ld (memset m b c n) a = ld m a"
  by (rule ld_cong) (auto simp: memset_def)

lemma ld_memcpy_other: "a + sz \<le> b \<or> b + length bs \<le> a \<Longrightarrow> ld (memcpy m b bs) a = ld m a"
  by (rule ld_cong) (auto simp: memcpy_def)

end

lemma store_frame: "x < a \<or> a + w \<le> x \<Longrightarrow> store w m a v x = m x"
  by (induction w arbitrary: m a v) auto

lemma load_cong: "(\<And>x. a \<le> x \<Longrightarrow> x < a + w \<Longrightarrow> m x = m' x) \<Longrightarrow> load w m a = load w m' a"
  by (induction w arbitrary: a) auto

lemma load_store: "load w (store w m a v) a = v mod 256 ^ w"
proof (induction w arbitrary: m a v)
  case 0
  then show ?case by simp
next
  case (Suc w)
  have "unat (store w (m(a := of_nat v)) (Suc a) (v div 256) a) = v mod 256"
    by (simp add: store_frame unat_of_nat)
  then have "load (Suc w) (store (Suc w) m a v) a = v mod 256 + 256 * (v div 256 mod 256 ^ w)"
    by (simp add: Suc.IH)
  also have "\<dots> = v mod 256 ^ Suc w"
    by (simp add: mod_mult2_eq)
  finally show ?case .
qed

lemma load_less: "load w m a < 256 ^ w"
proof (induction w arbitrary: a)
  case (Suc w)
  have "unat (m a) < 256"
    using unsigned_less [of "m a", where ?'a = nat] by simp
  then show ?case
    using Suc.IH [of "Suc a"] by simp
qed simp

interpretation c64: cell load64 store64 8
  by unfold_locales (simp_all only: load_store store_frame, rule load_cong)

interpretation c32: cell load32 store32 4
  by unfold_locales (simp_all only: load_store store_frame, rule load_cong)

lemma load64_less [simp]: "load64 m a < 18446744073709551616"
  using load_less [of 8 m a] by simp

lemma load_store_disjoint:
  "a + w \<le> b \<or> b + w' \<le> a \<Longrightarrow> load w (store w' m b v) a = load w m a"
  by (rule load_cong) (auto simp: store_frame)

lemma load_memset_disjoint:
  "a + w \<le> b \<or> b + n \<le> a \<Longrightarrow> load w (memset m b c n) a = load w m a"
  by (rule load_cong) (auto simp: memset_def)

lemma load_memcpy_disjoint:
  "a + w \<le> b \<or> b + length bs \<le> a \<Longrightarrow> load w (memcpy m b bs) a = load w m a"
  by (rule load_cong) (auto simp: memcpy_def)

lemma load_zero: "(\<And>x. a \<le> x \<Longrightarrow> x < a + w \<Longrightarrow> m x = 0) \<Longrightarrow> load w m a = 0"
  by (induction w arbitrary: a) auto

lemma load64_store64 [simp]: "v < 18446744073709551616 \<Longrightarrow> load64 (store64 m a v) a = v"
  by (rule c64.ld_st_same) simp

lemma load32_store32 [simp]: "v < 4294967296 \<Longrightarrow> load32 (store32 m a v) a = v"
  by (rule c32.ld_st_same) simp

lemmas mem_other = load_store_disjoint load_memset_disjoint load_memcpy_disjoint

section \<open>Strings in memory\<close>

lemma of_char_less_256: "of_char c < (256 :: nat)"
  using nat_of_char_less_256 by simp

lemma char_of_byte_of [simp]: "char_of_byte (byte_of c) = c"
  by (simp add: char_of_byte_def byte_of_def unat_of_nat of_char_less_256)

lemma byte_of_eq_0_iff [simp]: "byte_of c = 0 \<longleftrightarrow> c = nil_char"
proof
  assume "byte_of c = 0"
  then have "unat (of_nat (of_char c) :: byte) = 0"
    by (simp add: byte_of_def)
  then have "(of_char c :: nat) = of_char nil_char"
    by (simp only: unat_of_nat) (simp add: nil_char_def of_char_less_256)
  then show "c = nil_char" by (simp only: of_char_eq_iff)
qed (simp add: byte_of_def nil_char_def)

lemma upt_split: "k < n \<Longrightarrow> [a..<a + n] = [a..<a + k] @ (a + k) # [Suc (a + k)..<a + n]"
proof -
  assume "k < n"
  then have "[a..<a + n] = [a..<a + k] @ [a + k..<a + n]"
    using upt_add_eq_append [of a "a + k" "n - k"] by simp
  also have "[a + k..<a + n] = (a + k) # [Suc (a + k)..<a + n]"
    using \<open>k < n\<close> by (simp add: upt_conv_Cons)
  finally show ?thesis .
qed

text \<open>A string ends at its first nil byte, so a longer read gives the same string.\<close>

lemma read_cstr_prefix:
  assumes "m (a + k) = 0" "k < n"
  shows "read_cstr m a n = read_cstr m a (Suc k)"
proof -
  let ?P = "\<lambda>b :: byte. b \<noteq> 0"
  have "takeWhile ?P (map m [a..<a + n]) = takeWhile ?P (map m [a..<a + k])" if "k < n" for n
    by (subst upt_split [OF that]) (simp add: takeWhile_tail assms(1))
  from this [OF assms(2)] this [of "Suc k"] show ?thesis
    by (simp only: read_cstr_def lessI)
qed

lemma read_cstr_cong:
  assumes "\<And>x. a \<le> x \<Longrightarrow> x < a + n \<Longrightarrow> m x = m' x"
  shows "read_cstr m a n = read_cstr m' a n"
proof -
  have "map m [a..<a + n] = map m' [a..<a + n]"
    by (rule map_cong [OF refl]) (simp add: assms)
  then show ?thesis by (simp only: read_cstr_def)
qed

lemma read_cstr_memcpy:
  assumes "cstring s" and "m (a + length s) = 0" and "length s < n"
  shows "read_cstr (memcpy m a (map byte_of s)) a n = s"
proof -
  let ?m = "memcpy m a (map byte_of s)"
  have bytes: "map ?m [a..<a + length s] = map byte_of s"
    by (rule nth_equalityI) (simp_all add: memcpy_def)
  have nz: "\<And>b. b \<in> set (map byte_of s) \<Longrightarrow> b \<noteq> 0"
    using assms(1) by (auto simp: cstring_def)
  have "takeWhile (\<lambda>b. b \<noteq> 0) (map ?m [a..<a + Suc (length s)]) = map byte_of s"
  proof -
    have "map ?m [a..<a + Suc (length s)] = map byte_of s @ [0]"
      using assms(2) bytes by (simp add: memcpy_def)
    then show ?thesis
      by (simp only: takeWhile_append2 [OF nz]) simp
  qed
  then have "read_cstr ?m a (Suc (length s)) = s"
    by (simp only: read_cstr_def map_map comp_def char_of_byte_of list.map_ident)
  moreover have "?m (a + length s) = 0"
    using assms(2) by (simp add: memcpy_def)
  ultimately show ?thesis
    using read_cstr_prefix [of ?m a "length s" n] assms(3) by simp
qed

end
