(* ===== verification/Alloc.thy ===== *)
theory Alloc
  imports Region Mem
begin

text \<open>
  The allocator of \<^verbatim>\<open>src/alloc.c\<close>: blocks of 21 size classes inside a region. Each class has a
  list \<^verbatim>\<open>alloc\<close> to allocate from and a list \<^verbatim>\<open>free\<close> that \<open>alloc_free\<close> pushes on without
  a lock; both are linked through the first eight bytes of the free blocks themselves, so
  their links live in the byte memory of the region.

  \<open>heap\<close> is what the operations work on: the \<^verbatim>\<open>struct alloc\<close> of the region's header, the
  region as the process maps it, the bytes of the region past the header, and the operating
  system.
\<close>

section \<open>Definitions\<close>

definition alloc_min_len :: nat where "alloc_min_len = 8"
definition alloc_mid_inc :: nat where "alloc_mid_inc = 16"
definition alloc_mid_len :: nat where "alloc_mid_len = 256"
definition alloc_max_len :: nat where "alloc_max_len = 4096"
definition alloc_classes :: nat where "alloc_classes = 1 + 16 + 4"

lemmas alloc_config = alloc_min_len_def alloc_mid_inc_def alloc_mid_len_def alloc_max_len_def
  alloc_classes_def

record alloc_class =
  calloc :: off
  cfree :: off

record alloc =
  alock :: slock
  classes :: "alloc_class list"

record heap =
  al :: alloc
  rg :: region
  hm :: mem
  hos :: os

text \<open>The class and the rounded length; \<open>None\<close> is a failed assertion.\<close>

definition alloc_class_of :: "nat \<Rightarrow> (nat \<times> nat) option" where
  "alloc_class_of len =
     (if \<not> len \<le> alloc_max_len then None
      else if len \<le> alloc_min_len then Some (0, alloc_min_len)
      else if len \<le> alloc_mid_len then
        (let class = ceil_div len alloc_mid_inc in
         if class < alloc_classes then Some (class, umul class alloc_mid_inc) else None)
      else
        (let len' = unat (ceil_pow2 (of_nat len));
             bits = usub (ctz (of_nat len')) (ctz (of_nat alloc_mid_len));
             class = uadd bits (alloc_mid_len div alloc_mid_inc)
         in if class < alloc_classes then Some (class, len') else None))"

text \<open>
  The loop that links the nodes of a slab. Offsets are far below two to the 64 (the position
  of a region is at most the address space), so \<^verbatim>\<open>node += len\<close> does not wrap.
\<close>

function alloc_fill_loop :: "region \<Rightarrow> nat \<Rightarrow> off \<Rightarrow> mem \<Rightarrow> off \<Rightarrow> bool \<times> mem" where
  "alloc_fill_loop r len end m node =
     (if 0 < len \<and> node + len < end
      then (case region_ptr r node 8 of
              None \<Rightarrow> (False, m)
            | Some pnode \<Rightarrow> alloc_fill_loop r len end (store64 m pnode (node + len)) (node + len))
      else (True, m))"
  by pat_completeness auto
termination
  by (relation "measure (\<lambda>(r, len, end, m, node). end - node)") auto

declare alloc_fill_loop.simps [simp del]

definition alloc_fill_class :: "sys \<Rightarrow> heap \<Rightarrow> nat \<Rightarrow> nat \<Rightarrow> (off \<times> heap) option" where
  "alloc_fill_class sys h len class =
     (let slab = umul len (if len \<le> alloc_mid_len then 256 else 16) in
      case region_grow sys (hos h) (rg h) slab of
        None \<Rightarrow> None
      | Some (start, r, os) \<Rightarrow>
          (let h1 = h\<lparr>rg := r, hos := os\<rparr> in
           if start = 0 then Some (0, h1)
           else
             (let nodes = slab div len;
                  end = start + nodes * len
              in if \<not> nodes > 2 then None
                 else
                   (case alloc_fill_loop r len end (hm h1) (start + len) of
                      (False, m) \<Rightarrow> Some (0, h1\<lparr>hm := m\<rparr>)
                    | (True, m) \<Rightarrow>
                        (case region_ptr r (end - len) 8 of
                           None \<Rightarrow> Some (0, h1\<lparr>hm := m\<rparr>)
                         | Some plast \<Rightarrow>
                             (case slock_lock (alock (al h1)) of
                                None \<Rightarrow> None
                              | Some l \<Rightarrow>
                                  (let cs = classes (al h1);
                                       c = cs ! class;
                                       m' = store64 m plast (calloc c);
                                       cs' = cs[class := c\<lparr>calloc := start + len\<rparr>]
                                   in Some (start,
                                        h1\<lparr>hm := m', al := \<lparr>alock = slock_unlock l,
                                            classes = cs'\<rparr>\<rparr>))))))))"

definition alloc_init :: alloc where
  "alloc_init = \<lparr>alock = 0, classes = replicate alloc_classes \<lparr>calloc = 0, cfree = 0\<rparr>\<rparr>"

definition alloc_alloc :: "sys \<Rightarrow> heap \<Rightarrow> nat \<Rightarrow> (off \<times> heap) option" where
  "alloc_alloc sys h len0 =
     (case slock_lock (alock (al h)) of
        None \<Rightarrow> None
      | Some l \<Rightarrow>
          if \<not> len0 \<le> alloc_max_len then None
          else
            (case alloc_class_of len0 of
               None \<Rightarrow> None
             | Some (class, len) \<Rightarrow>
                 (let cs0 = classes (al h);
                      c0 = cs0 ! class;
                      c = (if calloc c0 = 0 then c0\<lparr>calloc := cfree c0, cfree := 0\<rparr> else c0);
                      unlocked = (\<lambda>c. \<lparr>alock = slock_unlock l, classes = cs0[class := c]\<rparr>);
                      off = calloc c
                  in if off = 0
                     then alloc_fill_class sys (h\<lparr>al := unlocked c\<rparr>) len class
                     else
                       (case region_ptr (rg h) off len of
                          None \<Rightarrow> Some (0, h\<lparr>al := unlocked c\<rparr>)
                        | Some pnode \<Rightarrow>
                            (let next = load64 (hm h) pnode in
                             if off = next then None
                             else Some (off, h\<lparr>al := unlocked (c\<lparr>calloc := next\<rparr>),
                                               hm := memset (hm h) pnode 0 len\<rparr>))))))"

text \<open>
  In one thread the compare-and-exchange of \<open>alloc_free\<close> succeeds (after any number of
  spurious failures, which store the same link again).
\<close>

definition alloc_free :: "heap \<Rightarrow> off \<Rightarrow> nat \<Rightarrow> heap option" where
  "alloc_free h off len0 =
     (if \<not> len0 \<le> alloc_max_len then None
      else
        (case alloc_class_of len0 of
           None \<Rightarrow> None
         | Some (class, len) \<Rightarrow>
             (case region_ptr (rg h) off len of
                None \<Rightarrow> Some h
              | Some pnode \<Rightarrow>
                  (let cs = classes (al h);
                       c = cs ! class;
                       m = store64 (memset (hm h) pnode 0xFF len) pnode (cfree c)
                   in Some (h\<lparr>hm := m,
                       al := (al h)\<lparr>classes := cs[class := c\<lparr>cfree := off\<rparr>]\<rparr>\<rparr>)))))"

section \<open>Size classes\<close>

text \<open>The block length of a class.\<close>

definition class_len :: "nat \<Rightarrow> nat" where
  "class_len c = (if c = 0 then 8 else if c \<le> 16 then 16 * c else 2 ^ (c - 8))"

lemma class_len_ge [simp]: "8 \<le> class_len c"
proof (cases "16 < c")
  case True
  then have "(2::nat) ^ 3 \<le> 2 ^ (c - 8)" by (intro power_increasing) auto
  then show ?thesis using True by (simp add: class_len_def)
qed (auto simp: class_len_def)

lemma class_len_pos [simp]: "0 < class_len c" "class_len c \<noteq> 0"
  using class_len_ge [of c] by linarith+

lemma less_class_len: "y < x + 8 \<Longrightarrow> y < x + class_len c"
  by (rule less_le_trans [of _ "x + 8"]) simp_all

lemma class_len_le: "c < 21 \<Longrightarrow> class_len c \<le> 4096"
proof (cases "16 < c")
  case True
  assume "c < 21"
  then have "(2::nat) ^ (c - 8) \<le> 2 ^ 12" by (intro power_increasing) auto
  then show ?thesis using True by (simp add: class_len_def)
qed (auto simp: class_len_def)

lemma class_len_mono: "c' < c \<Longrightarrow> c < 21 \<Longrightarrow> class_len c' < class_len c"
proof -
  assume c: "c' < c" "c < 21"
  show ?thesis
  proof (cases "c \<le> 16")
    case False
    then have "(2::nat) ^ 9 \<le> 2 ^ (c - 8)" by (intro power_increasing) auto
    moreover have "\<not> c' \<le> 16 \<Longrightarrow> (2::nat) ^ (c' - 8) < 2 ^ (c - 8)"
      using c by (intro power_strict_increasing) auto
    ultimately show ?thesis using False by (auto simp: class_len_def)
  qed (use c in \<open>auto simp: class_len_def\<close>)
qed

lemma ctz_push_bit: "k < 64 \<Longrightarrow> ctz (push_bit k 1) = k"
  by (rule ctz_eqI) (auto simp: bit_simps)

lemma alloc_class_of_big:
  assumes "256 < len" "len \<le> 4096"
  obtains k where "8 \<le> k" "k < 12" "2 ^ k < len" "len \<le> 2 ^ Suc k"
    "alloc_class_of len = Some (k + 9, 2 ^ Suc k)"
proof -
  let ?x = "of_nat len :: u64"
  have x: "unat ?x = len" using assms by (simp add: unat_of_nat)
  obtain k where k: "k < 63" "ceil_pow2 ?x = push_bit (Suc k) 1" "2 ^ k < len" "len \<le> 2 ^ Suc k"
    using ceil_pow2_eq [of ?x] x assms by auto
  have "(2::nat) ^ k < 2 ^ 12" "(2::nat) ^ 8 < 2 ^ Suc k"
    using k(3,4) assms by simp_all
  then have b: "k < 12" "8 < Suc k"
    by (simp_all only: power_strict_increasing_iff one_less_numeral_iff semiring_norm)
  have u: "unat (2 ^ Suc k :: u64) = 2 ^ Suc k"
    using unat_2_power [of "Suc k"] b(1) by simp
  have p: "push_bit (Suc k) 1 = (2 ^ Suc k :: u64)" by simp
  have c: "ctz (2 ^ Suc k) = Suc k"
    using ctz_push_bit [of "Suc k"] b(1) p by simp
  have "ctz 256 = 8" using ctz_push_bit [of 8] by simp
  then have "alloc_class_of len = Some (k + 9, 2 ^ Suc k)"
    using assms b
    by (simp add: alloc_class_of_def alloc_config Let_def k(2) p u c wrap_simps del: power_Suc)
  with that b k show thesis by simp
qed

lemma alloc_class_of_ex:
  assumes "len \<le> 4096"
  shows "\<exists>c < 21. alloc_class_of len = Some (c, class_len c) \<and> len \<le> class_len c \<and>
     (\<forall>c' < c. class_len c' < len)"
proof -
  consider "len \<le> 8" | "8 < len" "len \<le> 256" | "256 < len" by linarith
  then show ?thesis
  proof cases
    case 1
    then show ?thesis
      by (intro exI [of _ 0]) (simp add: alloc_class_of_def alloc_config class_len_def)
  next
    case 2
    let ?c = "ceil_div len 16"
    have b: "len \<le> ?c * 16" "?c * 16 < len + 16"
      using ceil_div_bounds [of 16 len] 2 by simp_all
    then have "alloc_class_of len = Some (?c, class_len ?c)"
      using 2 by (simp add: alloc_class_of_def alloc_config class_len_def Let_def wrap_simps)
    then show ?thesis
      using b 2 by (intro exI [of _ ?c]) (auto simp: class_len_def)
  next
    case 3
    obtain k where k: "8 \<le> k" "k < 12" "2 ^ k < len" "len \<le> 2 ^ Suc k"
        "alloc_class_of len = Some (k + 9, 2 ^ Suc k)"
      using alloc_class_of_big [OF 3 assms] .
    have e: "class_len (k + 9) = 2 ^ Suc k" using k(1) by (simp add: class_len_def)
    have "class_len (k + 8) \<le> 2 ^ k" using k(1,2) by (auto simp: class_len_def)
    then have "class_len c' < len" if "c' < k + 9" for c'
      using that k(2,3) class_len_mono [of c' "k + 8"] by (cases "c' = k + 8") auto
    then show ?thesis
      using k e by (intro exI [of _ "k + 9"]) (simp del: power_Suc)
  qed
qed

text \<open>
  Size classes. Every length up to 4096 has a class, no assertion fails, and it is the
  smallest class whose blocks hold the length; the rounded length is the length of that
  class's blocks.
\<close>

theorem alloc_class_of_least:
  assumes "len \<le> 4096"
  shows "\<exists>c < 21. alloc_class_of len = Some (c, class_len c) \<and> len \<le> class_len c \<and>
     (\<forall>c' < c. class_len c' < len)"
  using assms by (rule alloc_class_of_ex)

theorem alloc_class_of_least_witness:
  "\<exists>c < 21. alloc_class_of 1000 = Some (c, class_len c) \<and> 1000 \<le> class_len c \<and>
     (\<forall>c' < c. class_len c' < 1000)"
  by (rule alloc_class_of_least) simp

section \<open>Lists of free blocks\<close>

text \<open>The links from \<open>p\<close> run through the nodes \<open>xs\<close> to \<open>q\<close>.\<close>

fun lseg :: "mem \<Rightarrow> off \<Rightarrow> off list \<Rightarrow> off \<Rightarrow> bool" where
  "lseg m p [] q \<longleftrightarrow> p = q"
| "lseg m p (x # xs) q \<longleftrightarrow> p = x \<and> x \<noteq> 0 \<and> lseg m (load64 m x) xs q"

abbreviation chain :: "mem \<Rightarrow> off \<Rightarrow> off list \<Rightarrow> bool" where
  "chain m p xs \<equiv> lseg m p xs 0"

lemma lseg_frame:
  assumes "lseg m p xs q" "\<And>x y. x \<in> set xs \<Longrightarrow> x \<le> y \<Longrightarrow> y < x + 8 \<Longrightarrow> m' y = m y"
  shows "lseg m' p xs q"
  using assms
proof (induction xs arbitrary: p)
  case (Cons x xs)
  have "load64 m' x = load64 m x"
    by (rule load_cong) (rule Cons.prems(2) [of x], simp_all)
  then show ?case using Cons by auto
qed simp

lemma chain_head: "chain m p xs \<Longrightarrow> p = 0 \<longleftrightarrow> xs = []"
  by (cases xs) auto

text \<open>The nodes of a slab, and the loop that links them.\<close>

fun slab_nodes :: "off \<Rightarrow> nat \<Rightarrow> nat \<Rightarrow> off list" where
  "slab_nodes a len 0 = []"
| "slab_nodes a len (Suc k) = a # slab_nodes (a + len) len k"

lemma slab_nodes_bounds: "x \<in> set (slab_nodes a len k) \<Longrightarrow> a \<le> x \<and> x + len \<le> a + k * len"
  by (induction k arbitrary: a) fastforce+

lemma alloc_fill_loop_links:
  assumes "8 \<le> len" "0 < node" "end = node + Suc k * len" "end \<le> pos r" "min_pos r \<le> node"
    "pos r < 18446744073709551616"
  shows "\<exists>m'. alloc_fill_loop r len end m node = (True, m') \<and>
     (\<forall>y. y < node \<or> end \<le> y \<longrightarrow> m' y = m y) \<and>
     (\<forall>v < 18446744073709551616. lseg (store64 m' (end - len) v) node (slab_nodes node len (Suc k)) v)"
  using assms
proof (induction k arbitrary: m node)
  case 0
  then have "alloc_fill_loop r len end m node = (True, m)"
    by (subst alloc_fill_loop.simps) simp
  then show ?case using 0 by auto
next
  case (Suc k)
  let ?m1 = "store64 m node (node + len)"
  have p: "region_ptr r node 8 = Some node"
    using Suc.prems by (intro region_ptr_SomeI) simp_all
  obtain m' where m': "alloc_fill_loop r len end ?m1 (node + len) = (True, m')"
      "\<forall>y. y < node + len \<or> end \<le> y \<longrightarrow> m' y = ?m1 y"
      "\<forall>v < 18446744073709551616.
         lseg (store64 m' (end - len) v) (node + len) (slab_nodes (node + len) len (Suc k)) v"
    using Suc.IH [of "node + len" ?m1] Suc.prems by auto
  have "alloc_fill_loop r len end m node = (True, m')"
    using p m'(1) Suc.prems by (subst alloc_fill_loop.simps) simp
  moreover have "\<forall>y. y < node \<or> end \<le> y \<longrightarrow> m' y = m y"
    using m'(2) Suc.prems by (auto simp: store_frame)
  moreover have "load64 (store64 m' (end - len) v) node = node + len" for v
  proof -
    have "load64 (store64 m' (end - len) v) node = load64 ?m1 node"
      using m'(2) Suc.prems by (intro load_cong) (auto simp: store_frame)
    then show ?thesis using Suc.prems by simp
  qed
  ultimately show ?case using m'(3) Suc.prems(2) by simp
qed

section \<open>Blocks\<close>

text \<open>A block is its offset and its class.\<close>

definition block_bytes :: "off \<times> nat \<Rightarrow> nat set" where
  "block_bytes b = {fst b..<fst b + class_len (snd b)}"

definition blocks_ok :: "nat \<Rightarrow> nat \<Rightarrow> (off \<times> nat) set \<Rightarrow> bool" where
  "blocks_ok lo hi B \<longleftrightarrow>
     (\<forall>b \<in> B. 0 < fst b \<and> snd b < 21 \<and> lo \<le> fst b \<and> fst b + class_len (snd b) \<le> hi) \<and>
     pairwise (\<lambda>b b'. disjnt (block_bytes b) (block_bytes b')) B"

lemma blocks_okD:
  assumes "blocks_ok lo hi B" "(x, c) \<in> B"
  shows "0 < x" "c < 21" "lo \<le> x" "x + class_len c \<le> hi"
  using assms by (auto simp: blocks_ok_def)

lemma blocks_ok_subset: "blocks_ok lo hi B \<Longrightarrow> B' \<subseteq> B \<Longrightarrow> blocks_ok lo hi B'"
  by (auto simp: blocks_ok_def intro: pairwise_subset)

lemma blocks_ok_apart:
  assumes "blocks_ok lo hi B" "(x, c) \<in> B" "(x', c') \<in> B" "(x, c) \<noteq> (x', c')"
    "x \<le> y" "y < x + class_len c"
  shows "y < x' \<or> x' + class_len c' \<le> y"
proof -
  have "disjnt (block_bytes (x, c)) (block_bytes (x', c'))"
    using assms by (auto simp: blocks_ok_def dest: pairwiseD)
  then show ?thesis
    using assms(5,6) by (auto simp: disjnt_def block_bytes_def)
qed

lemma blocks_ok_join:
  assumes "blocks_ok lo mid B" "blocks_ok mid hi B'" "lo \<le> mid" "mid \<le> hi"
  shows "blocks_ok lo hi (B \<union> B')"
proof -
  have apart: "disjnt (block_bytes b) (block_bytes b')" if "b \<in> B" "b' \<in> B'" for b b'
    using that assms(1,2) by (fastforce simp: blocks_ok_def block_bytes_def disjnt_def)
  then have "pairwise (\<lambda>b b'. disjnt (block_bytes b) (block_bytes b')) (B \<union> B')"
    using assms(1,2) unfolding blocks_ok_def pairwise_def by (blast dest: disjnt_sym)
  moreover have "\<forall>b \<in> B \<union> B'. 0 < fst b \<and> snd b < 21 \<and> lo \<le> fst b \<and> fst b + class_len (snd b) \<le> hi"
    using assms by (fastforce simp: blocks_ok_def)
  ultimately show ?thesis by (simp add: blocks_ok_def)
qed

lemma blocks_ok_single: "0 < a \<Longrightarrow> c < 21 \<Longrightarrow> blocks_ok a (a + class_len c) {(a, c)}"
  by (simp add: blocks_ok_def)

lemma slab_blocks_ok:
  "0 < a \<Longrightarrow> c < 21 \<Longrightarrow>
     blocks_ok a (a + k * class_len c) ((\<lambda>x. (x, c)) ` set (slab_nodes a (class_len c) k))"
proof (induction k arbitrary: a)
  case 0
  then show ?case by (simp add: blocks_ok_def)
next
  case (Suc k)
  have "blocks_ok a (a + class_len c + k * class_len c) ({(a, c)} \<union>
      (\<lambda>x. (x, c)) ` set (slab_nodes (a + class_len c) (class_len c) k))"
    using Suc by (intro blocks_ok_join [OF blocks_ok_single]) auto
  then show ?case by (simp add: add.assoc)
qed

lemma slab_nodes_distinct: "0 < len \<Longrightarrow> distinct (slab_nodes a len k)"
  by (induction k arbitrary: a) (fastforce dest: slab_nodes_bounds)+

section \<open>The invariant\<close>

text \<open>
  \<open>free_rel a m lo hi A F L\<close>: the allocator \<open>a\<close> over the bytes \<open>m\<close> keeps in class \<open>c\<close> the
  blocks \<open>A c\<close> on its \<^verbatim>\<open>alloc\<close> list and \<open>F c\<close> on its \<^verbatim>\<open>free\<close> list; these and the live blocks
  \<open>L\<close> are all different, lie between \<open>lo\<close> and \<open>hi\<close> and do not overlap.
\<close>

definition free_blocks :: "(nat \<Rightarrow> off list) \<Rightarrow> (nat \<Rightarrow> off list) \<Rightarrow> (off \<times> nat) set" where
  "free_blocks A F = {(x, c). c < 21 \<and> x \<in> set (A c) \<union> set (F c)}"

definition free_rel :: "alloc \<Rightarrow> mem \<Rightarrow> nat \<Rightarrow> nat \<Rightarrow> (nat \<Rightarrow> off list) \<Rightarrow> (nat \<Rightarrow> off list) \<Rightarrow>
    (off \<times> nat) set \<Rightarrow> bool" where
  "free_rel a m lo hi A F L \<longleftrightarrow> length (classes a) = 21 \<and>
     (\<forall>c < 21. chain m (calloc (classes a ! c)) (A c) \<and> chain m (cfree (classes a ! c)) (F c) \<and>
        distinct (A c @ F c)) \<and>
     free_blocks A F \<inter> L = {} \<and> blocks_ok lo hi (free_blocks A F \<union> L)"

text \<open>
  The bytes past the position are those of a file extended by \<^verbatim>\<open>ftruncate\<close>: zero.
\<close>

definition heap_rel :: "heap \<Rightarrow> (nat \<Rightarrow> off list) \<Rightarrow> (nat \<Rightarrow> off list) \<Rightarrow> (off \<times> nat) set \<Rightarrow> bool" where
  "heap_rel h A F L \<longleftrightarrow> alock (al h) = 0 \<and> region_inv (hos h) (rg h) \<and> owned (rg h) \<and> 0 < pos (rg h) \<and>
     free_rel (al h) (hm h) (min_pos (rg h)) (pos (rg h)) A F L \<and> (\<forall>y \<ge> pos (rg h). hm h y = 0)"

definition heap_inv :: "heap \<Rightarrow> (off \<times> nat) set \<Rightarrow> bool" where
  "heap_inv h L \<longleftrightarrow> (\<exists>A F. heap_rel h A F L)"

lemma free_relD:
  assumes "free_rel a m lo hi A F L"
  shows "length (classes a) = 21" "blocks_ok lo hi (free_blocks A F \<union> L)" "free_blocks A F \<inter> L = {}"
    and "c < 21 \<Longrightarrow> chain m (calloc (classes a ! c)) (A c)"
    and "c < 21 \<Longrightarrow> chain m (cfree (classes a ! c)) (F c)"
    and "c < 21 \<Longrightarrow> distinct (A c @ F c)"
  using assms by (simp_all add: free_rel_def)

text \<open>The links of the free blocks survive a change inside one block.\<close>

lemma blocks_ok_lseg:
  assumes "blocks_ok lo hi B" "b \<in> B" "\<And>x. x \<in> set xs \<Longrightarrow> (x, c) \<in> B - {b}"
    and "\<And>y. y \<notin> block_bytes b \<Longrightarrow> m' y = m y" "lseg m p xs q"
  shows "lseg m' p xs q"
proof (rule lseg_frame [OF assms(5)])
  fix x y assume x: "x \<in> set xs" "x \<le> y" "y < x + 8"
  then have "y < fst b \<or> fst b + class_len (snd b) \<le> y"
    using blocks_ok_apart [OF assms(1), of x c "fst b" "snd b" y] assms(2) assms(3) [OF x(1)]
      class_len_ge [of c] by auto
  then show "m' y = m y" using assms(4) by (auto simp: block_bytes_def)
qed

lemma free_rel_frame:
  assumes "free_rel a m lo hi A F L" "b \<in> L" "\<And>y. y \<notin> block_bytes b \<Longrightarrow> m' y = m y"
  shows "free_rel a m' lo hi A F L"
proof -
  note D = free_relD [OF assms(1)]
  have "lseg m' p xs 0" if "lseg m p xs 0" "c < 21" "set xs \<subseteq> set (A c) \<union> set (F c)" for p xs c
    by (rule blocks_ok_lseg [OF D(2) _ _ assms(3) that(1), where b = b and c = c])
      (use D(3) assms(2) that(2,3) in \<open>auto simp: free_blocks_def\<close>)
  then show ?thesis
    using assms(1) by (auto simp: free_rel_def)
qed

text \<open>The four ways in which the operations move blocks between the lists.\<close>

definition set_class :: "alloc \<Rightarrow> nat \<Rightarrow> alloc_class \<Rightarrow> alloc" where
  "set_class a c v = a\<lparr>classes := (classes a)[c := v]\<rparr>"

lemma free_rel_drain:
  assumes "free_rel a m lo hi A F L" "c < 21" "A c = []"
  shows "free_rel (set_class a c ((classes a ! c)\<lparr>calloc := cfree (classes a ! c), cfree := 0\<rparr>))
     m lo hi (A(c := F c)) (F(c := [])) L"
proof -
  have "free_blocks (A(c := F c)) (F(c := [])) = free_blocks A F"
    using assms(3) by (auto simp: free_blocks_def split: if_splits)
  then show ?thesis
    using assms by (auto simp: free_rel_def set_class_def nth_list_update)
qed

lemma free_rel_pop:
  assumes "free_rel a m lo hi A F L" "c < 21" "A c = x # xs"
  shows "free_rel (set_class a c ((classes a ! c)\<lparr>calloc := load64 m x\<rparr>))
     m lo hi (A(c := xs)) F (insert (x, c) L)"
proof -
  note D = free_relD [OF assms(1)]
  have "free_blocks A F = insert (x, c) (free_blocks (A(c := xs)) F)"
    using assms(2,3) by (auto simp: free_blocks_def split: if_splits)
  moreover have "(x, c) \<notin> free_blocks (A(c := xs)) F"
    using D(6) [OF assms(2)] assms(3) by (auto simp: free_blocks_def)
  ultimately show ?thesis
    using assms D(2,3) D(4-6) [of c]
    by (auto simp: free_rel_def set_class_def nth_list_update)
qed

lemma free_rel_push:
  assumes "free_rel a m lo hi A F L" "(x, c) \<in> L" "load64 m x = cfree (classes a ! c)"
  shows "free_rel (set_class a c ((classes a ! c)\<lparr>cfree := x\<rparr>))
     m lo hi A (F(c := x # F c)) (L - {(x, c)})"
proof -
  note D = free_relD [OF assms(1)]
  have x: "0 < x" "c < 21" using blocks_okD [OF D(2)] assms(2) by auto
  have "free_blocks A (F(c := x # F c)) = insert (x, c) (free_blocks A F)"
    using x by (auto simp: free_blocks_def split: if_splits)
  moreover have "x \<notin> set (A c) \<union> set (F c)"
    using D(3) assms(2) x(2) by (auto simp: free_blocks_def)
  moreover have "insert (x, c) (free_blocks A F \<union> (L - {(x, c)})) = free_blocks A F \<union> L"
    using assms(2) by auto
  ultimately show ?thesis
    using assms x D(2,3) by (auto simp: free_rel_def set_class_def nth_list_update)
qed

lemma free_rel_fill:
  assumes "free_rel a m lo hi A F L" "c < 21" "A c = []" "0 < hi" "lo \<le> hi"
    and "\<And>y. y < hi \<Longrightarrow> m' y = m y"
    and "chain m' (hi + class_len c) (slab_nodes (hi + class_len c) (class_len c) k)"
  shows "free_rel (set_class a c ((classes a ! c)\<lparr>calloc := hi + class_len c\<rparr>)) m' lo
     (hi + Suc k * class_len c) (A(c := slab_nodes (hi + class_len c) (class_len c) k)) F
     (insert (hi, c) L)"
proof -
  let ?xs = "slab_nodes (hi + class_len c) (class_len c) k"
  note D = free_relD [OF assms(1)]
  have low: "x + class_len c' \<le> hi" if "(x, c') \<in> free_blocks A F \<union> L" for x c'
    using blocks_okD(4) [OF D(2) that] .
  have keep: "lseg m' p xs 0" if "lseg m p xs 0" "c' < 21" "set xs \<subseteq> set (A c') \<union> set (F c')" for p xs c'
  proof (rule lseg_frame [OF that(1)])
    fix x y assume "x \<in> set xs" "x \<le> y" "y < x + 8"
    then have "(x, c') \<in> free_blocks A F \<union> L" "y < x + class_len c'"
      using that(2,3) by (auto simp: free_blocks_def intro: less_class_len)
    then have "y < hi" using low [of x c'] by linarith
    then show "m' y = m y" by (rule assms(6))
  qed
  have new: "(x, c) \<notin> free_blocks A F \<union> L" if "hi \<le> x" for x
    using low [of x c] that class_len_ge [of c] by auto
  have fb: "free_blocks (A(c := ?xs)) F = (\<lambda>x. (x, c)) ` set ?xs \<union> free_blocks A F"
    using assms(2,3) by (auto simp: free_blocks_def split: if_splits)
  have xs: "hi + class_len c \<le> x" if "x \<in> set ?xs" for x
    using slab_nodes_bounds [OF that] by simp
  have eq: "free_blocks (A(c := ?xs)) F \<union> insert (hi, c) L =
      (free_blocks A F \<union> L) \<union> (\<lambda>x. (x, c)) ` set (slab_nodes hi (class_len c) (Suc k))"
    by (auto simp: fb)
  have "blocks_ok lo (hi + Suc k * class_len c) (free_blocks (A(c := ?xs)) F \<union> insert (hi, c) L)"
    unfolding eq using assms(2,4,5) by (intro blocks_ok_join [OF D(2) slab_blocks_ok]) auto
  moreover have "free_blocks (A(c := ?xs)) F \<inter> insert (hi, c) L = {}"
  proof -
    have "hi \<notin> set ?xs" using xs [of hi] by fastforce
    moreover have "(x, c) \<notin> L" if "x \<in> set ?xs" for x
      using new [of x] xs [OF that] by auto
    moreover have "(hi, c) \<notin> free_blocks A F" using new [of hi] by auto
    ultimately show ?thesis using D(3) by (auto simp: fb)
  qed
  moreover have "distinct (?xs @ F c)"
  proof -
    have "x \<notin> set (F c)" if "x \<in> set ?xs" for x
      using new [of x] xs [OF that] assms(2) by (auto simp: free_blocks_def)
    then show ?thesis
      using slab_nodes_distinct [of "class_len c"] D(6) [OF assms(2)] by auto
  qed
  ultimately show ?thesis
    using assms(1-3,7) D(4-6) keep by (auto simp: free_rel_def set_class_def nth_list_update)
qed

section \<open>The operations keep the invariant\<close>

lemma set_class_twice [simp]: "set_class (set_class a c v) c w = set_class a c w"
  by (simp add: set_class_def)

lemma classes_set_class [simp]: "c < length (classes a) \<Longrightarrow> classes (set_class a c v) ! c = v"
  by (simp add: set_class_def)

lemma set_class_simps:
  "alock (set_class a c v) = alock a"
  "\<lparr>alock = alock a, classes = (classes a)[c := v]\<rparr> = set_class a c v"
  "a\<lparr>classes := (classes a)[c := v]\<rparr> = set_class a c v"
  "alock a = 0 \<Longrightarrow> \<lparr>alock = 0, classes = (classes a)[c := v]\<rparr> = set_class a c v"
  by (cases a, simp add: set_class_def)+

lemma free_rel_heads:
  assumes "free_rel a m lo hi A F L" "c < 21"
  shows "calloc (classes a ! c) \<le> hi" "cfree (classes a ! c) \<le> hi"
proof -
  note D = free_relD [OF assms(1)]
  have "x \<le> hi" if "x \<in> set (A c) \<union> set (F c)" for x
    using blocks_okD(4) [OF D(2), of x c] that assms(2) by (auto simp: free_blocks_def)
  then show "calloc (classes a ! c) \<le> hi" "cfree (classes a ! c) \<le> hi"
    using D(4,5) [OF assms(2)] by (cases "A c"; cases "F c"; auto)+
qed

lemma alloc_free_frees:
  assumes "free_rel (al h) (hm h) lo hi A F L" "alloc_class_of len = Some (c, class_len c)"
    and "(x, c) \<in> L" "region_ptr (rg h) x (class_len c) = Some x" "len \<le> 4096"
    and "hi < 18446744073709551616"
  obtains h' where "alloc_free h x len = Some h'"
    "free_rel (al h') (hm h') lo hi A (F(c := x # F c)) (L - {(x, c)})"
    "rg h' = rg h" "hos h' = hos h" "alock (al h') = alock (al h)"
    "\<And>y. y \<notin> block_bytes (x, c) \<Longrightarrow> hm h' y = hm h y"
proof -
  let ?m = "store64 (memset (hm h) x 0xFF (class_len c)) x (cfree (classes (al h) ! c))"
  let ?a = "set_class (al h) c ((classes (al h) ! c)\<lparr>cfree := x\<rparr>)"
  have frame: "?m y = hm h y" if "y \<notin> block_bytes (x, c)" for y
  proof -
    have out: "y < x \<or> x + class_len c \<le> y" using that by (auto simp: block_bytes_def)
    then have "y < x \<or> x + 8 \<le> y" using class_len_ge [of c] by linarith
    with out show ?thesis by (auto simp: store_frame memset_def)
  qed
  have c: "c < 21" using blocks_okD(2) [OF free_relD(2) [OF assms(1)]] assms(3) by blast
  have "cfree (classes (al h) ! c) < 18446744073709551616"
    using free_rel_heads(2) [OF assms(1) c] assms(6) by simp
  then have "free_rel ?a ?m lo hi A (F(c := x # F c)) (L - {(x, c)})"
    using assms(3) by (intro free_rel_push free_rel_frame [OF assms(1,3) frame]) simp_all
  moreover have "alloc_free h x len = Some (h\<lparr>hm := ?m, al := ?a\<rparr>)"
    using assms(2,4,5) by (simp add: alloc_free_def alloc_config Let_def set_class_simps)
  ultimately show thesis
    using frame by (intro that [of "h\<lparr>hm := ?m, al := ?a\<rparr>"]) (simp_all add: set_class_simps)
qed

lemma slab_len:
  assumes "c < 21"
  obtains k where "umul (class_len c) (if class_len c \<le> alloc_mid_len then 256 else 16) =
      Suc (Suc k) * class_len c" "0 < k" "Suc (Suc k) * class_len c \<le> 65536"
proof (cases "class_len c \<le> 256")
  case True
  then show thesis
    by (intro that [of 254]) (simp_all add: alloc_config umul_small)
next
  case False
  then show thesis
    using class_len_le [OF assms] by (intro that [of 14]) (simp_all add: alloc_config umul_small)
qed

lemma heap_relD:
  assumes "heap_rel h A F L"
  shows "alock (al h) = 0" "region_inv (hos h) (rg h)" "owned (rg h)" "0 < pos (rg h)"
    "free_rel (al h) (hm h) (min_pos (rg h)) (pos (rg h)) A F L"
    and "pos (rg h) \<le> y \<Longrightarrow> hm h y = 0"
    and "min_pos (rg h) \<le> pos (rg h)" "pos (rg h) < 18446744073709551616"
  using assms by (auto simp: heap_rel_def region_inv_def)

lemma alloc_fill_class_cases:
  assumes "heap_rel h A F L" "c < 21" "A c = []" "sys_amd64 sys"
  obtains
    (fail) h' where "alloc_fill_class sys h (class_len c) c = Some (0, h')" "heap_rel h' A F L"
      "hm h' = hm h" "rg h' = rg h" "vma_len (rg h) < pos (rg h) + 65536"
  | (ok) h' A' where "alloc_fill_class sys h (class_len c) c = Some (pos (rg h), h')"
      "heap_rel h' A' F (insert (pos (rg h), c) L)"
      "\<And>y. y < pos (rg h) + class_len c \<Longrightarrow> hm h' y = hm h y"
      "pos (rg h) \<le> pos (rg h')" "min_pos (rg h') = min_pos (rg h)"
proof -
  note H = heap_relD [OF assms(1)]
  obtain k where slab: "umul (class_len c) (if class_len c \<le> alloc_mid_len then 256 else 16) =
      Suc (Suc k) * class_len c" "0 < k" "Suc (Suc k) * class_len c \<le> 65536"
    using slab_len [OF assms(2)] .
  let ?slab = "Suc (Suc k) * class_len c"
  have len: "?slab \<le> 140737488355328" using slab(3) by simp
  have nodes: "?slab div class_len c = Suc (Suc k)"
    by (rule nonzero_mult_div_cancel_right) simp
  from H(2,3) assms(4) len show thesis
  proof (cases rule: region_grow_cases [where sys = sys])
    case (fail r' os')
    then show thesis
      using assms(1) H slab(3) by (intro that(1) [of "h\<lparr>rg := rg h, hos := os'\<rparr>"])
        (simp_all add: alloc_fill_class_def slab(1) heap_rel_def del: mult_Suc)
  next
    case (grown r' os')
    let ?s = "pos (rg h)"
    let ?e = "?s + ?slab"
    have end_eq: "?e = ?s + class_len c + Suc k * class_len c" by simp
    have r': "pos r' < 18446744073709551616" using grown(2) by (auto simp: region_inv_def)
    obtain m1 where m1: "alloc_fill_loop r' (class_len c) ?e (hm h) (?s + class_len c) = (True, m1)"
        "\<forall>y. y < ?s + class_len c \<or> ?e \<le> y \<longrightarrow> m1 y = hm h y"
        "\<forall>v < 18446744073709551616. lseg (store64 m1 (?e - class_len c) v) (?s + class_len c)
           (slab_nodes (?s + class_len c) (class_len c) (Suc k)) v"
      using alloc_fill_loop_links [OF class_len_ge _ end_eq, of r' "hm h"] H(4,7) grown(3,4) r'
      by auto
    have head: "calloc (classes (al h) ! c) = 0"
      using chain_head [OF free_relD(4) [OF H(5) assms(2)]] assms(3) by simp
    let ?m = "store64 m1 (?e - class_len c) 0"
    let ?a = "set_class (al h) c ((classes (al h) ! c)\<lparr>calloc := ?s + class_len c\<rparr>)"
    let ?h = "h\<lparr>rg := r', hos := os', hm := ?m, al := ?a\<rparr>"
    have p: "region_ptr r' (?e - class_len c) 8 = Some (?e - class_len c)"
      using H(7) grown(3,4) r' class_len_ge [of c] by (intro region_ptr_SomeI) simp_all
    have eq: "alloc_fill_class sys h (class_len c) c = Some (?s, ?h)"
      using grown(1) H(1,4) m1(1) slab(2) p head
      by (simp add: alloc_fill_class_def slab(1) nodes set_class_simps Let_def del: mult_Suc)
    have last: "?s + class_len c \<le> ?e - class_len c" "?e - class_len c + 8 \<le> ?e"
      using class_len_ge [of c] by simp_all
    have below: "?m y = hm h y" if "y < ?s + class_len c \<or> ?e \<le> y" for y
    proof -
      have "y < ?e - class_len c \<or> ?e - class_len c + 8 \<le> y" using that last by linarith
      then have "?m y = m1 y" by (rule store_frame)
      then show ?thesis using m1(2) that by metis
    qed
    have "free_rel ?a ?m (min_pos (rg h)) ?e (A(c := slab_nodes (?s + class_len c) (class_len c) (Suc k))) F
        (insert (?s, c) L)"
      using free_rel_fill [OF H(5) assms(2,3) H(4,7), of ?m "Suc k"] below m1(3) by simp
    then have "heap_rel ?h (A(c := slab_nodes (?s + class_len c) (class_len c) (Suc k))) F (insert (?s, c) L)"
      using grown H below by (simp add: heap_rel_def set_class_simps)
    then show thesis
      using eq below grown by (intro that(2) [of ?h]) simp_all
  qed
qed

text \<open>
  \<open>alloc_alloc\<close> first drains the \<^verbatim>\<open>free\<close> list into an empty \<^verbatim>\<open>alloc\<close> list.
\<close>

definition alloc_take :: "sys \<Rightarrow> heap \<Rightarrow> alloc \<Rightarrow> nat \<Rightarrow> (off \<times> heap) option" where
  "alloc_take sys h a1 c = (let x = calloc (classes a1 ! c) in
       if x = 0 then alloc_fill_class sys (h\<lparr>al := a1\<rparr>) (class_len c) c
       else case region_ptr (rg h) x (class_len c) of
         None \<Rightarrow> Some (0, h\<lparr>al := a1\<rparr>)
       | Some p \<Rightarrow> if x = load64 (hm h) p then None
           else Some (x, h\<lparr>al := set_class a1 c ((classes a1 ! c)\<lparr>calloc := load64 (hm h) p\<rparr>),
                           hm := memset (hm h) p 0 (class_len c)\<rparr>))"

lemma alloc_alloc_drained:
  assumes "heap_rel h A F L" "len \<le> 4096" "alloc_class_of len = Some (c, class_len c)" "c < 21"
  obtains a1 A1 F1 where "heap_rel (h\<lparr>al := a1\<rparr>) A1 F1 L" "A1 c = [] \<longleftrightarrow> A c = [] \<and> F c = []"
    "alloc_alloc sys h len = alloc_take sys h a1 c"
proof -
  note H = heap_relD [OF assms(1)]
  let ?c0 = "classes (al h) ! c"
  define a1 where "a1 = (if calloc ?c0 = 0
    then set_class (al h) c (?c0\<lparr>calloc := cfree ?c0, cfree := 0\<rparr>) else al h)"
  obtain A1 F1 where r1: "free_rel a1 (hm h) (min_pos (rg h)) (pos (rg h)) A1 F1 L"
      "A1 c = [] \<longleftrightarrow> A c = [] \<and> F c = []"
    using H(5) free_rel_drain [OF H(5) assms(4)] chain_head [OF free_relD(4) [OF H(5) assms(4)]]
    by (cases "calloc ?c0 = 0") (auto simp: a1_def)
  have "alock a1 = 0" using H(1) by (simp add: a1_def set_class_simps)
  then have h1: "heap_rel (h\<lparr>al := a1\<rparr>) A1 F1 L"
    using assms(1) r1(1) by (simp add: heap_rel_def)
  have "c < length (classes (al h))" using free_relD(1) [OF H(5)] assms(4) by simp
  then have c1: "classes a1 ! c = (if calloc ?c0 = 0 then ?c0\<lparr>calloc := cfree ?c0, cfree := 0\<rparr> else ?c0)"
    by (simp add: a1_def)
  have a1': "\<lparr>alock = 0, classes = (classes (al h))[c := v]\<rparr> = set_class a1 c v" for v
    using H(1) by (simp add: a1_def set_class_simps)
  have self: "set_class a1 c (classes a1 ! c) = a1" by (simp add: set_class_def)
  show thesis
  proof (rule that [OF h1 r1(2)], cases "calloc ?c0 = 0")
    case True
    then have s1: "set_class a1 c (?c0\<lparr>calloc := cfree ?c0, cfree := 0\<rparr>) = a1" using self c1 by simp
    then have "cfree ?c0 = 0 \<Longrightarrow> set_class a1 c (?c0\<lparr>calloc := 0, cfree := 0\<rparr>) = a1" by metis
    with s1 show "alloc_alloc sys h len = alloc_take sys h a1 c"
      using assms(2,3) H(1) True
      by (simp add: alloc_alloc_def alloc_take_def alloc_config Let_def c1 a1' split: option.split)
  next
    case False
    then have "a1 = al h" by (simp add: a1_def)
    moreover have "\<lparr>alock = 0, classes = classes (al h)\<rparr> = al h" using H(1) by (cases "al h") simp
    ultimately show "alloc_alloc sys h len = alloc_take sys h a1 c"
      using assms(2,3) H(1) False
      by (simp add: alloc_alloc_def alloc_take_def alloc_config Let_def c1 a1' split: option.split)
  qed
qed

lemma alloc_alloc_recycles:
  assumes "heap_rel h A F L" "len \<le> 4096" "alloc_class_of len = Some (c, class_len c)" "c < 21"
    "A c \<noteq> [] \<or> F c \<noteq> []"
  obtains h' off where "alloc_alloc sys h len = Some (off, h')" "heap_inv h' (insert (off, c) L)"
      "(off, c) \<notin> L" "\<And>y. y \<in> block_bytes (off, c) \<Longrightarrow> hm h' y = 0"
      "\<And>y. y \<notin> block_bytes (off, c) \<Longrightarrow> hm h' y = hm h y" "rg h' = rg h" "hos h' = hos h"
proof -
  obtain a1 A1 F1 where h1: "heap_rel (h\<lparr>al := a1\<rparr>) A1 F1 L" "A1 c = [] \<longleftrightarrow> A c = [] \<and> F c = []"
    and eq0: "alloc_alloc sys h len = alloc_take sys h a1 c"
    using alloc_alloc_drained [OF assms(1-4)] .
  note H = heap_relD [OF h1(1), simplified]
  note D = free_relD [OF H(5)]
  let ?x = "calloc (classes a1 ! c)"
  obtain xs where xs: "A1 c = ?x # xs"
    using D(4) [OF assms(4)] h1(2) assms(5) by (cases "A1 c") auto
  have x: "(?x, c) \<in> free_blocks A1 F1" using xs assms(4) by (simp add: free_blocks_def)
  have p: "region_ptr (rg h) ?x (class_len c) = Some ?x"
    using blocks_okD [OF D(2), of ?x c] x H(8) by (intro region_ptr_SomeI) auto
  have "?x \<noteq> 0" "chain (hm h) (load64 (hm h) ?x) xs" "?x \<notin> set xs"
    using D(4,6) [OF assms(4)] xs by (auto simp del: load.simps)
  then have ne: "?x \<noteq> 0" "?x \<noteq> load64 (hm h) ?x" by (cases xs; auto)+
  let ?m = "memset (hm h) ?x 0 (class_len c)"
  let ?h = "h\<lparr>al := set_class a1 c ((classes a1 ! c)\<lparr>calloc := load64 (hm h) ?x\<rparr>), hm := ?m\<rparr>"
  have frame: "?m y = hm h y" if "y \<notin> block_bytes (?x, c)" for y
    using that by (auto simp: memset_def block_bytes_def)
  have "free_rel (al ?h) ?m (min_pos (rg h)) (pos (rg h)) (A1(c := xs)) F1 (insert (?x, c) L)"
    using free_rel_frame [OF free_rel_pop [OF H(5) assms(4) xs] insertI1 frame] by simp
  moreover have "?m y = 0" if "pos (rg h) \<le> y" for y
    using H(6) [OF that] by (simp add: memset_def)
  ultimately have "heap_inv ?h (insert (?x, c) L)"
    using H by (auto simp: heap_inv_def heap_rel_def set_class_simps)
  moreover have "alloc_alloc sys h len = Some (?x, ?h)"
    using p ne by (simp add: eq0 alloc_take_def Let_def del: load.simps)
  ultimately show thesis
    using x D(3) frame by (intro that [of ?x ?h]) (auto simp: memset_def block_bytes_def)
qed

text \<open>
  What an allocation does, in one predicate: block \<open>off\<close> of class \<open>c\<close> is fresh, zeroed and
  live, and nothing else that is live has changed.
\<close>

definition allocates :: "heap \<Rightarrow> (off \<times> nat) set \<Rightarrow> nat \<Rightarrow> off \<Rightarrow> heap \<Rightarrow> bool" where
  "allocates h L c off h' \<longleftrightarrow> off \<noteq> 0 \<and> (off, c) \<notin> L \<and> heap_inv h' (insert (off, c) L) \<and>
     (\<forall>y \<in> block_bytes (off, c). hm h' y = 0) \<and>
     (\<forall>b \<in> L. \<forall>y \<in> block_bytes b. hm h' y = hm h y) \<and>
     pos (rg h) \<le> pos (rg h') \<and> min_pos (rg h') = min_pos (rg h)"

lemma heap_inv_blocks:
  assumes "heap_inv h L"
  shows "blocks_ok (min_pos (rg h)) (pos (rg h)) L" "pos (rg h) < 18446744073709551616"
proof -
  obtain A F where h: "heap_rel h A F L" using assms by (auto simp: heap_inv_def)
  show "blocks_ok (min_pos (rg h)) (pos (rg h)) L"
    using free_relD(2) [OF heap_relD(5) [OF h]] by (rule blocks_ok_subset) simp
  show "pos (rg h) < 18446744073709551616" using heap_relD(8) [OF h] .
qed

lemma heap_inv_apart:
  assumes "heap_inv h L" "b \<in> L" "b' \<in> L" "b \<noteq> b'"
  shows "block_bytes b \<inter> block_bytes b' = {}"
  using heap_inv_blocks(1) [OF assms(1)] assms(2-4)
  by (auto simp: blocks_ok_def dest: pairwiseD simp: disjnt_def)

lemma heap_inv_ptr:
  assumes "heap_inv h L" "(x, c) \<in> L" "len \<le> class_len c"
  shows "region_ptr (rg h) x len = Some x" "x \<noteq> 0" "c < 21"
proof -
  note L = blocks_okD [OF heap_inv_blocks(1) [OF assms(1)] assms(2)]
  show "region_ptr (rg h) x len = Some x" "x \<noteq> 0" "c < 21"
    using L assms(3) heap_inv_blocks(2) [OF assms(1)] by (auto intro: region_ptr_SomeI)
qed

lemma alloc_alloc_total:
  assumes "heap_inv h L" "len \<le> 4096" "sys_amd64 sys" "alloc_class_of len = Some (c, class_len c)"
    "c < 21"
  obtains
    (fail) h' where "alloc_alloc sys h len = Some (0, h')" "heap_inv h' L" "hm h' = hm h" "rg h' = rg h"
      "vma_len (rg h) < pos (rg h) + 65536"
  | (ok) h' off where "alloc_alloc sys h len = Some (off, h')" "allocates h L c off h'"
proof -
  obtain A F where h: "heap_rel h A F L" using assms(1) by (auto simp: heap_inv_def)
  note L = heap_inv_blocks(1) [OF assms(1)]
  show thesis
  proof (cases "A c \<noteq> [] \<or> F c \<noteq> []")
    case True
    with h assms(2,4,5) show thesis
    proof (cases rule: alloc_alloc_recycles [where sys = sys])
      case (1 h' off)
      have "y \<notin> block_bytes (off, c)" if "b \<in> L" "y \<in> block_bytes b" for b y
        using heap_inv_apart [OF 1(2), of b "(off, c)"] that 1(3) by auto
      moreover have "off \<noteq> 0" using heap_inv_ptr(2) [OF 1(2), of off c 0] by simp
      ultimately show thesis using 1 by (intro that(2) [of off h']) (simp_all add: allocates_def)
    qed
  next
    case False
    obtain a1 A1 F1 where h1: "heap_rel (h\<lparr>al := a1\<rparr>) A1 F1 L" "A1 c = []"
        "alloc_alloc sys h len = alloc_fill_class sys (h\<lparr>al := a1\<rparr>) (class_len c) c"
    proof (rule alloc_alloc_drained [OF h assms(2,4,5), of sys])
      fix a1 A1 F1
      assume d: "heap_rel (h\<lparr>al := a1\<rparr>) A1 F1 L" "A1 c = [] \<longleftrightarrow> A c = [] \<and> F c = []"
        and eq: "alloc_alloc sys h len = alloc_take sys h a1 c"
      have "calloc (classes a1 ! c) = 0"
        using chain_head [OF free_relD(4) [OF heap_relD(5) [OF d(1)] assms(5)]] d(2) False by simp
      then show thesis using that d eq False by (simp add: alloc_take_def)
    qed
    from h1(1) assms(5) h1(2) assms(3) show thesis
    proof (cases rule: alloc_fill_class_cases)
      case (fail h')
      then show thesis using h1(3) by (intro that(1) [of h']) (auto simp: heap_inv_def)
    next
      case (ok h' A')
      have below: "y < pos (rg h)" if "b \<in> L" "y \<in> block_bytes b" for b y
        using blocks_okD(4) [OF L, of "fst b" "snd b"] that by (auto simp: block_bytes_def)
      then have "(pos (rg h), c) \<notin> L" by (fastforce simp: block_bytes_def)
      then show thesis
        using ok h1(3) heap_relD(4,6) [OF h] below
        by (intro that(2) [of "pos (rg h)" h'])
          (auto simp: allocates_def heap_inv_def block_bytes_def trans_less_add1)
    qed
  qed
qed

lemma heap_inv_write:
  assumes "heap_inv h L" "b \<in> L" "\<And>y. y \<notin> block_bytes b \<Longrightarrow> m y = hm h y"
  shows "heap_inv (h\<lparr>hm := m\<rparr>) L"
proof -
  obtain A F where h: "heap_rel h A F L" using assms(1) by (auto simp: heap_inv_def)
  note H = heap_relD [OF h]
  have "fst b + class_len (snd b) \<le> pos (rg h)"
    using blocks_okD(4) [OF heap_inv_blocks(1) [OF assms(1)], of "fst b" "snd b"] assms(2) by simp
  then have "m y = 0" if "pos (rg h) \<le> y" for y
    using H(6) [OF that] that assms(3) [of y] by (simp add: block_bytes_def)
  then show ?thesis
    using h free_rel_frame [OF H(5) assms(2,3)] by (auto simp: heap_inv_def heap_rel_def)
qed

lemma alloc_free_rel:
  assumes "heap_rel h A F L" "alloc_class_of len = Some (c, class_len c)" "(x, c) \<in> L" "len \<le> 4096"
  obtains h' where "alloc_free h x len = Some h'" "heap_rel h' A (F(c := x # F c)) (L - {(x, c)})"
    "rg h' = rg h" "hos h' = hos h" "\<And>y. y \<notin> block_bytes (x, c) \<Longrightarrow> hm h' y = hm h y"
proof -
  have inv: "heap_inv h L" using assms(1) by (auto simp: heap_inv_def)
  note H = heap_relD [OF assms(1)]
  note p = heap_inv_ptr [OF inv assms(3)]
  from H(5) assms(2,3) p(1) [OF order_refl] assms(4) H(8) show thesis
  proof (cases rule: alloc_free_frees)
    case (1 h')
    have "hm h' y = 0" if "pos (rg h) \<le> y" for y
      using that H(6) [OF that] 1(6) [of y] blocks_okD(4) [OF heap_inv_blocks(1) [OF inv] assms(3)]
      by (simp add: block_bytes_def)
    then have "heap_rel h' A (F(c := x # F c)) (L - {(x, c)})"
      using 1 H by (simp add: heap_rel_def)
    with 1 show thesis by (intro that)
  qed
qed

lemma alloc_free_total:
  assumes "heap_inv h L" "alloc_class_of len = Some (c, class_len c)" "(x, c) \<in> L" "len \<le> 4096"
  obtains h' where "alloc_free h x len = Some h'" "heap_inv h' (L - {(x, c)})" "rg h' = rg h"
    "\<And>y. y \<notin> block_bytes (x, c) \<Longrightarrow> hm h' y = hm h y"
proof -
  obtain A F where h: "heap_rel h A F L" using assms(1) by (auto simp: heap_inv_def)
  show thesis
    by (rule alloc_free_rel [OF h assms(2-4)], erule that) (auto simp: heap_inv_def)
qed

definition class_of :: "nat \<Rightarrow> nat" where
  "class_of len = (case alloc_class_of len of Some (c, _) \<Rightarrow> c | None \<Rightarrow> 21)"

lemma class_of_eq:
  assumes "len \<le> 4096"
  shows "alloc_class_of len = Some (class_of len, class_len (class_of len))"
    "class_of len < 21" "len \<le> class_len (class_of len)"
  using alloc_class_of_ex [OF assms] by (auto simp: class_of_def)

section \<open>The interface of the allocator\<close>

text \<open>
  What the rest of the program relies on: a state with a set of live blocks, bytes, and
  operations that allocate, free and write blocks. The laws are in terms of the live blocks
  only; nothing is said of lists, classes or the region.
\<close>

locale allocator =
  fixes env_ok :: "'s \<Rightarrow> bool"
    and inv :: "'h \<Rightarrow> (off \<times> nat) set \<Rightarrow> bool"
    and bytes :: "'h \<Rightarrow> mem"
    and put :: "'h \<Rightarrow> mem \<Rightarrow> 'h"
    and alloc :: "'s \<Rightarrow> 'h \<Rightarrow> nat \<Rightarrow> (off \<times> 'h) option"
    and free :: "'h \<Rightarrow> off \<Rightarrow> nat \<Rightarrow> 'h option"
    and tag :: "nat \<Rightarrow> nat"
    and span :: "off \<times> nat \<Rightarrow> nat set"
    and max_len :: nat
  assumes alloc_law: "env_ok s \<Longrightarrow> inv h L \<Longrightarrow> len \<le> max_len \<Longrightarrow>
      \<exists>off h'. alloc s h len = Some (off, h') \<and>
        (if off = 0 then inv h' L \<and> bytes h' = bytes h
         else (off, tag len) \<notin> L \<and> inv h' (insert (off, tag len) L) \<and>
           (\<forall>y \<in> span (off, tag len). bytes h' y = 0) \<and>
           (\<forall>b \<in> L. \<forall>y \<in> span b. bytes h' y = bytes h y))"
    and free_law: "inv h L \<Longrightarrow> (x, tag len) \<in> L \<Longrightarrow> len \<le> max_len \<Longrightarrow>
      \<exists>h'. free h x len = Some h' \<and> inv h' (L - {(x, tag len)}) \<and>
        (\<forall>y. y \<notin> span (x, tag len) \<longrightarrow> bytes h' y = bytes h y)"
    and put_law: "inv h L \<Longrightarrow> b \<in> L \<Longrightarrow> (\<And>y. y \<notin> span b \<Longrightarrow> m y = bytes h y) \<Longrightarrow>
      inv (put h m) L \<and> bytes (put h m) = m"
    and apart_law: "inv h L \<Longrightarrow> b \<in> L \<Longrightarrow> b' \<in> L \<Longrightarrow> b \<noteq> b' \<Longrightarrow> span b \<inter> span b' = {}"
begin

lemma two_allocs:
  assumes "env_ok s" "inv h L" "l1 \<le> max_len" "l2 \<le> max_len"
    and "alloc s h l1 = Some (o1, h1)" "o1 \<noteq> 0" "alloc s h1 l2 = Some (o2, h2)" "o2 \<noteq> 0"
  shows "span (o1, tag l1) \<inter> span (o2, tag l2) = {}"
    and "\<forall>y \<in> span (o1, tag l1). bytes h2 y = 0"
proof -
  have 1: "inv h1 (insert (o1, tag l1) L)" "\<forall>y \<in> span (o1, tag l1). bytes h1 y = 0"
    using alloc_law [OF assms(1-3)] assms(5,6) by auto
  have 2: "(o2, tag l2) \<notin> insert (o1, tag l1) L" "inv h2 (insert (o2, tag l2) (insert (o1, tag l1) L))"
      "\<forall>b \<in> insert (o1, tag l1) L. \<forall>y \<in> span b. bytes h2 y = bytes h1 y"
    using alloc_law [OF assms(1) 1(1) assms(4)] assms(7,8) by auto
  show "span (o1, tag l1) \<inter> span (o2, tag l2) = {}"
    using apart_law [OF 2(2), of "(o1, tag l1)" "(o2, tag l2)"] 2(1) by auto
  show "\<forall>y \<in> span (o1, tag l1). bytes h2 y = 0" using 1(2) 2(3) by simp
qed

lemma survives_free_and_alloc:
  assumes "env_ok s" "inv h L" "b \<in> L" "(x, tag l) \<in> L" "b \<noteq> (x, tag l)" "l \<le> max_len" "l' \<le> max_len"
    and "\<And>y. y \<notin> span b \<Longrightarrow> m y = bytes h y"
  shows "\<exists>h1 off h2. free (put h m) x l = Some h1 \<and> alloc s h1 l' = Some (off, h2) \<and>
     (\<forall>y \<in> span b. bytes h2 y = m y) \<and>
     (off \<noteq> 0 \<longrightarrow> span b \<inter> span (off, tag l') = {} \<and> (\<forall>y \<in> span (off, tag l'). bytes h2 y = 0))"
proof -
  have p: "inv (put h m) L" "bytes (put h m) = m" using put_law [OF assms(2,3,8)] by simp_all
  obtain h1 where h1: "free (put h m) x l = Some h1" "inv h1 (L - {(x, tag l)})"
      "\<forall>y. y \<notin> span (x, tag l) \<longrightarrow> bytes h1 y = m y"
    using free_law [OF p(1) assms(4,6)] p(2) by auto
  have b: "bytes h1 y = m y" if "y \<in> span b" for y
    using apart_law [OF assms(2,3,4,5)] h1(3) that by blast
  have bL: "b \<in> L - {(x, tag l)}" using assms(3,5) by simp
  obtain off h2 where h2: "alloc s h1 l' = Some (off, h2)" "if off = 0 then bytes h2 = bytes h1
      else (off, tag l') \<notin> L - {(x, tag l)} \<and> inv h2 (insert (off, tag l') (L - {(x, tag l)})) \<and>
        (\<forall>y \<in> span (off, tag l'). bytes h2 y = 0) \<and>
        (\<forall>b \<in> L - {(x, tag l)}. \<forall>y \<in> span b. bytes h2 y = bytes h1 y)"
    using alloc_law [OF assms(1) h1(2) assms(7)] by (auto split: if_splits)
  have "span b \<inter> span (off, tag l') = {}" if "off \<noteq> 0"
    using h2(2) that bL apart_law [of h2 _ b "(off, tag l')"] by auto
  then show ?thesis using h1(1) h2 b bL by (auto split: if_splits)
qed

end

interpretation hp: allocator sys_amd64 heap_inv hm "\<lambda>h m. h\<lparr>hm := m\<rparr>" alloc_alloc alloc_free
  class_of block_bytes 4096
proof
  fix s h L and len :: nat
  assume a: "sys_amd64 s" "heap_inv h L" "len \<le> 4096"
  show "\<exists>off h'. alloc_alloc s h len = Some (off, h') \<and>
      (if off = 0 then heap_inv h' L \<and> hm h' = hm h
       else (off, class_of len) \<notin> L \<and> heap_inv h' (insert (off, class_of len) L) \<and>
         (\<forall>y \<in> block_bytes (off, class_of len). hm h' y = 0) \<and>
         (\<forall>b \<in> L. \<forall>y \<in> block_bytes b. hm h' y = hm h y))"
    using a(2,3,1) class_of_eq(1,2) [OF a(3)]
    by (cases rule: alloc_alloc_total) (auto simp: allocates_def)
next
  fix h L x and len :: nat
  assume a: "heap_inv h L" "(x, class_of len) \<in> L" "len \<le> 4096"
  show "\<exists>h'. alloc_free h x len = Some h' \<and> heap_inv h' (L - {(x, class_of len)}) \<and>
      (\<forall>y. y \<notin> block_bytes (x, class_of len) \<longrightarrow> hm h' y = hm h y)"
    using alloc_free_total [OF a(1) class_of_eq(1) [OF a(3)] a(2,3)] by metis
next
  fix h L b m
  assume a: "heap_inv h L" "b \<in> L" "\<And>y. y \<notin> block_bytes b \<Longrightarrow> m y = hm h y"
  show "heap_inv (h\<lparr>hm := m\<rparr>) L \<and> hm (h\<lparr>hm := m\<rparr>) = m"
    using heap_inv_write [OF a] by simp
qed (rule heap_inv_apart)

section \<open>Properties of the allocator\<close>

text \<open>The heap of a region that was just created: no block is live.\<close>

definition fresh_heap :: heap where
  "fresh_heap = \<lparr>al = alloc_init, rg = fresh_region, hm = (\<lambda>_. 0), hos = fresh_os\<rparr>"

lemma heap_inv_init:
  assumes "region_inv os r" "owned r" "0 < pos r" "\<And>y. pos r \<le> y \<Longrightarrow> m y = 0"
  shows "heap_inv \<lparr>al = alloc_init, rg = r, hm = m, hos = os\<rparr> {}"
proof -
  have "free_rel alloc_init m (min_pos r) (pos r) (\<lambda>_. []) (\<lambda>_. []) {}"
    by (simp add: free_rel_def alloc_init_def alloc_config free_blocks_def blocks_ok_def)
  then show ?thesis
    using assms by (auto simp: heap_inv_def heap_rel_def alloc_init_def intro!: exI [of _ "\<lambda>_. []"])
qed

lemma fresh_heap_inv: "heap_inv fresh_heap {}"
  unfolding fresh_heap_def
  by (rule heap_inv_init [OF fresh_region_inv]) (simp_all add: fresh_region_def zero_region_def)

text \<open>
  C6: allocation. On a well-formed heap and for every length up to the maximum,
  \<open>alloc_alloc\<close> returns (no assertion fails, no lock stays taken, no loop runs on). When it
  returns 0 the bytes are as they were; otherwise the block is a new one of the class of
  the length, it is all zero, the offset is valid for the whole length, it overlaps no live
  block, and the bytes of the live blocks are untouched.
\<close>

theorem alloc_alloc_correct:
  assumes "sys_amd64 sys" "heap_inv h L" "len \<le> 4096"
  shows "\<exists>off h'. alloc_alloc sys h len = Some (off, h') \<and>
     (if off = 0 then heap_inv h' L \<and> hm h' = hm h
      else (off, class_of len) \<notin> L \<and> heap_inv h' (insert (off, class_of len) L) \<and>
        region_ptr (rg h') off len = Some off \<and>
        (\<forall>y \<in> block_bytes (off, class_of len). hm h' y = 0) \<and>
        (\<forall>b \<in> L. block_bytes b \<inter> block_bytes (off, class_of len) = {} \<and>
           (\<forall>y \<in> block_bytes b. hm h' y = hm h y)))"
proof -
  obtain off h' where 1: "alloc_alloc sys h len = Some (off, h')"
     "if off = 0 then heap_inv h' L \<and> hm h' = hm h
      else (off, class_of len) \<notin> L \<and> heap_inv h' (insert (off, class_of len) L) \<and>
         (\<forall>y \<in> block_bytes (off, class_of len). hm h' y = 0) \<and>
         (\<forall>b \<in> L. \<forall>y \<in> block_bytes b. hm h' y = hm h y)"
    using hp.alloc_law [OF assms] by blast
  have "region_ptr (rg h') off len = Some off" if "off \<noteq> 0"
    using heap_inv_ptr(1) [of h' _ off "class_of len" len] 1(2) that class_of_eq(3) [OF assms(3)]
    by auto
  moreover have "block_bytes b \<inter> block_bytes (off, class_of len) = {}" if "off \<noteq> 0" "b \<in> L" for b
    using hp.apart_law [of h' _ b "(off, class_of len)"] 1(2) that by (auto split: if_splits)
  ultimately show ?thesis using 1 by (auto split: if_splits)
qed

theorem alloc_alloc_correct_witness:
  "\<exists>off h'. alloc_alloc sys_ok fresh_heap 100 = Some (off, h') \<and>
     (if off = 0 then heap_inv h' {} \<and> hm h' = hm fresh_heap
      else (off, class_of 100) \<notin> {} \<and> heap_inv h' (insert (off, class_of 100) {}) \<and>
        region_ptr (rg h') off 100 = Some off \<and>
        (\<forall>y \<in> block_bytes (off, class_of 100). hm h' y = 0) \<and>
        (\<forall>b \<in> {}. block_bytes b \<inter> block_bytes (off, class_of 100) = {} \<and>
           (\<forall>y \<in> block_bytes b. hm h' y = hm fresh_heap y)))"
  by (rule alloc_alloc_correct [OF sys_ok_amd64 fresh_heap_inv]) simp

text \<open>
  C7: freeing. \<open>alloc_free\<close> of a live block with a length of its class returns, the block is
  no longer live, and no byte outside the block changes.
\<close>

theorem alloc_free_correct:
  assumes "heap_inv h L" "(x, class_of len) \<in> L" "len \<le> 4096"
  shows "\<exists>h'. alloc_free h x len = Some h' \<and> heap_inv h' (L - {(x, class_of len)}) \<and>
     rg h' = rg h \<and> (\<forall>y. y \<notin> block_bytes (x, class_of len) \<longrightarrow> hm h' y = hm h y)"
  using alloc_free_total [OF assms(1) class_of_eq(1) [OF assms(3)] assms(2,3)] by metis

text \<open>
  C30: memory is recycled. After a block is freed, the next allocation of its class succeeds
  without growing the region, whatever the kernel would refuse.
\<close>

theorem alloc_after_free:
  assumes "heap_inv h L" "(x, class_of len) \<in> L" "len \<le> 4096" "len' \<le> 4096" "class_of len' = class_of len"
  shows "\<exists>h1 off h2. alloc_free h x len = Some h1 \<and> alloc_alloc sys h1 len' = Some (off, h2) \<and>
     off \<noteq> 0 \<and> rg h2 = rg h \<and> hos h2 = hos h \<and>
     heap_inv h2 (insert (off, class_of len) (L - {(x, class_of len)}))"
proof -
  let ?c = "class_of len"
  obtain A F where h: "heap_rel h A F L" using assms(1) by (auto simp: heap_inv_def)
  obtain h1 where h1: "alloc_free h x len = Some h1" "heap_rel h1 A (F(?c := x # F ?c)) (L - {(x, ?c)})"
      "rg h1 = rg h" "hos h1 = hos h"
    by (rule alloc_free_rel [OF h class_of_eq(1) [OF assms(3)] assms(2,3)])
  have c: "alloc_class_of len' = Some (?c, class_len ?c)" "?c < 21"
    using class_of_eq [OF assms(4)] assms(5) by simp_all
  obtain h2 off where h2: "alloc_alloc sys h1 len' = Some (off, h2)"
      "heap_inv h2 (insert (off, ?c) (L - {(x, ?c)}))" "rg h2 = rg h1" "hos h2 = hos h1"
    by (rule alloc_alloc_recycles [OF h1(2) assms(4) c, of sys]) simp_all
  then have "off \<noteq> 0" using heap_inv_ptr(2) [OF h2(2), of off ?c 0] by simp
  then show ?thesis using h1 h2 by simp
qed

text \<open>
  What a client of the allocator relies on. Data written into one block survives the
  freeing of another block and the next allocation, and the block handed out, possibly
  the one just freed, is zeroed and apart from the data.
\<close>

theorem alloc_data_survives:
  assumes "sys_amd64 sys" "heap_inv h L" "b \<in> L" "(x, class_of l) \<in> L" "b \<noteq> (x, class_of l)"
    "l \<le> 4096" "l' \<le> 4096" "\<And>y. y \<notin> block_bytes b \<Longrightarrow> m y = hm h y"
  shows "\<exists>h1 off h2. alloc_free (h\<lparr>hm := m\<rparr>) x l = Some h1 \<and> alloc_alloc sys h1 l' = Some (off, h2) \<and>
     (\<forall>y \<in> block_bytes b. hm h2 y = m y) \<and>
     (off \<noteq> 0 \<longrightarrow> block_bytes b \<inter> block_bytes (off, class_of l') = {} \<and>
        (\<forall>y \<in> block_bytes (off, class_of l'). hm h2 y = 0))"
  using assms by (rule hp.survives_free_and_alloc)

text \<open>A heap with two live blocks, of 112 and 48 bytes.\<close>

definition two_block_heap :: heap where
  "two_block_heap = fresh_heap\<lparr>rg := fresh_region\<lparr>pos := 2000\<rparr>\<rparr>"

lemma class_of_100_40: "class_of 100 = 7" "class_of 40 = 3" "class_of 105 = 7"
  by (simp_all add: class_of_def alloc_class_of_def alloc_config ceil_div_def uadd_def umul_def)

lemma two_block_heap_inv: "heap_inv two_block_heap {(704, class_of 100), (1000, class_of 40)}"
proof -
  have "blocks_ok 656 2000 {(704, 7), (1000, 3)}"
    by (simp add: blocks_ok_def class_len_def pairwise_insert block_bytes_def disjnt_def)
  then have "free_rel alloc_init (\<lambda>_. 0) 656 2000 (\<lambda>_. []) (\<lambda>_. []) {(704, 7), (1000, 3)}"
    by (simp add: free_rel_def alloc_init_def alloc_config free_blocks_def)
  moreover have "region_inv fresh_os (fresh_region\<lparr>pos := 2000\<rparr>)"
    by (simp add: region_inv_def fresh_region_def fresh_os_def zero_region_def region_default_len_def)
  ultimately show ?thesis
    unfolding heap_inv_def heap_rel_def class_of_100_40
    by (intro exI [of _ "\<lambda>_. []"])
      (simp add: two_block_heap_def fresh_heap_def alloc_init_def, simp add: fresh_region_def zero_region_def)
qed

theorem alloc_free_correct_witness:
  "\<exists>h'. alloc_free two_block_heap 704 100 = Some h' \<and>
     heap_inv h' ({(704, class_of 100), (1000, class_of 40)} - {(704, class_of 100)}) \<and>
     rg h' = rg two_block_heap \<and>
     (\<forall>y. y \<notin> block_bytes (704, class_of 100) \<longrightarrow> hm h' y = hm two_block_heap y)"
  by (rule alloc_free_correct [OF two_block_heap_inv]) simp_all

theorem alloc_after_free_witness:
  "\<exists>h1 off h2. alloc_free two_block_heap 704 100 = Some h1 \<and>
     alloc_alloc sys_ok h1 105 = Some (off, h2) \<and> off \<noteq> 0 \<and> rg h2 = rg two_block_heap \<and>
     hos h2 = hos two_block_heap \<and> heap_inv h2 (insert (off, class_of 100)
       ({(704, class_of 100), (1000, class_of 40)} - {(704, class_of 100)}))"
  by (rule alloc_after_free [OF two_block_heap_inv]) (simp_all add: class_of_100_40)

theorem alloc_data_survives_witness:
  "\<exists>h1 off h2. alloc_free (two_block_heap\<lparr>hm := (hm two_block_heap)(1001 := 7)\<rparr>) 704 100 = Some h1 \<and>
     alloc_alloc sys_ok h1 16 = Some (off, h2) \<and>
     (\<forall>y \<in> block_bytes (1000, class_of 40). hm h2 y = ((hm two_block_heap)(1001 := 7)) y) \<and>
     (off \<noteq> 0 \<longrightarrow> block_bytes (1000, class_of 40) \<inter> block_bytes (off, class_of 16) = {} \<and>
        (\<forall>y \<in> block_bytes (off, class_of 16). hm h2 y = 0))"
  by (rule alloc_data_survives [OF sys_ok_amd64 two_block_heap_inv])
    (auto simp: class_of_100_40 block_bytes_def class_len_def)

end
