(* ===== verification/Htable.thy ===== *)
theory Htable
  imports Prelude
begin

text \<open>
  The hash table of \<^verbatim>\<open>src/utils/htable.h\<close> and \<^verbatim>\<open>src/utils/htable.c\<close>: open addressing with a
  probe window of eight buckets, FNV-1a hashing, keys compared and copied up to 1024
  characters, growth by doubling until every key fits in its window.

  The table is proved to implement a finite map on keys cut to 1024 characters
  (\<open>ht_abs\<close>), under the invariant \<open>ht_inv\<close>. The interface the other components rely on
  is the locale \<open>kv_table\<close>, interpreted on the table at the end.
\<close>

unbundle bit_operations_syntax

section \<open>Definitions\<close>

definition htable_key_max_len :: nat where
  "htable_key_max_len = 1024"

definition probe_window :: nat where
  "probe_window = 8"

record htable_bucket =
  bkey :: "string option"
  bvalue :: u64

record htable =
  ht_len :: nat
  ht_cap :: nat
  ht_table :: "htable_bucket list"

record htable_ret =
  ok :: bool
  rvalue :: u64

definition empty_bucket :: htable_bucket where
  "empty_bucket = \<lparr>bkey = None, bvalue = 0\<rparr>"

definition empty_htable :: htable where
  "empty_htable = \<lparr>ht_len = 0, ht_cap = 0, ht_table = []\<rparr>"

text \<open>\<^verbatim>\<open>char\<close> is signed on AMD64: \<^verbatim>\<open>hash ^ key[i]\<close> extends the sign of the character.\<close>

definition char_sext :: "char \<Rightarrow> u64" where
  "char_sext c =
     (let n = of_char c :: int in of_int (if n < 128 then n else n - 256))"

definition htable_hash :: "string \<Rightarrow> u64" where
  "htable_hash k =
     foldl (\<lambda>hash c. (hash XOR char_sext c) * 0x100000001b3) 0xcbf29ce484222325
       (take (strnlen k htable_key_max_len) k)"

text \<open>The index of the \<open>i\<close>-th bucket a hash probes: \<^verbatim>\<open>(hash + i) % cap\<close>.\<close>

definition probe :: "nat \<Rightarrow> u64 \<Rightarrow> nat \<Rightarrow> nat" where
  "probe cap hash i = unat (hash + of_nat i) mod cap"

definition htable_reset :: "htable \<Rightarrow> htable" where
  "htable_reset ht = empty_htable"

definition table_put ::
  "htable_bucket list \<Rightarrow> nat \<Rightarrow> string \<Rightarrow> u64 \<Rightarrow> htable_bucket list option" where
  "table_put table cap key value =
     (let hash = htable_hash key in
      case find (\<lambda>i. bkey (table ! probe cap hash i) = None) [0..<probe_window] of
        None \<Rightarrow> None
      | Some i \<Rightarrow>
          Some (table[probe cap hash i := \<lparr>bkey = Some key, bvalue = value\<rparr>]))"

fun rehash :: "htable_bucket list \<Rightarrow> htable_bucket list \<Rightarrow> nat \<Rightarrow> htable_bucket list option" where
  "rehash [] new_table new_cap = Some new_table"
| "rehash (bucket # buckets) new_table new_cap =
     (case bkey bucket of
        None \<Rightarrow> rehash buckets new_table new_cap
      | Some k \<Rightarrow>
          (case table_put new_table new_cap k (bvalue bucket) of
             None \<Rightarrow> None
           | Some new_table' \<Rightarrow> rehash buckets new_table' new_cap))"

text \<open>
  \<^verbatim>\<open>calloc\<close> cannot return a block of more than \<^verbatim>\<open>PTRDIFF_MAX\<close> bytes and a bucket has 16, so
  from two to the 59 buckets on the assertion on its result kills the process. This also
  bounds the recursion of \<^verbatim>\<open>htable_resize\<close> and \<^verbatim>\<open>htable_put\<close>.
\<close>

definition calloc_ok :: "nat \<Rightarrow> bool" where
  "calloc_ok n \<longleftrightarrow> n < 576460752303423488"

function htable_resize :: "htable \<Rightarrow> nat \<Rightarrow> htable option" where
  "htable_resize ht cap =
     (if cap \<le> ht_cap ht then Some ht
      else
        (case double_until (if ht_cap ht \<noteq> 0 then ht_cap ht else 1) cap of
           None \<Rightarrow> None
         | Some new_cap \<Rightarrow>
             if \<not> calloc_ok new_cap then None
             else
               (case rehash (ht_table ht) (replicate new_cap empty_bucket) new_cap of
                  None \<Rightarrow> htable_resize ht (umul new_cap 2)
                | Some new_table \<Rightarrow> Some (ht\<lparr>ht_cap := new_cap, ht_table := new_table\<rparr>))))"
  by pat_completeness auto
termination
proof (relation "measure (\<lambda>(ht, cap). 2 * 576460752303423488 - cap)", goal_cases)
  case 1
  show ?case by simp
next
  case (2 ht cap new_cap)
  then have "cap \<le> new_cap" "new_cap < 576460752303423488" "0 < cap"
    by (auto simp: calloc_ok_def dest: double_until_ge)
  then show ?case by (simp add: umul_small)
qed

declare htable_resize.simps [simp del]

definition htable_reserve :: "htable \<Rightarrow> nat \<Rightarrow> htable option" where
  "htable_reserve ht items = htable_resize ht (umul items 4)"

text \<open>The first bucket of the window that holds the key (\<^verbatim>\<open>strncmp\<close> up to the key length).\<close>

definition find_bucket :: "htable \<Rightarrow> string \<Rightarrow> nat option" where
  "find_bucket ht key =
     (let hash = htable_hash key in
      map_option (probe (ht_cap ht) hash)
        (find (\<lambda>i. case bkey (ht_table ht ! probe (ht_cap ht) hash i) of
                     None \<Rightarrow> False
                   | Some k \<Rightarrow> strneq k key htable_key_max_len)
              [0..<probe_window]))"

definition find_empty :: "htable \<Rightarrow> string \<Rightarrow> nat option" where
  "find_empty ht key =
     (let hash = htable_hash key in
      map_option (probe (ht_cap ht) hash)
        (find (\<lambda>i. bkey (ht_table ht ! probe (ht_cap ht) hash i) = None) [0..<probe_window]))"

definition htable_get :: "htable \<Rightarrow> string \<Rightarrow> (htable_ret \<times> htable) option" where
  "htable_get ht0 key =
     (case htable_resize ht0 probe_window of
        None \<Rightarrow> None
      | Some ht \<Rightarrow>
          Some (case find_bucket ht key of
                  Some b \<Rightarrow> (\<lparr>ok = True, rvalue = bvalue (ht_table ht ! b)\<rparr>, ht)
                | None \<Rightarrow> (\<lparr>ok = False, rvalue = 0\<rparr>, ht)))"

lemma htable_resize_cap:
  "htable_resize ht cap = Some ht' \<Longrightarrow>
     cap \<le> ht_cap ht' \<and> (ht_cap ht < cap \<longrightarrow> calloc_ok (ht_cap ht'))"
proof (induction ht cap rule: htable_resize.induct)
  case (1 ht cap)
  show ?case
  proof (cases "cap \<le> ht_cap ht")
    case True
    with "1.prems" show ?thesis by (simp add: htable_resize.simps)
  next
    case False
    with "1.prems" obtain new_cap where nc:
      "double_until (if ht_cap ht \<noteq> 0 then ht_cap ht else 1) cap = Some new_cap" "calloc_ok new_cap"
      by (auto simp: htable_resize.simps [of ht cap] split: option.splits if_splits)
    have le: "cap \<le> new_cap" using nc(1) by (rule double_until_ge)
    show ?thesis
    proof (cases "rehash (ht_table ht) (replicate new_cap empty_bucket) new_cap")
      case None
      have dbl: "umul new_cap 2 = new_cap * 2"
        using nc(2) by (intro umul_small) (simp add: calloc_ok_def)
      have "htable_resize ht (umul new_cap 2) = Some ht'"
        using "1.prems" False nc None by (simp add: htable_resize.simps [of ht cap])
      then show ?thesis
        using "1.IH" [OF False nc(1) _ None] nc(2) le False dbl by simp
    next
      case (Some new_table)
      then show ?thesis
        using "1.prems" False nc le by (auto simp: htable_resize.simps [of ht cap])
    qed
  qed
qed

text \<open>
  A table never has more buckets than \<^verbatim>\<open>calloc\<close> can give, so the test of \<open>calloc_ok\<close> before
  the table is doubled only says so to the termination proof.
\<close>

function htable_put :: "htable \<Rightarrow> string \<Rightarrow> u64 \<Rightarrow> (htable_ret \<times> htable) option" where
  "htable_put ht0 key value =
     (case htable_resize ht0 probe_window of
        None \<Rightarrow> None
      | Some ht \<Rightarrow>
          (case find_bucket ht key of
             Some b \<Rightarrow> Some (\<lparr>ok = False, rvalue = bvalue (ht_table ht ! b)\<rparr>, ht)
           | None \<Rightarrow>
               (case find_empty ht key of
                  Some b \<Rightarrow>
                    Some (\<lparr>ok = True, rvalue = 0\<rparr>,
                      ht\<lparr>ht_len := uadd (ht_len ht) 1,
                         ht_table := (ht_table ht)
                           [b := \<lparr>bkey = Some (strndup key htable_key_max_len), bvalue = value\<rparr>]\<rparr>)
                | None \<Rightarrow>
                    if \<not> calloc_ok (ht_cap ht) then None
                    else
                      (case htable_resize ht (umul (ht_cap ht) 2) of
                         None \<Rightarrow> None
                       | Some ht' \<Rightarrow> htable_put ht' key value))))"
  by pat_completeness auto
termination
proof (relation "measure (\<lambda>(ht, key, value). 2 * 576460752303423488 - ht_cap ht)", goal_cases)
  case 1
  show ?case by simp
next
  case (2 ht0 key v ht ht')
  have "ht_cap ht0 \<le> ht_cap ht"
    using "2"(1) htable_resize_cap [OF "2"(1)] by (cases "probe_window \<le> ht_cap ht0")
      (auto simp: htable_resize.simps)
  moreover have "probe_window \<le> ht_cap ht"
    using htable_resize_cap [OF "2"(1)] by simp
  moreover have "umul (ht_cap ht) 2 = ht_cap ht * 2"
    using "2"(4) by (intro umul_small) (simp add: calloc_ok_def)
  ultimately show ?case
    using htable_resize_cap [OF "2"(5)] by (auto simp: probe_window_def calloc_ok_def)
qed

declare htable_put.simps [simp del]

definition htable_xchg :: "htable \<Rightarrow> string \<Rightarrow> u64 \<Rightarrow> (htable_ret \<times> htable) option" where
  "htable_xchg ht0 key value =
     (case htable_resize ht0 probe_window of
        None \<Rightarrow> None
      | Some ht \<Rightarrow>
          Some (case find_bucket ht key of
                  Some b \<Rightarrow>
                    (\<lparr>ok = True, rvalue = bvalue (ht_table ht ! b)\<rparr>,
                     ht\<lparr>ht_table := (ht_table ht)[b := (ht_table ht ! b)\<lparr>bvalue := value\<rparr>]\<rparr>)
                | None \<Rightarrow> (\<lparr>ok = False, rvalue = 0\<rparr>, ht)))"

definition htable_del :: "htable \<Rightarrow> string \<Rightarrow> (htable_ret \<times> htable) option" where
  "htable_del ht0 key =
     (case htable_resize ht0 probe_window of
        None \<Rightarrow> None
      | Some ht \<Rightarrow>
          Some (case find_bucket ht key of
                  Some b \<Rightarrow>
                    (\<lparr>ok = True, rvalue = bvalue (ht_table ht ! b)\<rparr>,
                     ht\<lparr>ht_len := usub (ht_len ht) 1,
                        ht_table := (ht_table ht)[b := (ht_table ht ! b)\<lparr>bkey := None\<rparr>]\<rparr>)
                | None \<Rightarrow> (\<lparr>ok = False, rvalue = 0\<rparr>, ht)))"

text \<open>
  The iterator: a bucket is named by its index, \<open>None\<close> stands for \<^verbatim>\<open>NULL\<close>.
\<close>

definition htable_next :: "htable \<Rightarrow> nat option \<Rightarrow> nat option" where
  "htable_next ht bucket =
     (if ht_table ht = [] then None
      else
        find (\<lambda>i. bkey (ht_table ht ! i) \<noteq> None)
          [(case bucket of None \<Rightarrow> 0 | Some b \<Rightarrow> Suc b)..<ht_cap ht])"


text \<open>
  The buckets that the loop \<^verbatim>\<open>for (it = htable_next(ht, NULL); it; it = htable_next(ht, it))\<close>
  visits when its body does not change the table.
\<close>

lemma htable_next_bounds:
  "htable_next ht b = Some i \<Longrightarrow> i < ht_cap ht \<and> (case b of None \<Rightarrow> True | Some j \<Rightarrow> j < i)"
  by (auto simp: htable_next_def find_Some_iff split: if_splits option.splits)

function htable_walk :: "htable \<Rightarrow> nat option \<Rightarrow> nat list" where
  "htable_walk ht b =
     (case htable_next ht b of None \<Rightarrow> [] | Some i \<Rightarrow> i # htable_walk ht (Some i))"
  by pat_completeness auto
termination
  by (relation "measure (\<lambda>(ht, b). case b of None \<Rightarrow> Suc (ht_cap ht) | Some i \<Rightarrow> ht_cap ht - i)")
    (auto dest!: htable_next_bounds split: option.splits)

declare htable_walk.simps [simp del]

fun diff_loop :: "htable \<Rightarrow> nat list \<Rightarrow> htable \<Rightarrow> htable \<Rightarrow> (htable \<times> htable) option" where
  "diff_loop a [] b result = Some (b, result)"
| "diff_loop a (i # is) b result =
     (let key = the (bkey (ht_table a ! i)) in
      case htable_get b key of
        None \<Rightarrow> None
      | Some (r, b') \<Rightarrow>
          if ok r then diff_loop a is b' result
          else
            (case htable_put result key (bvalue (ht_table a ! i)) of
               None \<Rightarrow> None
             | Some (_, result') \<Rightarrow> diff_loop a is b' result'))"

definition htable_diff :: "htable \<Rightarrow> htable \<Rightarrow> htable \<Rightarrow> (htable \<times> htable) option" where
  "htable_diff a b result = diff_loop a (htable_walk a None) b result"


section \<open>Tables as maps\<close>

definition entry :: "htable_bucket \<Rightarrow> (string \<times> u64) list" where
  "entry b = (case bkey b of None \<Rightarrow> [] | Some k \<Rightarrow> [(k, bvalue b)])"

definition entries :: "htable_bucket list \<Rightarrow> (string \<times> u64) list" where
  "entries t = concat (map entry t)"

definition cut_key :: "string \<Rightarrow> string" where
  "cut_key k = take htable_key_max_len k"

text \<open>The map a table stands for.\<close>

definition ht_abs :: "htable \<Rightarrow> string \<Rightarrow> u64 option" where
  "ht_abs ht k = map_of (entries (ht_table ht)) (cut_key k)"

text \<open>Every key sits in its own probe window and is no longer than the limit.\<close>

definition placed :: "nat \<Rightarrow> htable_bucket \<Rightarrow> nat \<Rightarrow> bool" where
  "placed cap b idx \<longleftrightarrow>
     (case bkey b of
        None \<Rightarrow> True
      | Some k \<Rightarrow> cut_key k = k \<and> (\<exists>i < probe_window. idx = probe cap (htable_hash k) i))"

definition tab_inv :: "nat \<Rightarrow> htable_bucket list \<Rightarrow> bool" where
  "tab_inv cap t \<longleftrightarrow> length t = cap \<and> (\<forall>i < cap. placed cap (t ! i) i) \<and> distinct (map fst (entries t))"

definition ht_inv :: "htable \<Rightarrow> bool" where
  "ht_inv ht \<longleftrightarrow>
     tab_inv (ht_cap ht) (ht_table ht) \<and> ht_len ht = length (entries (ht_table ht)) \<and>
     (ht_cap ht = 0 \<or> probe_window \<le> ht_cap ht) \<and> calloc_ok (ht_cap ht)"

lemma cut_cut [simp]: "cut_key (cut_key k) = cut_key k"
  by (simp add: cut_key_def)

lemma strneq_cut: "strneq a b htable_key_max_len \<longleftrightarrow> cut_key a = cut_key b"
  by (simp add: strneq_def cut_key_def)

lemma hash_cut [simp]: "htable_hash (cut_key k) = htable_hash k"
  by (simp add: htable_hash_def cut_key_def strnlen_def)

lemma probe_less [simp]: "0 < cap \<Longrightarrow> probe cap h i < cap"
  by (simp add: probe_def)

lemma entries_split:
  assumes "i < length t"
  shows "entries (t[i := b]) = entries (take i t) @ entry b @ entries (drop (Suc i) t)"
    and "entries t = entries (take i t) @ entry (t ! i) @ entries (drop (Suc i) t)"
proof -
  show "entries (t[i := b]) = entries (take i t) @ entry b @ entries (drop (Suc i) t)"
    using assms by (simp add: entries_def upd_conv_take_nth_drop)
  have "t = take i t @ t ! i # drop (Suc i) t"
    using assms by (rule id_take_nth_drop)
  then have "entries t = entries (take i t @ t ! i # drop (Suc i) t)" by simp
  then show "entries t = entries (take i t) @ entry (t ! i) @ entries (drop (Suc i) t)"
    by (simp add: entries_def)
qed

lemma entries_simps [simp]:
  "entries [] = []" "entries (b # bs) = entry b @ entries bs"
  by (simp_all add: entries_def)

lemma entries_replicate_empty [simp]: "entries (replicate n empty_bucket) = []"
  by (induction n) (simp_all add: entry_def empty_bucket_def)

lemma in_keys_iff: "k \<in> fst ` set (entries t) \<longleftrightarrow> (\<exists>i < length t. bkey (t ! i) = Some k)"
  by (force simp: entries_def entry_def in_set_conv_nth split: option.splits)

lemma map_of_insert_mid:
  "k \<notin> fst ` set xs \<Longrightarrow> map_of (xs @ (k, v) # ys) = (map_of (xs @ ys))(k \<mapsto> v)"
  by (auto simp: map_add_def fun_eq_iff dest: map_of_eq_None_iff [THEN iffD2] split: option.splits)

text \<open>The three ways an operation changes one bucket.\<close>

lemma fill_bucket:
  assumes "tab_inv cap t" "i < cap" "bkey (t ! i) = None" "k \<notin> fst ` set (entries t)"
    and "placed cap \<lparr>bkey = Some k, bvalue = v\<rparr> i"
  defines "t' \<equiv> t[i := \<lparr>bkey = Some k, bvalue = v\<rparr>]"
  shows "tab_inv cap t'" and "map_of (entries t') = (map_of (entries t))(k \<mapsto> v)"
    and "length (entries t') = Suc (length (entries t))"
proof -
  let ?a = "entries (take i t)" and ?b = "entries (drop (Suc i) t)"
  have len: "i < length t" using assms(1,2) by (simp add: tab_inv_def)
  have t: "entries t = ?a @ ?b"
    using entries_split(2) [OF len] assms(3) by (simp add: entry_def)
  have t': "entries t' = ?a @ (k, v) # ?b"
    using entries_split(1) [OF len] by (simp add: t'_def entry_def)
  show "map_of (entries t') = (map_of (entries t))(k \<mapsto> v)"
    unfolding t t' by (rule map_of_insert_mid) (use assms(4) t in auto)
  show "length (entries t') = Suc (length (entries t))"
    by (simp add: t t')
  show "tab_inv cap t'"
    using assms(1,2,4,5) t t' by (auto simp: tab_inv_def t'_def nth_list_update)
qed

lemma change_bucket:
  fixes v :: u64
  assumes "tab_inv cap t" "i < cap" "bkey (t ! i) = Some k"
  defines "t' \<equiv> t[i := (t ! i)\<lparr>bvalue := v\<rparr>]"
  shows "tab_inv cap t'" and "map_of (entries t') = (map_of (entries t))(k \<mapsto> v)"
    and "length (entries t') = length (entries t)"
proof -
  let ?a = "entries (take i t)" and ?b = "entries (drop (Suc i) t)"
  have len: "i < length t" using assms(1,2) by (simp add: tab_inv_def)
  have t: "entries t = ?a @ (k, bvalue (t ! i)) # ?b"
    using entries_split(2) [OF len] assms(3) by (simp add: entry_def)
  have t': "entries t' = ?a @ (k, v) # ?b"
    using entries_split(1) [OF len] assms(3) by (simp add: t'_def entry_def)
  have k: "k \<notin> fst ` set ?a"
    using assms(1) t by (auto simp: tab_inv_def)
  show "map_of (entries t') = (map_of (entries t))(k \<mapsto> v)"
    unfolding t t' map_of_insert_mid [OF k] by simp
  show "length (entries t') = length (entries t)"
    by (simp add: t t')
  have "map fst (entries t') = map fst (entries t)"
    by (simp add: t t')
  then show "tab_inv cap t'"
    using assms(1,2,3) by (auto simp: tab_inv_def t'_def nth_list_update placed_def)
qed

lemma clear_bucket:
  assumes "tab_inv cap t" "i < cap" "bkey (t ! i) = Some k"
  defines "t' \<equiv> t[i := (t ! i)\<lparr>bkey := None\<rparr>]"
  shows "tab_inv cap t'" and "map_of (entries t') = (map_of (entries t))(k := None)"
    and "Suc (length (entries t')) = length (entries t)"
proof -
  let ?a = "entries (take i t)" and ?b = "entries (drop (Suc i) t)"
  have len: "i < length t" using assms(1,2) by (simp add: tab_inv_def)
  have t: "entries t = ?a @ (k, bvalue (t ! i)) # ?b"
    using entries_split(2) [OF len] assms(3) by (simp add: entry_def)
  have t': "entries t' = ?a @ ?b"
    using entries_split(1) [OF len] by (simp add: t'_def entry_def)
  have k: "k \<notin> fst ` set ?a" "k \<notin> fst ` set ?b"
    using assms(1) t by (auto simp: tab_inv_def)
  have "map_of (entries t') k = None"
    using k by (simp add: t' map_of_eq_None_iff)
  then show "map_of (entries t') = (map_of (entries t))(k := None)"
    unfolding t map_of_insert_mid [OF k(1)] t' by (simp add: fun_upd_idem)
  show "Suc (length (entries t')) = length (entries t)"
    by (simp add: t t')
  show "tab_inv cap t'"
    using assms(1,2) t t' by (auto simp: tab_inv_def t'_def nth_list_update placed_def)
qed


section \<open>Searching the window\<close>

lemma find_bucket_Some:
  assumes "ht_inv ht" "0 < ht_cap ht" "find_bucket ht k = Some b"
  shows "b < ht_cap ht" and "bkey (ht_table ht ! b) = Some (cut_key k)"
proof -
  obtain i where i: "b = probe (ht_cap ht) (htable_hash k) i"
      and b: "case bkey (ht_table ht ! b) of None \<Rightarrow> False | Some k' \<Rightarrow> strneq k' k htable_key_max_len"
    using assms(3) by (auto simp: find_bucket_def Let_def find_Some_iff)
  show lt: "b < ht_cap ht" using assms(2) i by simp
  have "placed (ht_cap ht) (ht_table ht ! b) b"
    using assms(1) lt by (simp add: ht_inv_def tab_inv_def)
  then show "bkey (ht_table ht ! b) = Some (cut_key k)"
    using b by (auto simp: placed_def strneq_cut split: option.splits)
qed

lemma find_bucket_None:
  assumes "ht_inv ht" "find_bucket ht k = None"
  shows "cut_key k \<notin> fst ` set (entries (ht_table ht))"
proof
  assume "cut_key k \<in> fst ` set (entries (ht_table ht))"
  then obtain j where j: "j < ht_cap ht" "bkey (ht_table ht ! j) = Some (cut_key k)"
    using assms(1) by (auto simp: in_keys_iff ht_inv_def tab_inv_def)
  then have "placed (ht_cap ht) (ht_table ht ! j) j"
    using assms(1) by (simp add: ht_inv_def tab_inv_def)
  then obtain i where "i < probe_window" "j = probe (ht_cap ht) (htable_hash k) i"
    using j(2) by (auto simp: placed_def)
  then show False
    using assms(2) j(2) by (auto simp: find_bucket_def Let_def find_None_iff strneq_cut)
qed

lemma find_empty_Some:
  assumes "0 < ht_cap ht" "find_empty ht k = Some b"
  shows "b < ht_cap ht" and "bkey (ht_table ht ! b) = None"
    and "placed (ht_cap ht) \<lparr>bkey = Some (cut_key k), bvalue = v\<rparr> b"
  using assms by (auto simp: find_empty_def Let_def find_Some_iff placed_def)

text \<open>A search of the window decides membership in the map.\<close>

lemma find_bucket_abs:
  assumes "ht_inv ht" "0 < ht_cap ht"
  shows "ht_abs ht k = map_option (\<lambda>b. bvalue (ht_table ht ! b)) (find_bucket ht k)"
proof (cases "find_bucket ht k")
  case None
  then show ?thesis
    using find_bucket_None [OF assms(1)] by (simp add: ht_abs_def map_of_eq_None_iff)
next
  case (Some b)
  note b = find_bucket_Some [OF assms Some]
  have "b < length (ht_table ht)" using assms(1) b(1) by (simp add: ht_inv_def tab_inv_def)
  then have "(cut_key k, bvalue (ht_table ht ! b)) \<in> set (entries (ht_table ht))"
    using b(2) entries_split(2) [of b "ht_table ht"] by (simp add: entry_def)
  then show ?thesis
    using Some assms(1) by (simp add: ht_abs_def ht_inv_def tab_inv_def)
qed

section \<open>Growing\<close>

lemma table_put_Some:
  assumes "tab_inv cap t" "0 < cap" "cut_key k = k" "k \<notin> fst ` set (entries t)"
    and "table_put t cap k v = Some t'"
  shows "tab_inv cap t'" and "map_of (entries t') = (map_of (entries t))(k \<mapsto> v)"
    and "length (entries t') = Suc (length (entries t))"
proof -
  obtain i where i: "i < probe_window" "bkey (t ! probe cap (htable_hash k) i) = None"
      and t': "t' = t[probe cap (htable_hash k) i := \<lparr>bkey = Some k, bvalue = v\<rparr>]"
    using assms(5) by (auto simp: table_put_def Let_def find_Some_iff split: option.splits)
  have p: "placed cap \<lparr>bkey = Some k, bvalue = v\<rparr> (probe cap (htable_hash k) i)"
    using i(1) assms(3) by (auto simp: placed_def)
  note f = fill_bucket [OF assms(1) probe_less [OF assms(2)] i(2) assms(4) p]
  show "tab_inv cap t'" "map_of (entries t') = (map_of (entries t))(k \<mapsto> v)"
    "length (entries t') = Suc (length (entries t))"
    using f by (simp_all add: t')
qed

lemma rehash_Some:
  assumes "rehash bs t cap = Some t'" "tab_inv cap t" "0 < cap"
    and "distinct (map fst (entries bs @ entries t))"
    and "\<forall>k \<in> fst ` set (entries bs). cut_key k = k"
  shows "tab_inv cap t' \<and> map_of (entries t') = map_of (entries t) ++ map_of (entries bs) \<and>
    length (entries t') = length (entries t) + length (entries bs)"
  using assms
proof (induction bs arbitrary: t)
  case Nil
  then show ?case by simp
next
  case (Cons b bs)
  show ?case
  proof (cases "bkey b")
    case None
    then show ?thesis using Cons by (simp add: entry_def)
  next
    case (Some k)
    with Cons.prems(1) obtain t1 where t1: "table_put t cap k (bvalue b) = Some t1"
        "rehash bs t1 cap = Some t'" by (auto split: option.splits)
    have k: "cut_key k = k" "k \<notin> fst ` set (entries t)" "k \<notin> fst ` set (entries bs)"
      using Cons.prems(4,5) Some by (auto simp: entry_def)
    note p = table_put_Some [OF Cons.prems(2,3) k(1,2) t1(1)]
    have "fst ` set (entries t1) = insert k (fst ` set (entries t))"
      using p(2) by (metis dom_fun_upd dom_map_of_conv_image_fst option.distinct(1))
    then have "distinct (map fst (entries bs @ entries t1))"
      using Cons.prems(4) k(3) p(1) Some by (auto simp: entry_def tab_inv_def)
    then have IH: "tab_inv cap t'" "map_of (entries t') = map_of (entries t1) ++ map_of (entries bs)"
        "length (entries t') = length (entries t1) + length (entries bs)"
      using Cons.IH [OF t1(2) p(1) Cons.prems(3)] Cons.prems(5) by auto
    have "map_of (entries bs) k = None" using k(3) by (simp add: map_of_eq_None_iff)
    then have maps: "map_of (entries t1) ++ map_of (entries bs) =
        map_of (entries t) ++ map_of (entries (b # bs))"
      using p(2) Some by (auto simp: entry_def map_add_def fun_eq_iff split: option.splits)
    have "map_of (entries t') = map_of (entries t) ++ map_of (entries (b # bs))"
      by (simp only: IH(2) maps)
    moreover have "length (entries t') = length (entries t) + length (entries (b # bs))"
      using IH(3) p(3) Some by (simp add: entry_def)
    ultimately show ?thesis
      using IH(1) by blast
  qed
qed

lemma ht_inv_keys:
  assumes "ht_inv ht" "k \<in> fst ` set (entries (ht_table ht))"
  shows "cut_key k = k"
proof -
  obtain j where j: "j < length (ht_table ht)" "bkey (ht_table ht ! j) = Some k"
    using assms(2) by (auto simp: in_keys_iff)
  then have "placed (ht_cap ht) (ht_table ht ! j) j"
    using assms(1) by (simp add: ht_inv_def tab_inv_def)
  then show ?thesis using j(2) by (simp add: placed_def)
qed

lemma tab_inv_empty: "tab_inv n (replicate n empty_bucket)"
  by (simp add: tab_inv_def placed_def empty_bucket_def flip: empty_bucket_def)
    (simp add: empty_bucket_def)

text \<open>Growing the table keeps the invariant and the map.\<close>

lemma htable_resize_inv:
  assumes "htable_resize ht cap = Some ht'" "ht_inv ht" "probe_window \<le> cap"
  shows "ht_inv ht' \<and> ht_abs ht' = ht_abs ht \<and> ht_len ht' = ht_len ht \<and> probe_window \<le> ht_cap ht'"
  using assms
proof (induction ht cap rule: htable_resize.induct)
  case (1 ht cap)
  show ?case
  proof (cases "cap \<le> ht_cap ht")
    case True
    with "1.prems" show ?thesis by (simp add: htable_resize.simps)
  next
    case False
    with "1.prems"(1) obtain nc where nc:
      "double_until (if ht_cap ht \<noteq> 0 then ht_cap ht else 1) cap = Some nc" "calloc_ok nc"
      by (auto simp: htable_resize.simps [of ht cap] split: option.splits if_splits)
    have le: "probe_window \<le> nc"
      using double_until_ge [OF nc(1)] "1.prems"(3) by linarith
    show ?thesis
    proof (cases "rehash (ht_table ht) (replicate nc empty_bucket) nc")
      case None
      have dbl: "umul nc 2 = nc * 2"
        using nc(2) by (intro umul_small) (simp add: calloc_ok_def)
      have "htable_resize ht (umul nc 2) = Some ht'"
        using "1.prems" False nc None by (simp add: htable_resize.simps [of ht cap])
      then show ?thesis
        using "1.IH" [OF False nc(1) _ None] nc(2) le "1.prems"(2) dbl by simp
    next
      case (Some t')
      have ht': "ht' = ht\<lparr>ht_cap := nc, ht_table := t'\<rparr>"
        using "1.prems"(1) False nc Some by (simp add: htable_resize.simps [of ht cap])
      have "tab_inv nc t' \<and> map_of (entries t') = map_of [] ++ map_of (entries (ht_table ht)) \<and>
          length (entries t') = length (entries (ht_table ht))"
        using rehash_Some [OF Some tab_inv_empty] le "1.prems"(2) ht_inv_keys [OF "1.prems"(2)]
        by (simp add: probe_window_def ht_inv_def tab_inv_def)
      then show ?thesis
        using "1.prems"(2) nc(2) le by (auto simp: ht' ht_inv_def ht_abs_def)
    qed
  qed
qed

lemma htable_resize_window:
  assumes "ht_inv ht"
  shows "\<exists>ht'. htable_resize ht probe_window = Some ht'"
proof (cases "ht_cap ht = 0")
  case True
  then have "ht_table ht = []" using assms by (simp add: ht_inv_def tab_inv_def)
  moreover have "double_until 1 8 = Some 8"
    by (simp add: double_until_def double_loop_numeral umul_def)
  ultimately show ?thesis
    using True by (simp add: htable_resize.simps [of ht] probe_window_def calloc_ok_def)
next
  case False
  then show ?thesis
    using assms by (simp add: htable_resize.simps [of ht] ht_inv_def)
qed


lemma with_window:
  assumes "ht_inv ht"
  obtains h where "htable_resize ht probe_window = Some h" "ht_inv h" "ht_abs h = ht_abs ht"
    "ht_len h = ht_len ht" "0 < ht_cap h"
proof -
  obtain h where h: "htable_resize ht probe_window = Some h"
    using htable_resize_window [OF assms] by blast
  from htable_resize_inv [OF h assms] that [OF h] show thesis
    by (auto simp: probe_window_def)
qed

section \<open>The operations on the map\<close>

text \<open>The map after the keys equal to \<open>k\<close> (up to the length limit) are set to \<open>x\<close>.\<close>

definition key_upd :: "(string \<Rightarrow> u64 option) \<Rightarrow> string \<Rightarrow> u64 option \<Rightarrow> string \<Rightarrow> u64 option" where
  "key_upd m k x = (\<lambda>j. if cut_key j = cut_key k then x else m j)"

lemma ht_abs_upd:
  assumes "map_of (entries t') = (map_of (entries (ht_table ht)))(cut_key k := x)"
    and "ht_table ht' = t'"
  shows "ht_abs ht' = key_upd (ht_abs ht) k x"
  using assms by (auto simp: ht_abs_def key_upd_def fun_eq_iff)

lemma length_entries_le: "length (entries t) \<le> length t"
  by (induction t) (auto simp: entry_def split: option.splits)

lemma ht_len_small: "ht_inv ht \<Longrightarrow> ht_len ht < 18446744073709551615"
  using length_entries_le [of "ht_table ht"] by (simp add: ht_inv_def tab_inv_def calloc_ok_def)

lemma htable_get_spec:
  assumes "ht_inv ht"
  shows "\<exists>r ht'. htable_get ht k = Some (r, ht') \<and> ht_inv ht' \<and> ht_abs ht' = ht_abs ht \<and>
    ok r = (ht_abs ht k \<noteq> None) \<and> (ok r \<longrightarrow> ht_abs ht k = Some (rvalue r))"
proof -
  from with_window [OF assms] obtain h where h: "htable_resize ht probe_window = Some h"
    "ht_inv h" "ht_abs h = ht_abs ht" "0 < ht_cap h" by metis
  then show ?thesis
    using find_bucket_abs [OF h(2,4), of k] by (auto simp: htable_get_def split: option.splits)
qed

lemma htable_get_len:
  assumes "ht_inv ht" "htable_get ht k = Some (r, ht')"
  shows "ht_len ht' = ht_len ht"
proof -
  from with_window [OF assms(1)] obtain h where "htable_resize ht probe_window = Some h" "ht_len h = ht_len ht" by metis
  then show ?thesis using assms(2) by (auto simp: htable_get_def split: option.splits)
qed

lemma htable_xchg_spec:
  assumes "ht_inv ht"
  shows "\<exists>r ht'. htable_xchg ht k v = Some (r, ht') \<and> ht_inv ht' \<and>
    (case ht_abs ht k of
       None \<Rightarrow> \<not> ok r \<and> ht_abs ht' = ht_abs ht
     | Some w \<Rightarrow> ok r \<and> rvalue r = w \<and> ht_abs ht' = key_upd (ht_abs ht) k (Some v))"
proof -
  from with_window [OF assms] obtain h where h: "htable_resize ht probe_window = Some h"
    "ht_inv h" "ht_abs h = ht_abs ht" "0 < ht_cap h" by metis
  show ?thesis
  proof (cases "find_bucket h k")
    case None
    then show ?thesis
      using h find_bucket_abs [OF h(2,4), of k] by (simp add: htable_xchg_def)
  next
    case (Some b)
    note b = find_bucket_Some [OF h(2,4) Some]
    have t: "tab_inv (ht_cap h) (ht_table h)" using h(2) by (simp add: ht_inv_def)
    note c = change_bucket [OF t b, of v]
    let ?h = "h\<lparr>ht_table := (ht_table h)[b := (ht_table h ! b)\<lparr>bvalue := v\<rparr>]\<rparr>"
    have "ht_inv ?h" using h(2) c by (simp add: ht_inv_def)
    moreover have "ht_abs ?h = key_upd (ht_abs h) k (Some v)"
      by (rule ht_abs_upd [OF c(2)]) simp
    ultimately show ?thesis
      using Some h find_bucket_abs [OF h(2,4), of k] by (simp add: htable_xchg_def)
  qed
qed

lemma htable_del_spec:
  assumes "ht_inv ht"
  shows "\<exists>r ht'. htable_del ht k = Some (r, ht') \<and> ht_inv ht' \<and>
    (case ht_abs ht k of
       None \<Rightarrow> \<not> ok r \<and> ht_abs ht' = ht_abs ht \<and> ht_len ht' = ht_len ht
     | Some w \<Rightarrow> ok r \<and> rvalue r = w \<and> ht_abs ht' = key_upd (ht_abs ht) k None \<and>
         Suc (ht_len ht') = ht_len ht)"
proof -
  from with_window [OF assms] obtain h where h: "htable_resize ht probe_window = Some h"
    "ht_inv h" "ht_abs h = ht_abs ht" "ht_len h = ht_len ht" "0 < ht_cap h" by metis
  show ?thesis
  proof (cases "find_bucket h k")
    case None
    then show ?thesis
      using h find_bucket_abs [OF h(2,5), of k] by (simp add: htable_del_def)
  next
    case (Some b)
    note b = find_bucket_Some [OF h(2,5) Some]
    have t: "tab_inv (ht_cap h) (ht_table h)" using h(2) by (simp add: ht_inv_def)
    note c = clear_bucket [OF t b]
    let ?h = "h\<lparr>ht_len := usub (ht_len h) 1,
      ht_table := (ht_table h)[b := (ht_table h ! b)\<lparr>bkey := None\<rparr>]\<rparr>"
    have len: "Suc (usub (ht_len h) 1) = ht_len h"
      using c(3) h(2) ht_len_small [OF h(2)] by (simp add: ht_inv_def usub_small)
    have "ht_inv ?h" using h(2) c len by (simp add: ht_inv_def)
    moreover have "ht_abs ?h = key_upd (ht_abs h) k None"
      by (rule ht_abs_upd [OF c(2)]) simp
    ultimately show ?thesis
      using Some h len find_bucket_abs [OF h(2,5), of k] by (simp add: htable_del_def)
  qed
qed

text \<open>One round of \<open>htable_put\<close> on a table that has buckets.\<close>

lemma htable_put_here:
  fixes v :: u64
  assumes "ht_inv h" "0 < ht_cap h" "find_bucket h k = None" "find_empty h k = Some b"
  defines "h' \<equiv> h\<lparr>ht_len := uadd (ht_len h) 1, ht_table := (ht_table h)
      [b := \<lparr>bkey = Some (strndup k htable_key_max_len), bvalue = v\<rparr>]\<rparr>"
  shows "ht_inv h' \<and> ht_abs h' = key_upd (ht_abs h) k (Some v) \<and> ht_len h' = Suc (ht_len h)"
proof -
  note e = find_empty_Some [OF assms(2,4)]
  have t: "tab_inv (ht_cap h) (ht_table h)" using assms(1) by (simp add: ht_inv_def)
  note f = fill_bucket [OF t e(1,2) find_bucket_None [OF assms(1,3)] e(3), of v]
  have len: "ht_len h' = Suc (ht_len h)"
    using ht_len_small [OF assms(1)] by (simp add: h'_def uadd_small)
  moreover have "ht_inv h'"
    using assms(1) f len by (simp add: ht_inv_def h'_def strndup_def flip: cut_key_def)
  moreover have "ht_abs h' = key_upd (ht_abs h) k (Some v)"
    by (rule ht_abs_upd [OF f(2)]) (simp add: h'_def strndup_def flip: cut_key_def)
  ultimately show ?thesis by blast
qed

lemma htable_put_spec:
  assumes "htable_put ht k v = Some (r, ht')" "ht_inv ht"
  shows "ht_inv ht' \<and>
    (case ht_abs ht k of
       None \<Rightarrow> ok r \<and> ht_abs ht' = key_upd (ht_abs ht) k (Some v) \<and> ht_len ht' = Suc (ht_len ht)
     | Some w \<Rightarrow> \<not> ok r \<and> rvalue r = w \<and> ht_abs ht' = ht_abs ht \<and> ht_len ht' = ht_len ht)"
  using assms
proof (induction ht k v rule: htable_put.induct)
  case (1 ht k v)
  from with_window [OF "1.prems"(2)] obtain h where h: "htable_resize ht probe_window = Some h"
    "ht_inv h" "ht_abs h = ht_abs ht" "ht_len h = ht_len ht" "0 < ht_cap h" by metis
  note put = htable_put.simps [of ht k v]
  show ?case
  proof (cases "find_bucket h k")
    case (Some b)
    then show ?thesis
      using "1.prems"(1) h find_bucket_abs [OF h(2,5), of k] by (auto simp: put)
  next
    case nb: None
    then have none: "ht_abs ht k = None"
      using find_bucket_abs [OF h(2,5), of k] h(3) by simp
    show ?thesis
    proof (cases "find_empty h k")
      case (Some b)
      then show ?thesis
        using "1.prems"(1) h nb none htable_put_here [OF h(2,5) nb Some, of v] by (auto simp: put)
    next
      case ne: None
      with "1.prems"(1) h(1) nb obtain h2 where h2: "calloc_ok (ht_cap h)"
          "htable_resize h (umul (ht_cap h) 2) = Some h2" "htable_put h2 k v = Some (r, ht')"
        by (auto simp: put split: option.splits if_splits)
      have "umul (ht_cap h) 2 = ht_cap h * 2"
        using h2(1) by (intro umul_small) (simp add: calloc_ok_def)
      then have "probe_window \<le> umul (ht_cap h) 2"
        using h(2,5) by (auto simp: ht_inv_def)
      from htable_resize_inv [OF h2(2) h(2) this]
      have r: "ht_inv h2" "ht_abs h2 = ht_abs ht" "ht_len h2 = ht_len ht"
        using h(3,4) by simp_all
      show ?thesis
        using "1.IH" [OF h(1) nb ne _ h2(2) h2(3) r(1)] h2(1)
        unfolding r(2,3) by simp
    qed
  qed
qed


text \<open>Where the window has room or holds the key, \<open>htable_put\<close> returns at once.\<close>

lemma htable_put_returns:
  assumes "ht_inv ht" "probe_window \<le> ht_cap ht"
    and "find_bucket ht k \<noteq> None \<or> find_empty ht k \<noteq> None"
  shows "\<exists>r ht'. htable_put ht k v = Some (r, ht')"
proof -
  have "htable_resize ht probe_window = Some ht"
    using assms(2) by (simp add: htable_resize.simps [of ht probe_window])
  then show ?thesis
    using assms(3) by (auto simp: htable_put.simps [of ht k v] split: option.splits)
qed

lemma htable_put_first:
  assumes "ht_inv ht" "ht_len ht = 0"
  shows "\<exists>r ht'. htable_put ht k v = Some (r, ht')"
proof -
  from with_window [OF assms(1)] obtain h where h: "htable_resize ht probe_window = Some h"
    "ht_inv h" "ht_len h = ht_len ht" "0 < ht_cap h" by metis
  have "ht_len h = 0"
    using assms h(3) by (simp add: ht_inv_def tab_inv_def)
  then have "entries (ht_table h) = []" using h(2) by (simp add: ht_inv_def)
  have free: "bkey (ht_table h ! j) = None" if "j < ht_cap h" for j
  proof (rule ccontr)
    assume "bkey (ht_table h ! j) \<noteq> None"
    then obtain k where "bkey (ht_table h ! j) = Some k" by blast
    then have "k \<in> fst ` set (entries (ht_table h))"
      using that h(2) by (auto simp: in_keys_iff ht_inv_def tab_inv_def)
    with \<open>entries (ht_table h) = []\<close> show False by simp
  qed
  have "find_empty h k \<noteq> None"
    using free h(4) by (auto simp: find_empty_def Let_def find_None_iff probe_window_def intro: exI [of _ 0])
  then show ?thesis
    using h(1) by (auto simp: htable_put.simps [of ht k v] split: option.splits)
qed

section \<open>The interface of the table\<close>

text \<open>
  What the clients of the table (the key table of an optics instance, the value table of a
  poll, the headers of a response) rely on. \<open>norm\<close> cuts a key to what the table looks at.
\<close>

locale kv_table =
  fixes inv :: "'t \<Rightarrow> bool" and view :: "'t \<Rightarrow> string \<Rightarrow> u64 option"
    and norm :: "string \<Rightarrow> string"
    and get :: "'t \<Rightarrow> string \<Rightarrow> (htable_ret \<times> 't) option"
    and put :: "'t \<Rightarrow> string \<Rightarrow> u64 \<Rightarrow> (htable_ret \<times> 't) option"
    and xchg :: "'t \<Rightarrow> string \<Rightarrow> u64 \<Rightarrow> (htable_ret \<times> 't) option"
    and del :: "'t \<Rightarrow> string \<Rightarrow> (htable_ret \<times> 't) option"
  assumes view_norm: "norm j = norm k \<Longrightarrow> view t j = view t k"
    and get_law: "inv t \<Longrightarrow> \<exists>r t'. get t k = Some (r, t') \<and> inv t' \<and> view t' = view t \<and>
      ok r = (view t k \<noteq> None) \<and> (ok r \<longrightarrow> view t k = Some (rvalue r))"
    and put_new: "inv t \<Longrightarrow> put t k v = Some (r, t') \<Longrightarrow> view t k = None \<Longrightarrow>
      inv t' \<and> ok r \<and> (\<forall>j. view t' j = (if norm j = norm k then Some v else view t j))"
    and put_old: "inv t \<Longrightarrow> put t k v = Some (r, t') \<Longrightarrow> view t k = Some w \<Longrightarrow>
      inv t' \<and> \<not> ok r \<and> rvalue r = w \<and> view t' = view t"
    and xchg_old: "inv t \<Longrightarrow> view t k = Some w \<Longrightarrow> \<exists>r t'. xchg t k v = Some (r, t') \<and> inv t' \<and>
      ok r \<and> rvalue r = w \<and> (\<forall>j. view t' j = (if norm j = norm k then Some v else view t j))"
    and del_old: "inv t \<Longrightarrow> view t k = Some w \<Longrightarrow> \<exists>r t'. del t k = Some (r, t') \<and> inv t' \<and>
      ok r \<and> rvalue r = w \<and> (\<forall>j. view t' j = (if norm j = norm k then None else view t j))"
    and del_none: "inv t \<Longrightarrow> view t k = None \<Longrightarrow> \<exists>r t'. del t k = Some (r, t') \<and> inv t' \<and>
      \<not> ok r \<and> view t' = view t"
begin

lemma put_inv: "inv t \<Longrightarrow> put t k v = Some (r, t') \<Longrightarrow> inv t'"
  using put_new put_old by (cases "view t k") blast+

lemma put_ok_iff: "inv t \<Longrightarrow> put t k v = Some (r, t') \<Longrightarrow> ok r \<longleftrightarrow> view t k = None"
  using put_new put_old by (cases "view t k") blast+

lemma put_get:
  assumes "inv t" "put t k v = Some (r, t')" "ok r"
  obtains r' t'' where "get t' j = Some (r', t'')" "inv t''"
    "ok r' = (norm j = norm k \<or> view t j \<noteq> None)"
    "ok r' \<longrightarrow> rvalue r' = (if norm j = norm k then v else the (view t j))"
proof -
  have "view t k = None" using assms put_ok_iff by blast
  from put_new [OF assms(1,2) this] have "inv t'"
    and v: "view t' j = (if norm j = norm k then Some v else view t j)" by auto
  from get_law [OF this(1), of j] obtain r' t'' where "get t' j = Some (r', t'')" "inv t''"
    "ok r' = (view t' j \<noteq> None)" "ok r' \<longrightarrow> view t' j = Some (rvalue r')" by blast
  then show thesis
    using v by (intro that [of r' t'']) (auto split: if_splits)
qed

lemma del_get:
  assumes "inv t" "del t k = Some (r, t')"
  obtains r' t'' where "get t' j = Some (r', t'')" "inv t''"
    "ok r' = (norm j \<noteq> norm k \<and> view t j \<noteq> None)"
    "ok r' \<longrightarrow> rvalue r' = the (view t j)"
proof -
  have "inv t' \<and> view t' j = (if norm j = norm k then None else view t j)"
  proof (cases "view t k")
    case None
    from del_none [OF assms(1) None] obtain r0 t0 where "del t k = Some (r0, t0)" "inv t0"
      "view t0 = view t" by blast
    then have "inv t'" "view t' = view t"
      using assms(2) by simp_all
    moreover have "view t j = None" if "norm j = norm k"
      using view_norm [OF that] None by simp
    ultimately show ?thesis by simp
  next
    case (Some w)
    from del_old [OF assms(1) Some] obtain r0 t0 where "del t k = Some (r0, t0)" "inv t0"
      "\<forall>j. view t0 j = (if norm j = norm k then None else view t j)" by blast
    then show ?thesis
      using assms(2) by simp
  qed
  then have "inv t'" and v: "view t' j = (if norm j = norm k then None else view t j)" by auto
  from get_law [OF this(1), of j] obtain r' t'' where "get t' j = Some (r', t'')" "inv t''"
    "ok r' = (view t' j \<noteq> None)" "ok r' \<longrightarrow> view t' j = Some (rvalue r')" by blast
  then show thesis
    using v by (intro that [of r' t'']) (auto split: if_splits)
qed

end

interpretation ht: kv_table ht_inv ht_abs cut_key htable_get htable_put htable_xchg htable_del
proof (unfold_locales, goal_cases)
  case 1
  then show ?case by (simp add: ht_abs_def)
next
  case 2
  then show ?case by (rule htable_get_spec)
next
  case (3 t k v r t')
  then show ?case using htable_put_spec [OF "3"(2,1)] by (simp add: key_upd_def)
next
  case (4 t k v r t' w)
  then show ?case using htable_put_spec [OF "4"(2,1)] by simp
next
  case (5 t k w v)
  then show ?case using htable_xchg_spec [OF "5"(1), of k v] by (auto simp: key_upd_def)
next
  case (6 t k w)
  then show ?case using htable_del_spec [OF "6"(1), of k] by (auto simp: key_upd_def)
next
  case (7 t k)
  then show ?case using htable_del_spec [OF "7"(1), of k] by auto
qed

section \<open>Iteration\<close>

lemma htable_next_upt:
  "filter (\<lambda>i. bkey (ht_table ht ! i) \<noteq> None) [n..<ht_cap ht] =
     (case find (\<lambda>i. bkey (ht_table ht ! i) \<noteq> None) [n..<ht_cap ht] of
        None \<Rightarrow> []
      | Some i \<Rightarrow> i # filter (\<lambda>i. bkey (ht_table ht ! i) \<noteq> None) [Suc i..<ht_cap ht])"
proof (induction "ht_cap ht - n" arbitrary: n)
  case 0
  then show ?case by simp
next
  case (Suc d)
  then have "n < ht_cap ht" by linarith
  then show ?case
    using Suc.hyps(1) [of "Suc n"] Suc.hyps(2) by (simp add: upt_conv_Cons)
qed

lemma htable_walk_filter:
  assumes "ht_cap ht = length (ht_table ht)"
  shows "htable_walk ht b =
    filter (\<lambda>i. bkey (ht_table ht ! i) \<noteq> None)
      [(case b of None \<Rightarrow> 0 | Some i \<Rightarrow> Suc i)..<ht_cap ht]"
  using assms
proof (induction ht b rule: htable_walk.induct)
  case (1 ht b)
  show ?case
  proof (cases "htable_next ht b")
    case None
    then show ?thesis
      using "1.prems" by (subst htable_next_upt)
        (auto simp: htable_walk.simps [of ht b] htable_next_def split: if_splits)
  next
    case (Some i)
    then show ?thesis
      using "1.IH" [OF Some "1.prems"] "1.prems" by (subst htable_next_upt)
        (simp add: htable_walk.simps [of ht b], simp add: htable_next_def split: if_splits)
  qed
qed

lemma entries_filter:
  "entries t = map (\<lambda>i. (the (bkey (t ! i)), bvalue (t ! i)))
     (filter (\<lambda>i. bkey (t ! i) \<noteq> None) [0..<length t])"
proof (induction t rule: rev_induct)
  case (snoc b t)
  have "map (\<lambda>i. (the (bkey ((t @ [b]) ! i)), bvalue ((t @ [b]) ! i)))
      (filter (\<lambda>i. bkey ((t @ [b]) ! i) \<noteq> None) [0..<length t]) = entries t"
    unfolding snoc by (rule map_cong) (auto intro: filter_cong simp: nth_append)
  then show ?case
    by (auto simp: entries_def entry_def split: option.splits)
qed simp


section \<open>Properties\<close>

text \<open>
  C8: \<open>htable_put\<close> implements insertion into a map without overwriting. Whenever it returns,
  the table is well formed; a key that was absent is added with its value, every other key
  keeps its value and the length grows by one; a key that was present keeps its old value,
  which is reported, and nothing changes. Keys are identified up to 1024 characters.
\<close>

theorem htable_put_refines_map:
  assumes "ht_inv ht" and "htable_put ht k v = Some (r, ht')"
  shows "ht_inv ht' \<and>
    (case ht_abs ht k of
       None \<Rightarrow> ok r \<and> ht_len ht' = Suc (ht_len ht) \<and>
         (\<forall>j. ht_abs ht' j = (if cut_key j = cut_key k then Some v else ht_abs ht j))
     | Some w \<Rightarrow> \<not> ok r \<and> rvalue r = w \<and> ht_abs ht' = ht_abs ht \<and> ht_len ht' = ht_len ht)"
  using htable_put_spec [OF assms(2,1)] by (simp add: key_upd_def split: option.splits)

text \<open>
  C9: \<open>htable_del\<close> always returns and implements deletion from a map: a present key is
  removed, its value is reported and the length shrinks by one; every other key keeps its
  value, although deletion leaves a hole inside probe windows; an absent key changes nothing.
\<close>

theorem htable_del_refines_map:
  assumes "ht_inv ht"
  shows "\<exists>r ht'. htable_del ht k = Some (r, ht') \<and> ht_inv ht' \<and>
    (case ht_abs ht k of
       None \<Rightarrow> \<not> ok r \<and> ht_abs ht' = ht_abs ht \<and> ht_len ht' = ht_len ht
     | Some w \<Rightarrow> ok r \<and> rvalue r = w \<and> Suc (ht_len ht') = ht_len ht \<and>
         (\<forall>j. ht_abs ht' j = (if cut_key j = cut_key k then None else ht_abs ht j)))"
  using htable_del_spec [OF assms, of k] by (auto simp: key_upd_def split: option.splits)

text \<open>
  Insert/lookup round trip. After a successful \<open>htable_put\<close>, \<open>htable_get\<close> returns for
  every key: the inserted value for that key, the old answer for every other key.
\<close>

theorem htable_put_get_roundtrip:
  assumes "ht_inv ht" and "htable_put ht k v = Some (r, ht1)" and "ok r"
  shows "\<exists>r' ht2. htable_get ht1 j = Some (r', ht2) \<and> ht_inv ht2 \<and>
    ok r' = (cut_key j = cut_key k \<or> ht_abs ht j \<noteq> None) \<and>
    (ok r' \<longrightarrow> rvalue r' = (if cut_key j = cut_key k then v else the (ht_abs ht j)))"
  by (rule ht.put_get [OF assms, of j]) blast

lemma htable_walk_all:
  assumes "ht_inv ht"
  shows "map (\<lambda>i. (the (bkey (ht_table ht ! i)), bvalue (ht_table ht ! i))) (htable_walk ht None) =
           entries (ht_table ht) \<and>
         distinct (map fst (entries (ht_table ht))) \<and>
         (\<forall>k. ht_abs ht k = map_of (entries (ht_table ht)) (cut_key k))"
proof -
  have len: "ht_cap ht = length (ht_table ht)"
    using assms by (simp add: ht_inv_def tab_inv_def)
  then show ?thesis
    using assms htable_walk_filter [OF len, of None] entries_filter [of "ht_table ht"]
    by (simp add: ht_inv_def tab_inv_def ht_abs_def)
qed

text \<open>
  The iterator visits every entry of the table exactly once, in table order, and only
  entries.
\<close>

theorem htable_walk_entries:
  assumes "ht_inv ht"
  shows "map (\<lambda>i. (the (bkey (ht_table ht ! i)), bvalue (ht_table ht ! i))) (htable_walk ht None) =
           entries (ht_table ht) \<and>
         distinct (map fst (entries (ht_table ht))) \<and>
         (\<forall>k. ht_abs ht k = map_of (entries (ht_table ht)) (cut_key k))"
  by (rule htable_walk_all [OF assms])

subsection \<open>Witnesses\<close>

lemma ht_inv_empty: "ht_inv empty_htable"
  by (simp add: ht_inv_def tab_inv_def empty_htable_def calloc_ok_def)

lemma ht_abs_empty: "ht_abs empty_htable k = None"
  by (simp add: ht_abs_def empty_htable_def)

lemma put_empty:
  obtains r ht' where "htable_put empty_htable k v = Some (r, ht')" "ok r" "ht_inv ht'"
    "ht_abs ht' k = Some v"
proof -
  obtain r ht' where p: "htable_put empty_htable k v = Some (r, ht')"
    using htable_put_first [OF ht_inv_empty, of k v] by (auto simp: empty_htable_def)
  from htable_put_spec [OF p ht_inv_empty] that [OF p] show thesis
    by (simp add: ht_abs_empty key_upd_def)
qed

theorem htable_put_refines_map_witness:
  "\<exists>r ht'. htable_put empty_htable ''lens'' 704 = Some (r, ht') \<and> ht_inv ht' \<and> ok r \<and>
     ht_len ht' = 1 \<and> ht_abs ht' ''lens'' = Some 704 \<and> ht_abs ht' ''other'' = None"
proof -
  obtain r ht' where p: "htable_put empty_htable ''lens'' 704 = Some (r, ht')"
    by (rule put_empty)
  from htable_put_refines_map [OF ht_inv_empty p] p show ?thesis
    by (simp add: ht_abs_empty cut_key_def htable_key_max_len_def) (simp add: empty_htable_def)
qed

theorem htable_del_refines_map_witness:
  "\<exists>ht1 r ht2. ht_abs ht1 ''lens'' = Some 704 \<and> htable_del ht1 ''lens'' = Some (r, ht2) \<and>
     ok r \<and> rvalue r = 704 \<and> ht_abs ht2 ''lens'' = None"
proof -
  obtain r ht1 where p: "ht_inv ht1" "ht_abs ht1 ''lens'' = Some 704"
    by (rule put_empty)
  from htable_del_refines_map [OF p(1), of "''lens''"] p(2) show ?thesis
    by auto
qed

theorem htable_put_get_roundtrip_witness:
  "\<exists>r ht1 r' ht2. htable_put empty_htable ''lens'' 704 = Some (r, ht1) \<and>
     htable_get ht1 ''lens'' = Some (r', ht2) \<and> ok r' \<and> rvalue r' = 704"
proof -
  obtain r ht1 where p: "htable_put empty_htable ''lens'' 704 = Some (r, ht1)" "ok r"
    by (rule put_empty)
  from htable_put_get_roundtrip [OF ht_inv_empty p, of "''lens''"] p(1) show ?thesis
    by auto
qed

theorem htable_walk_entries_witness:
  "\<exists>ht. ht_abs ht ''lens'' = Some 704 \<and>
     map (\<lambda>i. (the (bkey (ht_table ht ! i)), bvalue (ht_table ht ! i))) (htable_walk ht None) =
       entries (ht_table ht)"
proof -
  obtain r ht where p: "ht_inv ht" "ht_abs ht ''lens'' = Some 704"
    by (rule put_empty)
  from htable_walk_entries [OF p(1)] p(2) show ?thesis by blast
qed

end
