(* ===== verification/Key.thy ===== *)
theory Key
  imports Prelude
begin

text \<open>
  The dotted keys of \<^verbatim>\<open>src/utils/key.c\<close>: a fixed array of 256 characters and a length, to
  which components are pushed and from which they are popped. The array is a list of
  characters; \<open>key_str\<close> is the string it holds and \<open>key_inv\<close> says that the length is the
  position of its terminating nil.
\<close>

section \<open>Definitions\<close>

definition optics_name_max_len :: nat where
  "optics_name_max_len = 256"

record optics_key =
  klen :: nat
  kdata :: string

text \<open>The key \<^verbatim>\<open>{0}\<close>.\<close>

definition zero_key :: optics_key where
  "zero_key = \<lparr>klen = 0, kdata = replicate optics_name_max_len nil_char\<rparr>"

text \<open>
  \<^verbatim>\<open>strlcpy(data + pos, src, n)\<close>: at most \<open>n - 1\<close> characters and a nil, nothing when
  \<open>n\<close> is 0. It returns the length of \<open>src\<close>.
\<close>

definition strlcpy :: "string \<Rightarrow> nat \<Rightarrow> string \<Rightarrow> nat \<Rightarrow> string" where
  "strlcpy data pos src n =
     (if n = 0 then data
      else
        (let s = take (n - 1) src in
         take pos data @ s @ nil_char # drop (Suc (pos + length s)) data))"

definition optics_key_push :: "optics_key \<Rightarrow> string \<Rightarrow> (nat \<times> optics_key) option" where
  "optics_key_push key suffix =
     (let old = klen key in
      if klen key + 1 = optics_name_max_len then Some (old, key)
      else
        (let key1 = (if klen key \<noteq> 0
                     then key\<lparr>kdata := (kdata key)[klen key := CHR ''.''], klen := klen key + 1\<rparr>
                     else key);
             data = strlcpy (kdata key1) (klen key1) suffix (optics_name_max_len - klen key1);
             len = klen key1 + length suffix;
             len' = (if optics_name_max_len \<le> len then optics_name_max_len - 1 else len)
         in if data ! len' = nil_char then Some (old, \<lparr>klen = len', kdata = data\<rparr>) else None))"

text \<open>
  \<^verbatim>\<open>optics_key_pushf\<close>: \<open>text\<close> is what the format and its arguments expand to;
  \<^verbatim>\<open>vsnprintf\<close> keeps the first 255 characters.
\<close>

definition optics_key_pushf :: "optics_key \<Rightarrow> string \<Rightarrow> (nat \<times> optics_key) option" where
  "optics_key_pushf key text = optics_key_push key (take (optics_name_max_len - 1) text)"

definition optics_key_pop :: "optics_key \<Rightarrow> nat \<Rightarrow> optics_key option" where
  "optics_key_pop key pos =
     (if pos \<le> klen key
      then Some (key\<lparr>klen := pos, kdata := (kdata key)[pos := nil_char]\<rparr>)
      else None)"

section \<open>The string of a key\<close>

definition key_str :: "optics_key \<Rightarrow> string" where
  "key_str key = take (klen key) (kdata key)"

definition key_inv :: "optics_key \<Rightarrow> bool" where
  "key_inv key \<longleftrightarrow> length (kdata key) = 256 \<and> klen key < 256 \<and>
     kdata key ! klen key = nil_char \<and> cstring (key_str key)"

text \<open>Components are joined with a dot, except onto an empty key.\<close>

definition dotted :: "string \<Rightarrow> string \<Rightarrow> string" where
  "dotted a b = (if a = [] then b else a @ ''.'' @ b)"

lemma key_inv_zero [simp]: "key_inv zero_key" "key_str zero_key = []"
  by (simp_all add: key_inv_def key_str_def zero_key_def optics_name_max_len_def)

lemma length_key_str: "key_inv key \<Longrightarrow> length (key_str key) = klen key"
  by (simp add: key_inv_def key_str_def)

lemma strlcpy_room:
  fixes src :: string
  assumes "length data = 256" "pos < 256"
  defines "s \<equiv> take (255 - pos) src"
  shows "length (strlcpy data pos src (256 - pos)) = 256"
    and "take (pos + length s) (strlcpy data pos src (256 - pos)) = take pos data @ s"
    and "strlcpy data pos src (256 - pos) ! (pos + length s) = nil_char"
  using assms by (auto simp: strlcpy_def Let_def nth_append min_def)

text \<open>
  A push onto a well-formed key returns the old length and leaves a well-formed key that
  holds the joined string, cut to 255 characters.
\<close>

lemma optics_key_push_spec:
  assumes "key_inv key" "cstring suffix"
  obtains key' where "optics_key_push key suffix = Some (klen key, key')" "key_inv key'"
    "key_str key' = take 255 (dotted (key_str key) suffix)" "klen key \<le> klen key'"
    "take (klen key) (kdata key') = key_str key"
proof (cases "klen key = 255")
  case True
  then have "length (key_str key) = 255" using length_key_str [OF assms(1)] by simp
  moreover from this have "key_str key \<noteq> []" by force
  ultimately have "take 255 (dotted (key_str key) suffix) = key_str key"
    by (simp add: dotted_def)
  then show thesis
    using that [of key] assms(1) True
    by (simp add: optics_key_push_def optics_name_max_len_def) (simp add: key_str_def)
next
  case False
  have len: "length (kdata key) = 256" "klen key < 255"
    using assms(1) False by (auto simp: key_inv_def)
  define data where "data = (if klen key \<noteq> 0 then (kdata key)[klen key := CHR ''.''] else kdata key)"
  define pos where "pos = (if klen key \<noteq> 0 then klen key + 1 else 0)"
  define s where "s = take (255 - pos) suffix"
  let ?d = "strlcpy data pos suffix (256 - pos)"
  let ?key = "\<lparr>klen = pos + length s, kdata = ?d\<rparr>"
  have d: "length data = 256" "pos < 256" using len by (simp_all add: data_def pos_def)
  have head: "take pos data @ s = take 255 (dotted (key_str key) suffix)"
    using len by (auto simp: data_def pos_def s_def dotted_def key_str_def take_Suc_conv_app_nth
        min_def take_Cons' Suc_diff_Suc)
  note r = strlcpy_room [OF d, of suffix, folded s_def]
  have len': "(if 256 \<le> pos + length suffix then 255 else pos + length suffix) = pos + length s"
    using d(2) by (auto simp: s_def min_def)
  show thesis
  proof (rule that [of ?key])
    have "optics_key_push key suffix =
        (let l = if 256 \<le> pos + length suffix then 255 else pos + length suffix in
         if ?d ! l = nil_char then Some (klen key, \<lparr>klen = l, kdata = ?d\<rparr>) else None)"
      using False by (simp add: optics_key_push_def optics_name_max_len_def Let_def data_def pos_def)
    then show "optics_key_push key suffix = Some (klen key, ?key)"
      unfolding len' Let_def by (simp add: r(3))
    show str: "key_str ?key = take 255 (dotted (key_str key) suffix)"
      using r(2) head by (simp add: key_str_def)
    have "cstring (dotted (key_str key) suffix)"
      using assms by (simp add: dotted_def key_inv_def cstring_def nil_char_def)
    then show "key_inv ?key"
      using r(1,3) d(2) str by (simp add: key_inv_def s_def)
    show "klen key \<le> klen ?key" by (simp add: pos_def)
    have "take (klen key) (take (pos + length s) ?d) = key_str key"
      unfolding r(2) using len by (auto simp: pos_def data_def key_str_def)
    then show "take (klen key) (kdata ?key) = key_str key"
      by (simp add: pos_def min_def split: if_splits)
  qed
qed

lemma optics_key_pop_spec:
  assumes "key_inv key" "pos \<le> klen key"
  obtains key' where "optics_key_pop key pos = Some key'" "key_inv key'"
    "key_str key' = take pos (key_str key)"
proof (rule that)
  show "optics_key_pop key pos = Some (key\<lparr>klen := pos, kdata := (kdata key)[pos := nil_char]\<rparr>)"
    using assms by (simp add: optics_key_pop_def)
qed (use assms in \<open>auto simp: key_inv_def key_str_def min_def dest: cstring_take [of _ pos]\<close>)

text \<open>
  Pushing a component onto a well-formed key never trips the assertion on the
  terminator, never leaves the 256-byte array, and gives the old string joined to the
  component by a dot (no dot on an empty key), cut to 255 characters; popping back to the
  returned position restores the old string.
\<close>

theorem optics_key_push_pop:
  assumes "key_inv key" and "cstring suffix"
  shows "\<exists>old key' key''. optics_key_push key suffix = Some (old, key') \<and> key_inv key' \<and>
    key_str key' = take 255 (dotted (key_str key) suffix) \<and>
    optics_key_pop key' old = Some key'' \<and> key_inv key'' \<and> key_str key'' = key_str key"
proof (rule optics_key_push_spec [OF assms])
  fix key' assume k: "optics_key_push key suffix = Some (klen key, key')" "key_inv key'"
    "key_str key' = take 255 (dotted (key_str key) suffix)" "klen key \<le> klen key'"
    "take (klen key) (kdata key') = key_str key"
  from optics_key_pop_spec [OF k(2,4)] obtain key'' where
    "optics_key_pop key' (klen key) = Some key''" "key_inv key''"
    "key_str key'' = take (klen key) (key_str key')" .
  moreover have "take (klen key) (key_str key') = key_str key"
    using k(4,5) by (simp add: key_str_def min_absorb1)
  ultimately show ?thesis using k by auto
qed

theorem optics_key_push_pop_witness:
  "\<exists>old key' key''. optics_key_push zero_key ''host'' = Some (old, key') \<and> key_inv key' \<and>
    key_str key' = ''host'' \<and> optics_key_pop key' old = Some key'' \<and> key_str key'' = []"
proof -
  have "cstring ''host''" by (simp add: cstring_def nil_char_def)
  from optics_key_push_pop [OF key_inv_zero(1) this] show ?thesis
    by (auto simp: dotted_def)
qed

end
