(* ===== verification/Store.thy ===== *)
theory Store
  imports Alloc Htable Key
begin

text \<open>
  The shared store of \<^verbatim>\<open>src/optics.c\<close> below the lenses: the region with its header, opening
  and closing it, allocation, freeing deferred to a later epoch, and the epoch itself; and
  the walk over the regions of the machine, \<^verbatim>\<open>src/utils/shm.c\<close>.

  \<open>optics\<close> is \<^verbatim>\<open>struct optics\<close> together with what its region holds: \<open>oheap\<close> gathers the
  region, the allocator of the header and the bytes past the header; \<open>header\<close> the other fields
  of \<^verbatim>\<open>struct optics_header\<close>.
\<close>

section \<open>Definitions\<close>

definition optics_magic :: nat where
  "optics_magic = 0x044b33f12afe7de0"

definition optics_version :: nat where
  "optics_version = 2"

text \<open>
  \<^verbatim>\<open>sizeof(struct optics_header)\<close>: 7 words, the prefix, and the allocator with its lock and
  21 classes of two words. \<^verbatim>\<open>sizeof(struct optics_defer)\<close>: 3 words.
\<close>

definition sizeof_header :: nat where
  "sizeof_header = 7 * 8 + 256 + (8 + 21 * 16)"

definition sizeof_defer :: nat where
  "sizeof_defer = 24"

record optics_header =
  magic :: nat
  version :: nat
  epoch :: nat
  epoch_last_inc :: nat
  epoch_defers :: "off list"
  lens_head :: off
  prefix :: string

record optics =
  oheap :: heap
  header :: optics_header
  olock :: slock
  okeys :: htable

definition zero_header :: optics_header where
  "zero_header = \<lparr>magic = 0, version = 0, epoch = 0, epoch_last_inc = 0, epoch_defers = [0, 0],
     lens_head = 0, prefix = []\<rparr>"

subsection \<open>Opening and closing\<close>

definition optics_set_prefix :: "optics_header \<Rightarrow> string \<Rightarrow> bool \<times> optics_header" where
  "optics_set_prefix hdr p =
     (if strnlen p optics_name_max_len = optics_name_max_len then (False, hdr)
      else (True, hdr\<lparr>prefix := p\<rparr>))"

definition optics_get_prefix :: "optics \<Rightarrow> string" where
  "optics_get_prefix o' = prefix (header o')"

text \<open>
  The file of a new region is all zeroes. \<open>None\<close> inside the pair is the \<^verbatim>\<open>NULL\<close> the code
  returns on failure.
\<close>

definition optics_create_at :: "sys \<Rightarrow> os \<Rightarrow> string \<Rightarrow> nat \<Rightarrow> (optics option \<times> os) option" where
  "optics_create_at sys os0 name now =
     (case region_create sys os0 name sizeof_header of
        None \<Rightarrow> None
      | Some ((False, r), os) \<Rightarrow> Some (None, os)
      | Some ((True, r), os) \<Rightarrow>
          (let fail = map_option (\<lambda>(_, os'). (None, os')) (region_close sys os r) in
           case region_ptr_unsafe r 0 sizeof_header of
             None \<Rightarrow> fail
           | Some _ \<Rightarrow>
               (case optics_set_prefix (zero_header\<lparr>magic := optics_magic, version := optics_version\<rparr>) name of
                  (False, hdr) \<Rightarrow> fail
                | (True, hdr) \<Rightarrow>
                    Some (Some \<lparr>oheap = \<lparr>al = alloc_init, rg = r, hm = (\<lambda>_. 0), hos = os\<rparr>,
                            header = hdr\<lparr>epoch_last_inc := now\<rparr>, olock = 0, okeys = empty_htable\<rparr>,
                          os))))"

text \<open>\<open>clock_wall\<close> is 0 when the clock cannot be read (\<^verbatim>\<open>src/utils/time.c\<close>).\<close>

definition clock_wall :: "nat option \<Rightarrow> nat" where
  "clock_wall tv_sec = (case tv_sec of Some s \<Rightarrow> s | None \<Rightarrow> 0)"

definition optics_create :: "sys \<Rightarrow> os \<Rightarrow> string \<Rightarrow> nat option \<Rightarrow> (optics option \<times> os) option" where
  "optics_create sys os name tv_sec = optics_create_at sys os name (clock_wall tv_sec)"

text \<open>\<open>files\<close> is what the files of the machine hold: header, allocator and bytes.\<close>

definition optics_open ::
  "sys \<Rightarrow> os \<Rightarrow> (nat \<Rightarrow> optics_header \<times> alloc \<times> mem) \<Rightarrow> string \<Rightarrow> (optics option \<times> os) option" where
  "optics_open sys os files name =
     (case region_open sys os name of
        (False, r) \<Rightarrow> Some (None, os)
      | (True, r) \<Rightarrow>
          (let fail = map_option (\<lambda>(_, os'). (None, os')) (region_close sys os r) in
           case region_ptr r 0 sizeof_header of
             None \<Rightarrow> fail
           | Some _ \<Rightarrow>
               (case files (fd r) of
                  (hdr, a, m) \<Rightarrow>
                    if magic hdr \<noteq> optics_magic then fail
                    else if version hdr \<noteq> optics_version then fail
                    else Some (Some \<lparr>oheap = \<lparr>al = a, rg = r, hm = m, hos = os\<rparr>, header = hdr,
                                 olock = 0, okeys = empty_htable\<rparr>, os))))"

definition optics_close :: "sys \<Rightarrow> optics \<Rightarrow> os option" where
  "optics_close sys o' =
     (if \<not> fst (slock_try_lock (olock o')) then None
      else
        (let o1 = o'\<lparr>okeys := htable_reset (okeys o')\<rparr> in
         map_option snd (region_close sys (hos (oheap o1)) (rg (oheap o1)))))"

definition optics_unlink :: "os \<Rightarrow> string \<Rightarrow> bool \<times> os" where
  "optics_unlink os name = region_unlink os name"

datatype shm_ret = shm_ok | shm_break | shm_err

text \<open>
  The loop of \<^verbatim>\<open>shm_foreach\<close> over the entries of the directory. Its variable \<^verbatim>\<open>ret\<close> has no
  initial value: the result is \<open>None\<close> when no entry has the prefix.
\<close>

fun shm_loop :: "string list \<Rightarrow> ('c \<Rightarrow> string \<Rightarrow> shm_ret \<times> 'c) \<Rightarrow> shm_ret option \<Rightarrow> 'c \<Rightarrow>
    shm_ret option \<times> 'c" where
  "shm_loop [] cb ret ctx = (ret, ctx)"
| "shm_loop (name # names) cb ret ctx =
     (if take 7 name \<noteq> ''optics.'' then shm_loop names cb ret ctx
      else
        (case cb ctx (drop 7 name) of
           (r, ctx') \<Rightarrow> if r \<noteq> shm_ok then (Some r, ctx') else shm_loop names cb (Some r) ctx'))"

definition shm_foreach :: "os \<Rightarrow> 'c \<Rightarrow> ('c \<Rightarrow> string \<Rightarrow> shm_ret \<times> 'c) \<Rightarrow> shm_ret option \<times> 'c" where
  "shm_foreach os ctx cb = shm_loop (map fst (os_dir os)) cb None ctx"

definition optics_unlink_all_cb :: "os \<Rightarrow> string \<Rightarrow> shm_ret \<times> os" where
  "optics_unlink_all_cb os name = (shm_break, snd (optics_unlink os name))"

definition optics_unlink_all :: "os \<Rightarrow> bool option \<times> os" where
  "optics_unlink_all os =
     (case shm_foreach os os optics_unlink_all_cb of
        (ret, os') \<Rightarrow> (map_option (\<lambda>r. r \<noteq> shm_err) ret, os'))"

subsection \<open>Allocation\<close>

definition optics_ptr :: "optics \<Rightarrow> off \<Rightarrow> nat \<Rightarrow> off option" where
  "optics_ptr o' off len = region_ptr (rg (oheap o')) off len"

definition optics_alloc :: "sys \<Rightarrow> optics \<Rightarrow> nat \<Rightarrow> (off \<times> optics) option" where
  "optics_alloc sys o' len =
     map_option (\<lambda>(off, h). (off, o'\<lparr>oheap := h\<rparr>)) (alloc_alloc sys (oheap o') len)"

definition optics_free :: "optics \<Rightarrow> off \<Rightarrow> nat \<Rightarrow> optics option" where
  "optics_free o' off len = map_option (\<lambda>h. o'\<lparr>oheap := h\<rparr>) (alloc_free (oheap o') off len)"

text \<open>Reading and writing the bytes of the region.\<close>

abbreviation bytes :: "optics \<Rightarrow> mem" where
  "bytes o' \<equiv> hm (oheap o')"

definition set_bytes :: "optics \<Rightarrow> mem \<Rightarrow> optics" where
  "set_bytes o' m = o'\<lparr>oheap := (oheap o')\<lparr>hm := m\<rparr>\<rparr>"

definition optics_epoch :: "optics \<Rightarrow> nat" where
  "optics_epoch o' = epoch (header o') mod 2"

definition optics_defer_free :: "sys \<Rightarrow> optics \<Rightarrow> off \<Rightarrow> nat \<Rightarrow> (bool \<times> optics) option" where
  "optics_defer_free sys o' off len =
     (case optics_alloc sys o' sizeof_defer of
        None \<Rightarrow> None
      | Some (node, o1) \<Rightarrow>
          if node = 0 then Some (False, o1)
          else
            (case optics_ptr o1 node sizeof_defer of
               None \<Rightarrow> Some (False, o1)
             | Some pnode \<Rightarrow>
                 (let e = optics_epoch o1;
                      old = epoch_defers (header o1) ! e;
                      m1 = store64 (bytes o1) pnode off;
                      m2 = store64 m1 (pnode + 8) len;
                      m3 = store64 m2 (pnode + 16) old
                  in Some (True, (set_bytes o1 m3)
                       \<lparr>header := (header o1)\<lparr>epoch_defers := (epoch_defers (header o1))[e := node]\<rparr>\<rparr>))))"

text \<open>
  The loop of \<^verbatim>\<open>optics_free_defered\<close>. It follows links in memory, so whether it ends depends
  on them.
\<close>

partial_function (option) free_defered_loop :: "optics \<Rightarrow> off \<Rightarrow> optics option" where
  "free_defered_loop o' node =
     (if node = 0 then Some o'
      else
        (case optics_ptr o' node sizeof_defer of
           None \<Rightarrow> Some o'
         | Some pnode \<Rightarrow>
             Option.bind (optics_free o' (load64 (bytes o') pnode) (load64 (bytes o') (pnode + 8)))
               (\<lambda>o1. let next = load64 (bytes o1) (pnode + 16) in
                  Option.bind (optics_free o1 node sizeof_defer) (\<lambda>o2. free_defered_loop o2 next))))"

definition optics_free_defered :: "optics \<Rightarrow> nat \<Rightarrow> optics option" where
  "optics_free_defered o' e =
     (let node = epoch_defers (header o') ! e in
      free_defered_loop
        (o'\<lparr>header := (header o')\<lparr>epoch_defers := (epoch_defers (header o'))[e := 0]\<rparr>\<rparr>) node)"

definition optics_epoch_inc :: "optics \<Rightarrow> (nat \<times> optics) option" where
  "optics_epoch_inc o' =
     (case optics_free_defered o' (1 - optics_epoch o') of
        None \<Rightarrow> None
      | Some o1 \<Rightarrow>
          Some (epoch (header o1) mod 2, o1\<lparr>header := (header o1)\<lparr>epoch := uadd (epoch (header o1)) 1\<rparr>\<rparr>))"

definition optics_epoch_inc_at :: "optics \<Rightarrow> nat \<Rightarrow> (nat \<times> nat \<times> optics) option" where
  "optics_epoch_inc_at o' now =
     (let last_inc = epoch_last_inc (header o') in
      map_option (\<lambda>(e, o1). (e, last_inc, o1))
        (optics_epoch_inc (o'\<lparr>header := (header o')\<lparr>epoch_last_inc := now\<rparr>\<rparr>)))"

section \<open>The invariant of the store\<close>

text \<open>
  A list of deferred frees: the node, and the offset and length it will free.
\<close>

type_synonym deferred = "off \<times> off \<times> nat"

fun dchain :: "mem \<Rightarrow> off \<Rightarrow> deferred list \<Rightarrow> bool" where
  "dchain m p [] \<longleftrightarrow> p = 0"
| "dchain m p ((n, x, l) # ds) \<longleftrightarrow> p = n \<and> n \<noteq> 0 \<and> load64 m n = x \<and> load64 m (n + 8) = l \<and>
     l \<le> 4096 \<and> dchain m (load64 m (n + 16)) ds"

definition node_block :: "off \<Rightarrow> off \<times> nat" where
  "node_block n = (n, class_of sizeof_defer)"

definition dblocks :: "deferred list \<Rightarrow> (off \<times> nat) list" where
  "dblocks ds = concat (map (\<lambda>(n, x, l). [(x, class_of l), node_block n]) ds)"

text \<open>
  \<open>store_rel o' D X\<close>: the deferred frees of epoch \<open>e\<close> are \<open>D e\<close>, and the live blocks are theirs
  and the blocks \<open>X\<close> that something else owns, all different.
\<close>

definition store_rel :: "optics \<Rightarrow> (nat \<Rightarrow> deferred list) \<Rightarrow> (off \<times> nat) set \<Rightarrow> bool" where
  "store_rel o' D X \<longleftrightarrow> length (epoch_defers (header o')) = 2 \<and>
     (\<forall>e < 2. dchain (bytes o') (epoch_defers (header o') ! e) (D e)) \<and>
     distinct (dblocks (D 0 @ D 1)) \<and> set (dblocks (D 0 @ D 1)) \<inter> X = {} \<and>
     heap_inv (oheap o') (set (dblocks (D 0 @ D 1)) \<union> X)"

text \<open>The bytes of the blocks \<open>B\<close> are the same.\<close>

definition keeps :: "(off \<times> nat) set \<Rightarrow> optics \<Rightarrow> optics \<Rightarrow> bool" where
  "keeps B o1 o2 \<longleftrightarrow> (\<forall>b \<in> B. \<forall>y \<in> block_bytes b. bytes o2 y = bytes o1 y)"

lemma keeps_refl [simp]: "keeps B o1 o1"
  by (simp add: keeps_def)

lemma keeps_trans: "keeps B o1 o2 \<Longrightarrow> keeps B o2 o3 \<Longrightarrow> keeps B o1 o3"
  by (simp add: keeps_def)

lemma keeps_subset: "keeps B o1 o2 \<Longrightarrow> B' \<subseteq> B \<Longrightarrow> keeps B' o1 o2"
  by (auto simp: keeps_def)

lemma dblocks_simps [simp]:
  "dblocks [] = []" "dblocks ((n, x, l) # ds) = (x, class_of l) # node_block n # dblocks ds"
  "dblocks (ds @ es) = dblocks ds @ dblocks es"
  by (simp_all add: dblocks_def)

lemma class_of_defer [simp]: "class_of sizeof_defer = 2"
  by (simp add: class_of_def alloc_class_of_def alloc_config ceil_div_def uadd_def umul_def sizeof_defer_def)

lemma sizeof_defer_le [simp]: "sizeof_defer \<le> 4096" "sizeof_defer \<le> 32"
  by (simp_all add: sizeof_defer_def)

lemma class_len_2 [simp]: "class_len 2 = 32"
  by (simp add: class_len_def)

lemma node_bytes: "y \<in> block_bytes (node_block n) \<longleftrightarrow> n \<le> y \<and> y < n + 32"
  by (simp add: node_block_def block_bytes_def)

lemma dchain_frame:
  assumes "dchain m p ds" "\<And>n y. node_block n \<in> set (dblocks ds) \<Longrightarrow> n \<le> y \<Longrightarrow> y < n + 32 \<Longrightarrow> m' y = m y"
  shows "dchain m' p ds"
  using assms
proof (induction ds arbitrary: p)
  case (Cons d ds)
  obtain n x l where d: "d = (n, x, l)" by (cases d) auto
  have "load64 m' (n + k) = load64 m (n + k)" if "k \<le> 16" for k
    using that by (intro load_cong Cons.prems(2) [of n]) (simp_all add: d)
  note same = this [of 0] this [of 8] this [of 16]
  have "dchain m' (load64 m (n + 16)) ds"
  proof (rule Cons.IH)
    show "dchain m (load64 m (n + 16)) ds" using Cons.prems(1) by (simp add: d)
    show "m' y = m y" if "node_block k \<in> set (dblocks ds)" "k \<le> y" "y < k + 32" for k y
      using that by (intro Cons.prems(2) [of k]) (simp_all add: d)
  qed
  then show ?case using Cons.prems(1) same by (simp add: d)
qed simp

section \<open>Allocation on the store\<close>

lemma optics_alloc_cases:
  assumes "heap_inv (oheap o') L" "len \<le> 4096" "sys_amd64 sys"
  obtains
    (fail) h where "optics_alloc sys o' len = Some (0, o'\<lparr>oheap := h\<rparr>)" "heap_inv h L" "hm h = bytes o'"
      "rg h = rg (oheap o')" "vma_len (rg (oheap o')) < pos (rg (oheap o')) + 65536"
  | (ok) off h where "optics_alloc sys o' len = Some (off, o'\<lparr>oheap := h\<rparr>)"
      "allocates (oheap o') L (class_of len) off h"
  using assms(1,2,3) class_of_eq(1,2) [OF assms(2)]
proof (cases rule: alloc_alloc_total)
  case (fail h')
  then show thesis by (intro that(1) [of h']) (simp_all add: optics_alloc_def)
next
  case (ok h' off)
  then show thesis by (intro that(2) [of off h']) (simp_all add: optics_alloc_def)
qed

lemma optics_free_total:
  assumes "heap_inv (oheap o') L" "(x, class_of len) \<in> L" "len \<le> 4096"
  obtains h where "optics_free o' x len = Some (o'\<lparr>oheap := h\<rparr>)" "heap_inv h (L - {(x, class_of len)})"
    "rg h = rg (oheap o')" "\<And>y. y \<notin> block_bytes (x, class_of len) \<Longrightarrow> hm h y = bytes o' y"
  using assms(1) class_of_eq(1) [OF assms(3)] assms(2,3)
proof (cases rule: alloc_free_total)
  case (1 h')
  then show thesis by (intro that [of h']) (simp_all add: optics_free_def)
qed

lemma set_bytes_simps [simp]:
  "bytes (set_bytes o' m) = m" "header (set_bytes o' m) = header o'" "rg (oheap (set_bytes o' m)) = rg (oheap o')"
  "okeys (set_bytes o' m) = okeys o'" "olock (set_bytes o' m) = olock o'"
  "hos (oheap (set_bytes o' m)) = hos (oheap o')" "al (oheap (set_bytes o' m)) = al (oheap o')"
  by (simp_all add: set_bytes_def)

lemma heap_inv_set_bytes:
  assumes "heap_inv (oheap o') L" "b \<in> L" "\<And>y. y \<notin> block_bytes b \<Longrightarrow> m y = bytes o' y"
  shows "heap_inv (oheap (set_bytes o' m)) L"
  using heap_inv_write [OF assms] by (simp add: set_bytes_def)

section \<open>Deferred frees\<close>

lemma heap_inv_small: "heap_inv h L \<Longrightarrow> (x, c) \<in> L \<Longrightarrow> x < 18446744073709551616"
  using blocks_okD(4) [OF heap_inv_blocks(1), of h L x c] heap_inv_blocks(2) [of h L] by linarith

lemma dchain_small:
  assumes "dchain m p ds" "heap_inv h L" "set (dblocks ds) \<subseteq> L"
  shows "p < 18446744073709551616"
proof (cases ds)
  case (Cons d ds')
  obtain n x l where d: "d = (n, x, l)" by (cases d) auto
  then have "(p, 2) \<in> L" using assms(1,3) Cons by (simp add: node_block_def)
  then show ?thesis by (rule heap_inv_small [OF assms(2)])
qed (use assms in simp)

lemma free_defered_loop_frees:
  assumes "dchain (bytes o') p ds" "distinct (dblocks ds)" "set (dblocks ds) \<inter> Y = {}"
    and "heap_inv (oheap o') (set (dblocks ds) \<union> Y)"
  shows "\<exists>h. free_defered_loop o' p = Some (o'\<lparr>oheap := h\<rparr>) \<and> heap_inv h Y \<and> rg h = rg (oheap o') \<and>
     (\<forall>b \<in> Y. \<forall>y \<in> block_bytes b. hm h y = bytes o' y)"
  using assms
proof (induction ds arbitrary: o' p)
  case Nil
  then show ?case
    by (subst free_defered_loop.simps) (auto intro!: exI [of _ "oheap o'"])
next
  case (Cons d ds)
  obtain n x l where d: "d = (n, x, l)" by (cases d) auto
  let ?b = "(x, class_of l)" and ?n = "node_block n" and ?L = "set (dblocks (d # ds)) \<union> Y"
  have c: "p = n" "n \<noteq> 0" "load64 (bytes o') n = x" "load64 (bytes o') (n + 8) = l" "l \<le> 4096"
      "dchain (bytes o') (load64 (bytes o') (n + 16)) ds"
    using Cons.prems(1) by (simp_all add: d)
  have inL: "?b \<in> ?L" "?n \<in> ?L" "?b \<noteq> ?n" "?b \<notin> set (dblocks ds) \<union> Y" "?n \<notin> set (dblocks ds) \<union> Y"
    using Cons.prems(2,3) by (auto simp: d)
  have ptr: "optics_ptr o' n sizeof_defer = Some n"
    using heap_inv_ptr(1) [OF Cons.prems(4), of n 2 sizeof_defer] inL(2)
    by (simp add: optics_ptr_def node_block_def)
  obtain h1 where h1: "optics_free o' x l = Some (o'\<lparr>oheap := h1\<rparr>)" "heap_inv h1 (?L - {?b})"
      "rg h1 = rg (oheap o')" "\<And>y. y \<notin> block_bytes ?b \<Longrightarrow> hm h1 y = bytes o' y"
    using optics_free_total [OF Cons.prems(4) inL(1) c(5)] by metis
  obtain h2 where h2: "optics_free (o'\<lparr>oheap := h1\<rparr>) n sizeof_defer = Some (o'\<lparr>oheap := h2\<rparr>)"
      "heap_inv h2 (?L - {?b} - {?n})" "rg h2 = rg h1" "\<And>y. y \<notin> block_bytes ?n \<Longrightarrow> hm h2 y = hm h1 y"
    using optics_free_total [of "o'\<lparr>oheap := h1\<rparr>" "?L - {?b}" n sizeof_defer] h1(2) inL(2,3)
    by (auto simp: node_block_def)
  have kept: "hm h2 y = bytes o' y" if "b \<in> set (dblocks ds) \<union> Y" "y \<in> block_bytes b" for b y
  proof -
    have "b \<in> ?L" "b \<noteq> ?b" "b \<noteq> ?n" using that(1) inL(4,5) by (auto simp: d)
    then have "y \<notin> block_bytes ?b" "y \<notin> block_bytes ?n"
      using heap_inv_apart [OF Cons.prems(4) _ inL(1), of b] heap_inv_apart [OF Cons.prems(4) _ inL(2), of b]
        that(2) by auto
    then show ?thesis using h1(4) h2(4) by simp
  qed
  have next_eq: "load64 (hm h1) (n + 16) = load64 (bytes o') (n + 16)"
  proof (rule load_cong)
    fix y assume "n + 16 \<le> y" "y < n + 16 + 8"
    then have "y \<in> block_bytes ?n" by (simp add: node_bytes)
    then have "y \<notin> block_bytes ?b"
      using heap_inv_apart [OF Cons.prems(4) inL(1,2,3)] by auto
    then show "hm h1 y = bytes o' y" by (rule h1(4))
  qed
  have L': "?L - {?b} - {?n} = set (dblocks ds) \<union> Y" using inL by (auto simp: d)
  have "dchain (hm h2) (load64 (bytes o') (n + 16)) ds"
    by (rule dchain_frame [OF c(6)], rule kept) (auto simp: node_bytes)
  then obtain h where h: "free_defered_loop (o'\<lparr>oheap := h2\<rparr>) (load64 (bytes o') (n + 16)) = Some (o'\<lparr>oheap := h\<rparr>)"
      "heap_inv h Y" "rg h = rg h2" "\<forall>b \<in> Y. \<forall>y \<in> block_bytes b. hm h y = hm h2 y"
    using Cons.IH [of "o'\<lparr>oheap := h2\<rparr>" "load64 (bytes o') (n + 16)"] Cons.prems(2,3) h2(2) L'
    by (auto simp: d)
  have "free_defered_loop o' p = Some (o'\<lparr>oheap := h\<rparr>)"
    using c ptr h1(1) h2(1) h(1) next_eq by (subst free_defered_loop.simps) simp
  moreover have "\<forall>b \<in> Y. \<forall>y \<in> block_bytes b. hm h2 y = bytes o' y" using kept by blast
  ultimately show ?case using h h1(3) h2(3) by (intro exI [of _ h]) simp
qed

lemma epoch_two: "optics_epoch o' = 0 \<or> optics_epoch o' = 1"
  by (auto simp: optics_epoch_def)

lemma store_relD:
  assumes "store_rel o' D X"
  shows "length (epoch_defers (header o')) = 2" "e < 2 \<Longrightarrow> dchain (bytes o') (epoch_defers (header o') ! e) (D e)"
    "distinct (dblocks (D 0 @ D 1))" "set (dblocks (D 0 @ D 1)) \<inter> X = {}"
    "heap_inv (oheap o') (set (dblocks (D 0 @ D 1)) \<union> X)"
  using assms by (simp_all add: store_rel_def)

lemma dblocks_pair:
  fixes D :: "nat \<Rightarrow> deferred list"
  assumes "e < 2"
  shows "set (dblocks (D 0 @ D 1)) = set (dblocks (D e)) \<union> set (dblocks (D (1 - e)))"
    and "distinct (dblocks (D 0 @ D 1)) \<longleftrightarrow> distinct (dblocks (D e)) \<and> distinct (dblocks (D (1 - e))) \<and>
      set (dblocks (D e)) \<inter> set (dblocks (D (1 - e))) = {}"
  using assms by (auto simp: less_2_cases_iff)

lemma store_relI:
  assumes "length (epoch_defers (header o')) = 2" "e < 2"
    and "dchain (bytes o') (epoch_defers (header o') ! e) (D e)"
    and "dchain (bytes o') (epoch_defers (header o') ! (1 - e)) (D (1 - e))"
    and "distinct (dblocks (D e))" "distinct (dblocks (D (1 - e)))"
      "set (dblocks (D e)) \<inter> set (dblocks (D (1 - e))) = {}"
    and "(set (dblocks (D e)) \<union> set (dblocks (D (1 - e)))) \<inter> X = {}"
    and "heap_inv (oheap o') (set (dblocks (D e)) \<union> set (dblocks (D (1 - e))) \<union> X)"
  shows "store_rel o' D X"
proof -
  have "dchain (bytes o') (epoch_defers (header o') ! i) (D i)" if "i < 2" for i
    using assms(2-4) that by (cases "i = e") (auto simp: less_2_cases_iff)
  then show ?thesis
    using assms dblocks_pair [OF assms(2), of D] by (simp add: store_rel_def)
qed

definition set_defer :: "optics \<Rightarrow> nat \<Rightarrow> off \<Rightarrow> optics" where
  "set_defer o' e n = o'\<lparr>header := (header o')\<lparr>epoch_defers := (epoch_defers (header o'))[e := n]\<rparr>\<rparr>"

lemma set_defer_simps [simp]:
  "oheap (set_defer o' e n) = oheap o'" "okeys (set_defer o' e n) = okeys o'"
  "olock (set_defer o' e n) = olock o'" "epoch (header (set_defer o' e n)) = epoch (header o')"
  "lens_head (header (set_defer o' e n)) = lens_head (header o')"
  "epoch_last_inc (header (set_defer o' e n)) = epoch_last_inc (header o')"
  "prefix (header (set_defer o' e n)) = prefix (header o')"
  "epoch_defers (header (set_defer o' e n)) = (epoch_defers (header o'))[e := n]"
  by (simp_all add: set_defer_def)

lemma optics_free_defered_total:
  assumes "store_rel o' D X" "e < 2"
  obtains h where "optics_free_defered o' e = Some ((set_defer o' e 0)\<lparr>oheap := h\<rparr>)"
    "store_rel ((set_defer o' e 0)\<lparr>oheap := h\<rparr>) (D(e := [])) X"
    "rg h = rg (oheap o')"
    "\<forall>b \<in> set (dblocks (D (1 - e))) \<union> X. \<forall>y \<in> block_bytes b. hm h y = bytes o' y"
proof -
  note S = store_relD [OF assms(1)]
  note P = dblocks_pair [OF assms(2), of D]
  let ?Y = "set (dblocks (D (1 - e))) \<union> X"
  let ?o1 = "set_defer o' e 0"
  have ne: "1 - e \<noteq> e" "1 - e < 2" using assms(2) by (auto simp: less_2_cases_iff)
  obtain h where h: "free_defered_loop ?o1 (epoch_defers (header o') ! e) = Some (?o1\<lparr>oheap := h\<rparr>)"
      "heap_inv h ?Y" "rg h = rg (oheap o')" "\<forall>b \<in> ?Y. \<forall>y \<in> block_bytes b. hm h y = bytes o' y"
  proof -
    have "set (dblocks (D 0 @ D 1)) \<union> X = set (dblocks (D e)) \<union> ?Y" unfolding P(1) by blast
    then have "heap_inv (oheap ?o1) (set (dblocks (D e)) \<union> ?Y)" using S(5) by simp
    moreover have "set (dblocks (D e)) \<inter> ?Y = {}" "distinct (dblocks (D e))"
      using S(3,4) unfolding P by blast+
    ultimately show thesis
      using free_defered_loop_frees [of ?o1 "epoch_defers (header o') ! e" "D e" ?Y] S(2) [OF assms(2)] that
      by auto
  qed
  have "dchain (hm h) (epoch_defers (header o') ! (1 - e)) (D (1 - e))"
    by (rule dchain_frame [OF S(2) [OF ne(2)]]) (use h(4) node_bytes in blast)
  then have "store_rel (?o1\<lparr>oheap := h\<rparr>) (D(e := [])) X"
    using S P ne h(2) assms(2) by (intro store_relI [of _ e]) auto
  then show thesis
    using h by (intro that [of h]) (simp_all add: optics_free_defered_def set_defer_def)
qed

lemma optics_defer_free_cases:
  assumes "store_rel o' D X" "(x, class_of l) \<in> X" "l \<le> 4096" "sys_amd64 sys"
  defines "e \<equiv> optics_epoch o'"
  obtains
    (fail) h where "optics_defer_free sys o' x l = Some (False, o'\<lparr>oheap := h\<rparr>)"
      "store_rel (o'\<lparr>oheap := h\<rparr>) D X" "hm h = bytes o'"
      "vma_len (rg (oheap o')) < pos (rg (oheap o')) + 65536"
  | (ok) n h where "optics_defer_free sys o' x l = Some (True, (set_defer o' e n)\<lparr>oheap := h\<rparr>)"
      "store_rel ((set_defer o' e n)\<lparr>oheap := h\<rparr>) (D(e := (n, x, l) # D e)) (X - {(x, class_of l)})"
      "\<forall>b \<in> X. \<forall>y \<in> block_bytes b. hm h y = bytes o' y"
proof -
  note S = store_relD [OF assms(1)]
  have e: "e < 2" "1 - e \<noteq> e" "1 - e < 2" using epoch_two [of o'] by (auto simp: e_def)
  note P = dblocks_pair [OF e(1), of D]
  let ?L = "set (dblocks (D 0 @ D 1)) \<union> X"
  from S(5) sizeof_defer_le(1) assms(4) show thesis
  proof (cases rule: optics_alloc_cases)
    case (fail h)
    then have "store_rel (o'\<lparr>oheap := h\<rparr>) D X" using assms(1) by (simp add: store_rel_def)
    then show thesis
      using fail by (intro that(1) [of h]) (simp_all add: optics_defer_free_def)
  next
    case (ok n h1)
    have A: "n \<noteq> 0" "node_block n \<notin> ?L" "heap_inv h1 (insert (node_block n) ?L)"
        "\<And>b y. b \<in> ?L \<Longrightarrow> y \<in> block_bytes b \<Longrightarrow> hm h1 y = bytes o' y"
      using ok(2) by (auto simp: allocates_def node_block_def)
    let ?old = "epoch_defers (header o') ! e"
    let ?m = "store64 (store64 (store64 (hm h1) n x) (n + 8) l) (n + 16) ?old"
    let ?h = "h1\<lparr>hm := ?m\<rparr>"
    let ?o1 = "(set_defer o' e n)\<lparr>oheap := ?h\<rparr>"
    have ptr: "optics_ptr (o'\<lparr>oheap := h1\<rparr>) n sizeof_defer = Some n"
      using heap_inv_ptr(1) [OF A(3), of n 2 sizeof_defer] by (simp add: optics_ptr_def node_block_def)
    have eq: "optics_defer_free sys o' x l = Some (True, ?o1)"
      using ok(1) ptr A(1)
      by (simp add: optics_defer_free_def Let_def set_bytes_def set_defer_def e_def optics_epoch_def)
    have frame: "?m y = hm h1 y" if "y \<notin> block_bytes (node_block n)" for y
    proof -
      have "y < n \<or> n + 32 \<le> y" using that by (auto simp: node_bytes)
      then show ?thesis by (auto simp: store_frame)
    qed
    have inv: "heap_inv ?h (insert (node_block n) ?L)"
      by (rule heap_inv_write [OF A(3) insertI1 frame])
    have kept: "?m y = bytes o' y" if "b \<in> ?L" "y \<in> block_bytes b" for b y
    proof -
      have "y \<notin> block_bytes (node_block n)"
        using heap_inv_apart [OF A(3), of b "node_block n"] that A(2) by auto
      then show ?thesis using frame A(4) [OF that] by simp
    qed
    have chain: "dchain ?m p ds" if "dchain (bytes o') p ds" "set (dblocks ds) \<subseteq> ?L" for p ds
      by (rule dchain_frame [OF that(1)], rule kept) (use that(2) in \<open>auto simp: node_bytes\<close>)
    have "x < 18446744073709551616"
      using heap_inv_small [OF S(5)] assms(2) by blast
    moreover have "?old < 18446744073709551616"
      using dchain_small [OF S(2) [OF e(1)], of "oheap o'" ?L] S(5) P(1) by auto
    ultimately have "load64 ?m n = x" "load64 ?m (n + 8) = l" "load64 ?m (n + 16) = ?old"
      using assms(3) by (simp_all add: load_store_disjoint)
    then have "dchain ?m n ((n, x, l) # D e)"
      using A(1) assms(3) chain [OF S(2) [OF e(1)]] P(1) by auto
    moreover have "set (dblocks (D e)) \<union> set (dblocks (D (1 - e))) \<subseteq> ?L" using P(1) by blast
    moreover have "insert (x, class_of l) (insert (node_block n) (set (dblocks (D e)))) \<union>
        set (dblocks (D (1 - e))) \<union> (X - {(x, class_of l)}) = insert (node_block n) ?L"
      using P(1) assms(2) by auto
    ultimately have "store_rel ?o1 (D(e := (n, x, l) # D e)) (X - {(x, class_of l)})"
      using S(1,3,4) P A(2) inv assms(2) e chain [OF S(2) [OF e(3)]]
      by (intro store_relI [of _ e]) auto
    then show thesis
      using eq kept by (intro that(2) [of ?h n]) auto
  qed
qed

section \<open>Epochs\<close>

lemma optics_epoch_inc_total:
  assumes "store_rel o' D X"
  defines "e \<equiv> optics_epoch o'"
  obtains o1 where "optics_epoch_inc o' = Some (e, o1)" "store_rel o1 (D(1 - e := [])) X"
    "optics_epoch o1 = 1 - e" "keeps (set (dblocks (D e)) \<union> X) o' o1"
    "lens_head (header o1) = lens_head (header o')" "okeys o1 = okeys o'" "olock o1 = olock o'"
    "epoch_last_inc (header o1) = epoch_last_inc (header o')" "rg (oheap o1) = rg (oheap o')"
proof -
  have e: "e < 2" "1 - e < 2" "1 - (1 - e) = e" using epoch_two [of o'] by (auto simp: e_def)
  from assms(1) e(2) show thesis
  proof (cases rule: optics_free_defered_total)
    case (1 h)
    let ?o1 = "(set_defer o' (1 - e) 0)\<lparr>oheap := h\<rparr>"
    let ?o2 = "?o1\<lparr>header := (header ?o1)\<lparr>epoch := uadd (epoch (header ?o1)) 1\<rparr>\<rparr>"
    have "optics_epoch_inc o' = Some (e, ?o2)"
      using 1(1) by (simp add: optics_epoch_inc_def e_def optics_epoch_def)
    moreover have "store_rel ?o2 (D(1 - e := [])) X"
      using 1(2) by (simp add: store_rel_def)
    moreover have "optics_epoch ?o2 = 1 - e"
      by (simp add: optics_epoch_def e_def uadd_def mod2_eq_if dvd_mod_iff)
    ultimately show thesis
      using 1(3,4) e(3) by (intro that [of ?o2]) (simp_all add: keeps_def)
  qed
qed

text \<open>
  The grace period. A block that is freed with \<open>optics_defer_free\<close> stays allocated, with
  its bytes untouched, through the first epoch change that follows, so that a reader of the
  epoch may still use it. The second epoch change frees it. Neither epoch change can fail to
  return, and neither touches the bytes of a block that is still in use.
\<close>

theorem defer_free_grace_period:
  assumes "store_rel o' D X" "(x, class_of l) \<in> X" "l \<le> 4096" "sys_amd64 sys"
    and "optics_defer_free sys o' x l = Some (True, o1)"
  shows "\<exists>e o2 o3 D2 D3. optics_epoch_inc o1 = Some (e, o2) \<and> optics_epoch_inc o2 = Some (1 - e, o3) \<and>
     store_rel o2 D2 (X - {(x, class_of l)}) \<and> (x, class_of l) \<in> set (dblocks (D2 e)) \<and>
     store_rel o3 D3 (X - {(x, class_of l)}) \<and> D3 e = [] \<and>
     keeps X o' o2 \<and> keeps (X - {(x, class_of l)}) o' o3"
  using assms(1-4)
proof (cases rule: optics_defer_free_cases)
  case (fail h)
  then show ?thesis using assms(5) by simp
next
  case (ok n h)
  let ?e = "optics_epoch o'" and ?b = "(x, class_of l)"
  let ?D1 = "D(?e := (n, x, l) # D ?e)"
  have o1: "o1 = (set_defer o' ?e n)\<lparr>oheap := h\<rparr>" using ok(1) assms(5) by simp
  have e1: "optics_epoch o1 = ?e" by (simp add: o1 optics_epoch_def)
  have k1: "keeps X o' o1" using ok(3) by (simp add: o1 keeps_def)
  obtain o2 where o2: "optics_epoch_inc o1 = Some (?e, o2)" "store_rel o2 (?D1(1 - ?e := [])) (X - {?b})"
      "optics_epoch o2 = 1 - ?e" "keeps (set (dblocks (?D1 ?e)) \<union> (X - {?b})) o1 o2"
    using optics_epoch_inc_total [OF ok(2)] e1 o1 by metis
  obtain o3 where o3: "optics_epoch_inc o2 = Some (1 - ?e, o3)"
      "store_rel o3 ((?D1(1 - ?e := []))(1 - (1 - ?e) := [])) (X - {?b})"
      "keeps (set (dblocks ((?D1(1 - ?e := [])) (1 - ?e))) \<union> (X - {?b})) o2 o3"
    using optics_epoch_inc_total [OF o2(2)] o2(3) by metis
  have "keeps X o' o2"
    by (rule keeps_trans [OF k1], rule keeps_subset [OF o2(4)]) auto
  moreover have "keeps (X - {?b}) o' o3"
    by (rule keeps_trans [OF keeps_subset [OF calculation] keeps_subset [OF o3(3)]]) auto
  ultimately show ?thesis
    using o2(1,2) o3(1,2) epoch_two [of o']
    by (intro exI [of _ ?e] exI [of _ o2] exI [of _ o3] exI [of _ "?D1(1 - ?e := [])"]
        exI [of _ "(?D1(1 - ?e := []))(1 - (1 - ?e) := [])"]) auto
qed

text \<open>A store whose only live blocks are two of 112 and 48 bytes.\<close>

definition two_block_store :: optics where
  "two_block_store = \<lparr>oheap = two_block_heap, header = zero_header, olock = 0, okeys = empty_htable\<rparr>"

lemma two_block_store_rel:
  "store_rel two_block_store (\<lambda>_. []) {(704, class_of 100), (1000, class_of 40)}"
  using two_block_heap_inv by (simp add: store_rel_def two_block_store_def zero_header_def less_2_cases_iff)

theorem defer_free_grace_period_witness:
  "\<exists>o1 e o2 o3. optics_defer_free sys_ok two_block_store 704 100 = Some (True, o1) \<and>
     optics_epoch_inc o1 = Some (e, o2) \<and> optics_epoch_inc o2 = Some (1 - e, o3) \<and>
     keeps {(704, class_of 100), (1000, class_of 40)} two_block_store o2"
proof -
  have b: "(704 :: nat, class_of 100) \<in> {(704, class_of 100), (1000, class_of 40)}" by simp
  have room: "\<not> vma_len (rg (oheap two_block_store)) < pos (rg (oheap two_block_store)) + 65536"
    by (simp add: two_block_store_def two_block_heap_def fresh_region_def zero_region_def region_default_len_def)
  have l: "100 \<le> (4096 :: nat)" by simp
  from two_block_store_rel b l sys_ok_amd64
  obtain o1 where o1: "optics_defer_free sys_ok two_block_store 704 100 = Some (True, o1)"
    by (cases rule: optics_defer_free_cases) (use room in auto)
  show ?thesis
    using defer_free_grace_period [OF two_block_store_rel b l sys_ok_amd64 o1] o1 by auto
qed

section \<open>Creating and opening a store\<close>

lemma sizeof_header_eq: "sizeof_header = 656"
  by (simp add: sizeof_header_def)

lemma align_header: "align 656 cache_line_len = 704"
  by (simp add: align_def ceil_div_def cache_line_len_def uadd_def umul_def)



text \<open>
  \<open>optics_unlink_all\<close> removes one region only. Its callback returns 1, which
  \<open>shm_foreach\<close> takes for a request to stop, so after the first file with the prefix every
  other region is still there, and the call reports success.
\<close>

theorem optics_unlink_all_first_only:
  assumes "os_dir os = (''optics.'' @ a, f) # rest" "length a < 248"
  shows "\<exists>os'. optics_unlink_all os = (Some True, os') \<and>
     (\<forall>k. k \<noteq> ''optics.'' @ a \<longrightarrow> map_of (os_dir os') k = map_of rest k)"
proof -
  have n: "region_shm_name a name_max = Some (''optics.'' @ a)"
    using assms(2) by (simp add: region_shm_name_def name_max_def)
  let ?os' = "snd (region_unlink os a)"
  have "optics_unlink_all os = (Some True, ?os')"
    using assms(1) by (simp add: optics_unlink_all_def shm_foreach_def optics_unlink_all_cb_def optics_unlink_def)
  moreover have "map_of (os_dir ?os') k = map_of rest k" if "k \<noteq> ''optics.'' @ a" for k
    using region_unlink_dir [OF n, of os k] that assms(1) by simp
  ultimately show ?thesis by blast
qed

theorem optics_unlink_all_first_only_witness:
  "\<exists>os'. optics_unlink_all (fresh_os\<lparr>os_dir := [(''optics.a'', 0), (''optics.b'', 1)]\<rparr>) = (Some True, os') \<and>
     map_of (os_dir os') ''optics.b'' = Some 1"
proof -
  let ?os = "fresh_os\<lparr>os_dir := [(''optics.a'', 0), (''optics.b'', 1)]\<rparr>"
  have "os_dir ?os = (''optics.'' @ ''a'', 0) # [(''optics.b'', 1)]" by simp
  from optics_unlink_all_first_only [OF this] obtain os' where "optics_unlink_all ?os = (Some True, os')"
      "\<forall>k. k \<noteq> ''optics.'' @ ''a'' \<longrightarrow> map_of (os_dir os') k = map_of [(''optics.b'', 1)] k"
    by auto
  then show ?thesis by (intro exI [of _ os']) simp
qed

end
