(* ===== verification/Double.thy ===== *)
theory Double
  imports Prelude
begin

text \<open>
  The C type \<^verbatim>\<open>double\<close> as AMD64 has it: IEEE 754 binary64. A value is its bit pattern
  (\<open>double = 64 word\<close>), so the type punning of \<^verbatim>\<open>src/utils/type_pun.h\<close> is the identity on
  patterns. Comparisons look at the patterns as sign and magnitude; arithmetic rounds the
  exact rational result to the nearest value, ties to even. The payload and the sign of a
  NaN that an operation creates are not modelled (one quiet NaN stands for all).
\<close>

type_synonym double = "64 word"

section \<open>Patterns\<close>

definition exponent_bits :: "double \<Rightarrow> nat" where
  "exponent_bits d = unat d div 4503599627370496 mod 2048"

definition fraction_bits :: "double \<Rightarrow> nat" where
  "fraction_bits d = unat d mod 4503599627370496"

definition magnitude :: "double \<Rightarrow> nat" where
  "magnitude d = unat d mod 9223372036854775808"

definition negative :: "double \<Rightarrow> bool" where
  "negative d \<longleftrightarrow> 9223372036854775808 \<le> unat d"

definition inf_magnitude :: nat where
  "inf_magnitude = 9218868437227405312"

definition is_nan :: "double \<Rightarrow> bool" where
  "is_nan d \<longleftrightarrow> inf_magnitude < magnitude d"

definition is_inf :: "double \<Rightarrow> bool" where
  "is_inf d \<longleftrightarrow> magnitude d = inf_magnitude"

definition d_nan :: double where
  "d_nan = 0x7ff8000000000000"

definition d_zero :: double where
  "d_zero = 0"

definition d_one :: double where
  "d_one = 0x3ff0000000000000"

text \<open>The pattern with a sign and a magnitude.\<close>

definition signed_double :: "bool \<Rightarrow> nat \<Rightarrow> double" where
  "signed_double neg mag = of_nat (mag + (if neg then 9223372036854775808 else 0))"

section \<open>Comparison\<close>

text \<open>Patterns are ordered as signed magnitudes; the two zeros are equal; NaN is unordered.\<close>

definition dkey :: "double \<Rightarrow> int" where
  "dkey d = (if negative d then - int (magnitude d) else int (magnitude d))"

definition dlt :: "double \<Rightarrow> double \<Rightarrow> bool" where
  "dlt a b \<longleftrightarrow> \<not> is_nan a \<and> \<not> is_nan b \<and> dkey a < dkey b"

definition dge :: "double \<Rightarrow> double \<Rightarrow> bool" where
  "dge a b \<longleftrightarrow> \<not> is_nan a \<and> \<not> is_nan b \<and> dkey b \<le> dkey a"

definition deq :: "double \<Rightarrow> double \<Rightarrow> bool" where
  "deq a b \<longleftrightarrow> \<not> is_nan a \<and> \<not> is_nan b \<and> dkey a = dkey b"

section \<open>Rounding\<close>

text \<open>The largest \<open>l\<close> with \<open>2 ^ l \<le> n\<close>, for a positive \<open>n\<close>.\<close>

fun ilog2 :: "nat \<Rightarrow> nat" where
  "ilog2 n = (if n < 2 then 0 else Suc (ilog2 (n div 2)))"

declare ilog2.simps [simp del]

definition pow2_nat :: "int \<Rightarrow> nat" where
  "pow2_nat e = (if 0 \<le> e then 2 ^ nat e else 1)"

text \<open>The largest \<open>l\<close> with \<open>2 ^ l \<le> n / d\<close>, for positive \<open>n\<close> and \<open>d\<close>.\<close>

definition rlog2 :: "nat \<Rightarrow> nat \<Rightarrow> int" where
  "rlog2 n d =
     (let l = int (ilog2 n) - int (ilog2 d) in
      if d * pow2_nat l \<le> n * pow2_nat (- l) then l else l - 1)"

text \<open>
  The magnitude of the double nearest to \<open>n / d\<close>. The exponent \<open>e\<close> of the last place is
  chosen so that the significand has 53 bits, or is the smallest one for subnormal values;
  a significand that rounds up to 54 bits carries into the exponent, and a result past the
  largest finite value becomes infinity.
\<close>

definition round_mag :: "nat \<Rightarrow> nat \<Rightarrow> nat" where
  "round_mag n d =
     (if n = 0 then 0
      else
        (let e = max (rlog2 n d - 52) (- 1074);
             num = n * pow2_nat (- e);
             den = d * pow2_nat e;
             q = num div den;
             r = num mod den;
             m = (if den < 2 * r \<or> (den = 2 * r \<and> odd q) then Suc q else q)
         in min inf_magnitude (nat (e + 1074) * 4503599627370496 + m)))"

section \<open>Arithmetic\<close>

text \<open>A finite pattern is \<open>significand * 2 ^ scale\<close>, up to its sign.\<close>

definition significand :: "double \<Rightarrow> nat" where
  "significand d =
     (if exponent_bits d = 0 then fraction_bits d else fraction_bits d + 4503599627370496)"

definition scale :: "double \<Rightarrow> int" where
  "scale d = (if exponent_bits d = 0 then - 1074 else int (exponent_bits d) - 1075)"

text \<open>The integer \<open>x * 2 ^ 1074\<close> for a finite \<open>x\<close>: exact, since 1074 is the largest scale.\<close>

definition fixed :: "double \<Rightarrow> int" where
  "fixed d =
     (let m = int (significand d * 2 ^ nat (scale d + 1074)) in if negative d then - m else m)"

definition dadd :: "double \<Rightarrow> double \<Rightarrow> double" where
  "dadd a b =
     (if is_nan a \<or> is_nan b then d_nan
      else if is_inf a then (if is_inf b \<and> negative a \<noteq> negative b then d_nan else a)
      else if is_inf b then b
      else
        (let s = fixed a + fixed b in
         if s = 0 then signed_double (negative a \<and> negative b) 0
         else signed_double (s < 0) (round_mag (nat \<bar>s\<bar>) (2 ^ 1074))))"

definition dneg :: "double \<Rightarrow> double" where
  "dneg a = signed_double (\<not> negative a) (magnitude a)"

definition dsub :: "double \<Rightarrow> double \<Rightarrow> double" where
  "dsub a b = dadd a (dneg b)"

definition dmul :: "double \<Rightarrow> double \<Rightarrow> double" where
  "dmul a b =
     (let neg = (negative a \<noteq> negative b) in
      if is_nan a \<or> is_nan b then d_nan
      else if is_inf a \<or> is_inf b then
        (if magnitude a = 0 \<or> magnitude b = 0 then d_nan else signed_double neg inf_magnitude)
      else
        (let e = scale a + scale b in
         signed_double neg
           (round_mag (significand a * significand b * pow2_nat e) (pow2_nat (- e)))))"

definition ddiv :: "double \<Rightarrow> double \<Rightarrow> double" where
  "ddiv a b =
     (let neg = (negative a \<noteq> negative b) in
      if is_nan a \<or> is_nan b then d_nan
      else if is_inf a then (if is_inf b then d_nan else signed_double neg inf_magnitude)
      else if is_inf b then signed_double neg 0
      else if magnitude b = 0 then
        (if magnitude a = 0 then d_nan else signed_double neg inf_magnitude)
      else
        (let e = scale a - scale b in
         signed_double neg
           (round_mag (significand a * pow2_nat e) (significand b * pow2_nat (- e)))))"

section \<open>Conversion\<close>

definition of_u64 :: "nat \<Rightarrow> double" where
  "of_u64 n = signed_double False (round_mag n 1)"

definition of_i64 :: "int \<Rightarrow> double" where
  "of_i64 i = signed_double (i < 0) (round_mag (nat \<bar>i\<bar>) 1)"

text \<open>
  Conversion to an integer type truncates towards zero; out of the type's range, and for
  infinities and NaN, it is undefined (\<open>None\<close>).
\<close>

definition dtrunc :: "double \<Rightarrow> int" where
  "dtrunc d =
     (let m = int (significand d * pow2_nat (scale d) div pow2_nat (- scale d)) in
      if negative d then - m else m)"

definition to_int :: "int \<Rightarrow> int \<Rightarrow> double \<Rightarrow> int option" where
  "to_int lo hi d =
     (if is_nan d \<or> is_inf d then None
      else if lo \<le> dtrunc d \<and> dtrunc d \<le> hi then Some (dtrunc d) else None)"

definition to_u64 :: "double \<Rightarrow> nat option" where
  "to_u64 d = map_option nat (to_int 0 18446744073709551615 d)"

definition to_i32 :: "double \<Rightarrow> int option" where
  "to_i32 d = to_int (- 2147483648) 2147483647 d"

text \<open>\<^verbatim>\<open>src/utils/type_pun.h\<close>: a double and its pattern share their bytes.\<close>

definition pun_itod :: "u64 \<Rightarrow> double" where
  "pun_itod i = i"

definition pun_dtoi :: "double \<Rightarrow> u64" where
  "pun_dtoi d = d"

section \<open>Facts\<close>

text \<open>What the evaluation of a closed expression unfolds.\<close>

lemmas double_defs = exponent_bits_def fraction_bits_def magnitude_def negative_def
  inf_magnitude_def is_nan_def is_inf_def signed_double_def significand_def scale_def
  pow2_nat_def round_mag_def rlog2_def ilog2.simps

lemma dge_not_dlt: "\<not> is_nan a \<Longrightarrow> \<not> is_nan b \<Longrightarrow> dge a b \<longleftrightarrow> \<not> dlt a b"
  by (auto simp: dge_def dlt_def)

lemma dlt_trans: "dlt a b \<Longrightarrow> dlt b c \<Longrightarrow> dlt a c"
  by (auto simp: dlt_def)

lemma dlt_irrefl [simp]: "\<not> dlt a a"
  by (simp add: dlt_def)

lemma unat_signed:
  "mag < 9223372036854775808 \<Longrightarrow>
     unat (signed_double neg mag) = mag + (if neg then 9223372036854775808 else 0)"
  by (simp only: signed_double_def unat_of_nat) auto

lemma magnitude_signed:
  "mag < 9223372036854775808 \<Longrightarrow> magnitude (signed_double neg mag) = mag"
  by (simp add: magnitude_def unat_signed)

lemma negative_signed:
  "mag < 9223372036854775808 \<Longrightarrow> negative (signed_double neg mag) = neg"
  by (simp add: negative_def unat_signed)

lemma round_mag_le: "round_mag n d \<le> inf_magnitude"
  by (simp add: round_mag_def Let_def)

lemma signed_double_not_nan [simp]: "mag \<le> inf_magnitude \<Longrightarrow> \<not> is_nan (signed_double neg mag)"
  by (simp add: is_nan_def magnitude_signed inf_magnitude_def)

lemma of_u64_not_nan [simp]: "\<not> is_nan (of_u64 n)"
  by (simp add: of_u64_def round_mag_le)

lemma of_i64_not_nan [simp]: "\<not> is_nan (of_i64 i)"
  by (simp add: of_i64_def round_mag_le)

text \<open>Sums that need no rounding.\<close>

lemma ilog2_eq: "2 ^ k \<le> n \<Longrightarrow> n < 2 ^ Suc k \<Longrightarrow> ilog2 n = k"
proof (induction k arbitrary: n)
  case 0
  then show ?case by (subst ilog2.simps) simp
next
  case (Suc k)
  have "(1 :: nat) \<le> 2 ^ k" by simp
  then have "2 \<le> n" using Suc.prems(1) by (simp only: power_Suc)
  moreover have "ilog2 (n div 2) = k" using Suc.prems by (intro Suc.IH) auto
  ultimately show ?case by (subst ilog2.simps) simp
qed

lemma round_mag_exact:
  assumes "4503599627370496 \<le> m" "m < 9007199254740992" "j \<le> 1074"
  shows "round_mag (m * 2 ^ j) (2 ^ 1074) = j * 4503599627370496 + m"
proof -
  have m2: "(2 :: nat) ^ (52 + j) = 4503599627370496 * 2 ^ j" by (simp add: power_add)
  have "ilog2 (m * 2 ^ j) = 52 + j"
    by (rule ilog2_eq) (use assms(1,2) in \<open>simp_all only: m2 power_Suc mult_le_mono1\<close>, simp)
  moreover have "ilog2 (2 ^ 1074) = 1074" by (rule ilog2_eq) simp_all
  ultimately have ls: "int (ilog2 (m * 2 ^ j)) - int (ilog2 (2 ^ 1074)) = int j - 1022" by simp
  let ?l = "int j - 1022"
  have pows: "2 ^ 1074 * pow2_nat ?l \<le> m * 2 ^ j * pow2_nat (- ?l)"
  proof (cases "j \<le> 1022")
    case True
    have "j + nat (- ?l) = 1022" using True by simp
    then have "(2 :: nat) ^ j * 2 ^ nat (- ?l) = 2 ^ 1022" by (metis power_add)
    then have "m * 2 ^ j * pow2_nat (- ?l) = m * 2 ^ 1022" using True by (simp add: pow2_nat_def mult.assoc)
    moreover have "(2 :: nat) ^ 1074 * pow2_nat ?l = 4503599627370496 * 2 ^ 1022"
      using True by (cases "j = 1022") (simp_all add: pow2_nat_def)
    ultimately show ?thesis using assms(1) by (simp only: mult_le_mono1)
  next
    case False
    then have "pow2_nat ?l = 2 ^ (j - 1022)" by (simp add: pow2_nat_def nat_diff_distrib)
    then have "(2 :: nat) ^ 1074 * pow2_nat ?l = 2 ^ (1074 + (j - 1022))" by (simp only: power_add)
    also have "1074 + (j - 1022) = 52 + j" using False by simp
    finally show ?thesis using False assms(1) by (simp only: m2) (simp add: pow2_nat_def)
  qed
  then have r: "rlog2 (m * 2 ^ j) (2 ^ 1074) = ?l" by (simp only: rlog2_def ls Let_def if_True)
  have e: "max (?l - 52) (- 1074) = int j - 1074" by simp
  have num: "m * 2 ^ j * pow2_nat (- (int j - 1074)) = m * 2 ^ 1074"
  proof -
    have "pow2_nat (- (int j - 1074)) = 2 ^ nat (1074 - int j)" using assms(3) by (simp add: pow2_nat_def)
    moreover have "j + nat (1074 - int j) = 1074" using assms(3) by simp
    ultimately show ?thesis by (metis mult.assoc power_add)
  qed
  have den: "2 ^ 1074 * pow2_nat (int j - 1074) = 2 ^ 1074"
    using assms(3) by (cases "j = 1074") (simp_all add: pow2_nat_def)
  have nz: "m * 2 ^ j \<noteq> 0" using assms(1) by simp
  have qr: "m * 2 ^ 1074 div 2 ^ 1074 = m" "m * 2 ^ 1074 mod 2 ^ 1074 = 0" by simp_all
  have "round_mag (m * 2 ^ j) (2 ^ 1074) = min inf_magnitude (nat (int j - 1074 + 1074) * 4503599627370496 + m)"
    using nz unfolding round_mag_def r e num den qr Let_def by simp
  also have "\<dots> = j * 4503599627370496 + m"
  proof -
    have "j * 4503599627370496 \<le> 1074 * 4503599627370496" using assms(3) by (rule mult_le_mono1)
    then show ?thesis using assms(2) by (simp add: inf_magnitude_def)
  qed
  finally show ?thesis .
qed

lemma dadd_exact:
  assumes "\<not> is_nan a" "\<not> is_nan b" "\<not> is_inf a" "\<not> is_inf b" "nat \<bar>fixed a + fixed b\<bar> = m * 2 ^ j"
    "4503599627370496 \<le> m" "m < 9007199254740992" "j \<le> 1074"
  shows "dadd a b = signed_double (fixed a + fixed b < 0) (j * 4503599627370496 + m)"
proof -
  have "0 < m * 2 ^ j" using assms(6) by simp
  then have "fixed a + fixed b \<noteq> 0" using assms(5) by auto
  then show ?thesis
    unfolding dadd_def Let_def assms(5) round_mag_exact [OF assms(6-8)] using assms(1-4) by simp
qed

text \<open>A number divided by itself is 1.0, and an integer that fits 64 bits becomes a finite number.\<close>

lemma round_mag_one:
  assumes "0 < s"
  shows "round_mag s s = 4607182418800017408"
proof -
  have "rlog2 s s = 0" by (simp add: rlog2_def pow2_nat_def)
  then show ?thesis using assms by (simp add: round_mag_def pow2_nat_def Let_def inf_magnitude_def)
qed

lemma ddiv_same:
  assumes "\<not> is_nan a" "\<not> is_inf a" "magnitude a \<noteq> 0"
  shows "ddiv a a = d_one"
proof -
  have "magnitude a = 4503599627370496 * exponent_bits a + fraction_bits a"
    using mod_mult2_eq [of "unat a" 4503599627370496 2048]
    by (simp add: magnitude_def exponent_bits_def fraction_bits_def)
  then have "0 < significand a" using assms(3) by (auto simp: significand_def)
  then show ?thesis
    using assms by (simp add: ddiv_def Let_def pow2_nat_def round_mag_one signed_double_def d_one_def)
qed

lemma ilog2_bounds: "0 < n \<Longrightarrow> 2 ^ ilog2 n \<le> n \<and> n < 2 ^ Suc (ilog2 n)"
proof (induction n rule: ilog2.induct)
  case (1 n)
  show ?case
  proof (cases "n < 2")
    case True
    then show ?thesis using 1(2) by (subst (1 2) ilog2.simps) simp
  next
    case False
    then have "2 ^ ilog2 (n div 2) \<le> n div 2 \<and> n div 2 < 2 ^ Suc (ilog2 (n div 2))" using 1(1) by simp
    then show ?thesis using False by (subst (1 2) ilog2.simps) (simp, linarith)
  qed
qed

lemma round_mag_nonzero:
  assumes "0 < n" "n < 18446744073709551616"
  shows "round_mag n 1 \<noteq> 0" "round_mag n 1 < inf_magnitude"
proof -
  let ?l = "ilog2 n"
  note b = ilog2_bounds [OF assms(1)]
  have "(2 :: nat) ^ ?l < 2 ^ 64" using b assms(2) by (simp add: order_le_less_trans)
  then have l: "?l < 64" by (simp only: power_strict_increasing_iff [of 2])
  have one: "ilog2 1 = 0" by (subst ilog2.simps) simp
  have r: "rlog2 n 1 = int ?l" unfolding rlog2_def one Let_def using b by (cases "?l = 0") (simp_all add: pow2_nat_def)
  let ?e = "int ?l - 52"
  have e: "max (rlog2 n 1 - 52) (- 1074) = ?e" using r by simp
  let ?num = "n * pow2_nat (- ?e)" and ?den = "1 * pow2_nat ?e"
  have q: "?num div ?den < 9007199254740992"
  proof (cases "?l \<le> 52")
    case True
    have "2 ^ Suc ?l * 2 ^ (52 - ?l) = (2 :: nat) ^ 53" using True by (simp flip: power_add power_Suc)
    moreover have "n * 2 ^ (52 - ?l) < 2 ^ Suc ?l * 2 ^ (52 - ?l)" using b by (simp only: mult_less_mono1 zero_less_power zero_less_numeral)
    ultimately have "n * 2 ^ (52 - ?l) < 2 ^ 53" by (simp only:)
    moreover have "pow2_nat (- ?e) = 2 ^ (52 - ?l)" "pow2_nat ?e = 1"
      using True by (cases "?l = 52"; simp add: pow2_nat_def nat_diff_distrib)+
    ultimately show ?thesis by simp
  next
    case False
    have "Suc ?l = 53 + (?l - 52)" using False by simp
    then have "2 ^ Suc ?l = (2 :: nat) ^ 53 * 2 ^ (?l - 52)" by (metis power_add)
    then have "n div 2 ^ (?l - 52) < 2 ^ 53" using b by (simp only: less_mult_imp_div_less)
    moreover have "pow2_nat (- ?e) = 1" "pow2_nat ?e = 2 ^ (?l - 52)"
      using False by (simp_all add: pow2_nat_def nat_diff_distrib)
    ultimately show ?thesis by simp
  qed
  define m where "m = (if ?den < 2 * (?num mod ?den) \<or> (?den = 2 * (?num mod ?den) \<and> odd (?num div ?den))
    then Suc (?num div ?den) else ?num div ?den)"
  have m: "m \<le> 9007199254740992" using q by (simp add: m_def)
  have eq: "round_mag n 1 = min inf_magnitude (nat (?e + 1074) * 4503599627370496 + m)"
    using assms(1) unfolding round_mag_def e Let_def m_def by simp
  have "nat (?e + 1074) = ?l + 1022" using l by simp
  then have "nat (?e + 1074) * 4503599627370496 + m \<le> 1085 * 4503599627370496 + 9007199254740992"
    "1022 * 4503599627370496 \<le> nat (?e + 1074) * 4503599627370496 + m" using l m by simp_all
  then show "round_mag n 1 \<noteq> 0" "round_mag n 1 < inf_magnitude" unfolding eq inf_magnitude_def by simp_all
qed

lemma of_u64_finite:
  assumes "n < 18446744073709551616"
  shows "\<not> is_inf (of_u64 n)" "magnitude (of_u64 n) = 0 \<longleftrightarrow> n = 0" "\<not> negative (of_u64 n)"
proof -
  have s: "round_mag n 1 < 9223372036854775808" using round_mag_le [of n 1] by (simp add: inf_magnitude_def)
  have z: "round_mag 0 1 = 0" by (simp add: round_mag_def)
  show "\<not> is_inf (of_u64 n)"
    using round_mag_nonzero [OF _ assms] z s by (cases "n = 0") (auto simp: is_inf_def of_u64_def magnitude_signed inf_magnitude_def)
  show "magnitude (of_u64 n) = 0 \<longleftrightarrow> n = 0"
    using round_mag_nonzero [OF _ assms] z s by (cases "n = 0") (auto simp: of_u64_def magnitude_signed)
  show "\<not> negative (of_u64 n)" using s by (simp add: of_u64_def negative_signed)
qed

end
