(* ===== verification/Lens.thy ===== *)
theory Lens
  imports Store Double
begin

text \<open>
  Lenses, \<^verbatim>\<open>src/lens.c\<close>: a block of the store that begins with \<^verbatim>\<open>struct lens\<close>, followed by
  the data of the lens and by its name. A pointer to a lens is its offset. The lenses of a
  store form a doubly linked list through the fields \<^verbatim>\<open>next\<close> and \<^verbatim>\<open>prev\<close>.
\<close>

section \<open>Definitions\<close>

datatype optics_lens_type =
  optics_counter | optics_gauge | optics_dist | optics_histo | optics_quantile

fun type_code :: "optics_lens_type \<Rightarrow> nat" where
  "type_code optics_counter = 0"
| "type_code optics_gauge = 1"
| "type_code optics_dist = 2"
| "type_code optics_histo = 3"
| "type_code optics_quantile = 4"

datatype optics_ret = optics_ok | optics_err | optics_busy | optics_break

definition sizeof_lens :: nat where
  [layout]: "sizeof_lens = 64"

text \<open>The fields of \<^verbatim>\<open>struct lens\<close>, which is packed.\<close>

definition lens_off :: "mem \<Rightarrow> off \<Rightarrow> off" where
  "lens_off m lens = load64 m lens"

definition lens_lens_len :: "mem \<Rightarrow> off \<Rightarrow> nat" where
  "lens_lens_len m lens = load64 m (lens + 8)"

definition lens_name_len :: "mem \<Rightarrow> off \<Rightarrow> nat" where
  "lens_name_len m lens = load64 m (lens + 16)"

definition lens_next :: "mem \<Rightarrow> off \<Rightarrow> off" where
  "lens_next m lens = load64 m (lens + 24)"

definition lens_prev :: "mem \<Rightarrow> off \<Rightarrow> off" where
  "lens_prev m lens = load64 m (lens + 32)"

definition lens_type :: "mem \<Rightarrow> off \<Rightarrow> nat" where
  "lens_type m lens = load32 m (lens + 40)"

definition lens_name_ptr :: "mem \<Rightarrow> off \<Rightarrow> off" where
  "lens_name_ptr m lens = lens + (sizeof_lens + lens_lens_len m lens)"

text \<open>The name is a C string that ends inside its \<^verbatim>\<open>name_len\<close> bytes.\<close>

definition lens_name :: "mem \<Rightarrow> off \<Rightarrow> string" where
  "lens_name m lens = read_cstr m (lens_name_ptr m lens) (lens_name_len m lens)"

definition lens_total_len :: "mem \<Rightarrow> off \<Rightarrow> nat" where
  "lens_total_len m lens = sizeof_lens + lens_name_len m lens + lens_lens_len m lens"

text \<open>The stores of \<open>lens_alloc\<close> into the new block, which is all zero.\<close>

definition lens_init :: "mem \<Rightarrow> off \<Rightarrow> optics_lens_type \<Rightarrow> nat \<Rightarrow> nat \<Rightarrow> string \<Rightarrow> mem" where
  "lens_init m lens type lens_len name_len name =
     (let m1 = store64 m lens lens;
          m2 = store32 m1 (lens + 40) (type_code type);
          m3 = store64 m2 (lens + 8) lens_len;
          m4 = store64 m3 (lens + 16) name_len
      in memcpy m4 (lens_name_ptr m4 lens) (map byte_of (take (name_len - 1) name)))"

definition lens_alloc ::
  "sys \<Rightarrow> optics \<Rightarrow> optics_lens_type \<Rightarrow> nat \<Rightarrow> string \<Rightarrow> (off option \<times> optics) option" where
  "lens_alloc sys o' type lens_len name =
     (let name_len = strnlen name optics_name_max_len + 1 in
      if name_len = optics_name_max_len then Some (None, o')
      else
        (let total_len = sizeof_lens + name_len + lens_len in
         case optics_alloc sys o' total_len of
           None \<Rightarrow> None
         | Some (off, o1) \<Rightarrow>
             if off = 0 then Some (None, o1)
             else
               (case optics_ptr o1 off total_len of
                  None \<Rightarrow> Some (None, o1)
                | Some lens \<Rightarrow>
                    Some (Some lens, set_bytes o1 (lens_init (bytes o1) lens type lens_len name_len name)))))"

definition lens_free :: "optics \<Rightarrow> off \<Rightarrow> optics option" where
  "lens_free o' lens = optics_free o' (lens_off (bytes o') lens) (lens_total_len (bytes o') lens)"

definition lens_defer_free :: "sys \<Rightarrow> optics \<Rightarrow> off \<Rightarrow> (bool \<times> optics) option" where
  "lens_defer_free sys o' lens =
     optics_defer_free sys o' (lens_off (bytes o') lens) (lens_total_len (bytes o') lens)"

definition lens_ptr :: "optics \<Rightarrow> off \<Rightarrow> off option" where
  "lens_ptr o' off =
     (case optics_ptr o' off sizeof_lens of
        None \<Rightarrow> None
      | Some lens \<Rightarrow> optics_ptr o' off (lens_total_len (bytes o') lens))"

definition lens_sub_ptr :: "mem \<Rightarrow> off \<Rightarrow> optics_lens_type \<Rightarrow> off option" where
  "lens_sub_ptr m lens type =
     (if lens_type m lens \<noteq> type_code type then None else Some (lens + sizeof_lens))"

text \<open>\<open>None\<close>: a null pointer is dereferenced, or an assertion fails.\<close>

definition lens_set_next :: "optics \<Rightarrow> off \<Rightarrow> off \<Rightarrow> optics option" where
  "lens_set_next o' lens next =
     (let o1 = set_bytes o' (store64 (bytes o') (lens + 24) next) in
      if next = 0 then Some o1
      else
        (case lens_ptr o1 next of
           None \<Rightarrow> None
         | Some next_node \<Rightarrow>
             if lens_prev (bytes o1) next_node \<noteq> 0 then None
             else Some (set_bytes o1 (store64 (bytes o1) (next_node + 32) (lens_off (bytes o1) lens)))))"

definition lens_kill :: "optics \<Rightarrow> off \<Rightarrow> optics option" where
  "lens_kill o' lens =
     (let next_off = lens_next (bytes o') lens;
          unlink_next =
            (if next_off = 0 then Some o'
             else
               (case lens_ptr o' next_off of
                  None \<Rightarrow> None
                | Some next \<Rightarrow>
                    if lens_prev (bytes o') next \<noteq> lens_off (bytes o') lens then None
                    else Some (set_bytes o' (store64 (bytes o') (next + 32) (lens_prev (bytes o') lens)))))
      in case unlink_next of
           None \<Rightarrow> None
         | Some o1 \<Rightarrow>
             if lens_prev (bytes o1) lens = 0 then Some o1
             else
               (case lens_ptr o1 (lens_prev (bytes o1) lens) of
                  None \<Rightarrow> None
                | Some prev \<Rightarrow>
                    if lens_next (bytes o1) prev \<noteq> lens_off (bytes o1) lens then None
                    else Some (set_bytes o1 (store64 (bytes o1) (prev + 24) next_off))))"

section \<open>A lens in memory\<close>

text \<open>
  A well-formed lens: it knows its own offset, fits a block, and its name ends with a nil byte.
\<close>

definition lens_ok :: "mem \<Rightarrow> off \<Rightarrow> bool" where
  "lens_ok m x \<longleftrightarrow> lens_off m x = x \<and> 0 < lens_name_len m x \<and> lens_total_len m x \<le> 4096 \<and>
     m (x + lens_total_len m x - 1) = 0"

text \<open>What never changes in a lens: everything but the links.\<close>

lemma lens_static:
  assumes "lens_ok m x"
    and low: "\<forall>y. x \<le> y \<and> y < x + 24 \<longrightarrow> m' y = m y"
    and high: "\<forall>y. x + 40 \<le> y \<and> y < x + lens_total_len m x \<and> (y < x + 44 \<or> x + 64 + lens_lens_len m x \<le> y) \<longrightarrow>
      m' y = m y"
  shows "lens_ok m' x" "lens_name m' x = lens_name m x" "lens_total_len m' x = lens_total_len m x"
    "lens_type m' x = lens_type m x" "lens_lens_len m' x = lens_lens_len m x"
    "lens_off m' x = lens_off m x"
proof -
  have 1: "lens_off m' x = lens_off m x" "lens_lens_len m' x = lens_lens_len m x"
      "lens_name_len m' x = lens_name_len m x"
    unfolding lens_off_def lens_lens_len_def lens_name_len_def
    by (rule load_cong; use low in simp)+
  have tot: "64 + lens_lens_len m x < lens_total_len m x"
    using assms(1) by (simp add: lens_ok_def lens_total_len_def sizeof_lens_def)
  have 2: "lens_name m' x = lens_name m x"
    unfolding lens_name_def lens_name_ptr_def 1
    by (rule read_cstr_cong, rule high [rule_format]) (auto simp: lens_total_len_def sizeof_lens_def)
  have 3: "m' (x + lens_total_len m x - 1) = m (x + lens_total_len m x - 1)"
    using tot by (intro high [rule_format]) auto
  show "lens_off m' x = lens_off m x" "lens_lens_len m' x = lens_lens_len m x"
    "lens_total_len m' x = lens_total_len m x" "lens_name m' x = lens_name m x"
    using 1 2 by (simp_all add: lens_total_len_def)
  then show "lens_ok m' x" using assms(1) 1 3 by (simp add: lens_ok_def)
  show "lens_type m' x = lens_type m x"
    unfolding lens_type_def by (rule load_cong, rule high [rule_format]) (use tot in auto)
qed

lemma type_code_less: "type_code t < 4294967296"
  by (cases t) simp_all

lemma lens_init_spec:
  fixes x lens_len name_len :: nat and type :: optics_lens_type
  assumes zero: "\<forall>y. x \<le> y \<longrightarrow> y < x + (64 + name_len + lens_len) \<longrightarrow> m y = 0"
    and small: "x < 18446744073709551616" "64 + name_len + lens_len \<le> 4096"
    and name: "cstring name" "name_len = strnlen name 256 + 1"
  defines "m' \<equiv> lens_init m x type lens_len name_len name"
  shows "lens_ok m' x" "lens_total_len m' x = 64 + name_len + lens_len" "lens_name m' x = take 256 name"
    "lens_type m' x = type_code type" "lens_next m' x = 0" "lens_prev m' x = 0"
    "lens_lens_len m' x = lens_len"
    and "\<And>y. x + 64 \<le> y \<Longrightarrow> y < x + 64 + lens_len \<Longrightarrow> m' y = 0"
    and "\<And>y. y < x \<or> x + (64 + name_len + lens_len) \<le> y \<Longrightarrow> m' y = m y"
proof -
  let ?bs = "map byte_of (take (name_len - 1) name)"
  define m4 where "m4 = store64 (store64 (store32 (store64 m x x) (x + 40) (type_code type))
    (x + 8) lens_len) (x + 16) name_len"
  have lb: "length ?bs < name_len" using name(2) by (simp add: strnlen_def)
  have ll: "load64 m4 (x + 8) = lens_len"
    using small by (simp add: m4_def load_store_disjoint)
  then have p: "lens_name_ptr m4 x = x + 64 + lens_len"
    by (simp add: lens_name_ptr_def lens_lens_len_def sizeof_lens_def)
  have m': "m' = memcpy m4 (x + 64 + lens_len) ?bs"
    by (simp add: m'_def lens_init_def Let_def p flip: m4_def)
  have low: "load w m' (x + k) = load w m4 (x + k)" if "k + w \<le> 64" for w k
    unfolding m' using that by (intro load_memcpy_disjoint) simp
  have off: "lens_off m' x = x"
    using low [of 0 8] small by (simp add: lens_off_def m4_def load_store_disjoint)
  show len: "lens_lens_len m' x = lens_len"
    using low [of 8 8] ll by (simp add: lens_lens_len_def)
  have nl: "lens_name_len m' x = name_len"
    using low [of 16 8] small by (simp add: lens_name_len_def m4_def)
  show "lens_next m' x = 0"
    using low [of 24 8] zero by (simp add: lens_next_def m4_def load_store_disjoint load_zero)
  show "lens_prev m' x = 0"
    using low [of 32 8] zero by (simp add: lens_prev_def m4_def load_store_disjoint load_zero)
  show "lens_type m' x = type_code type"
    using low [of 40 4] type_code_less by (simp add: lens_type_def m4_def load_store_disjoint)
  show tot: "lens_total_len m' x = 64 + name_len + lens_len"
    by (simp add: lens_total_len_def sizeof_lens_def nl len)
  have high: "m4 y = m y" if "y < x \<or> x + 64 \<le> y" for y
    using that by (auto simp: m4_def store_frame)
  have nil: "m4 y = 0" if "x + 64 \<le> y" "y < x + (64 + name_len + lens_len)" for y
    using that high zero by simp
  show "m' y = 0" if "x + 64 \<le> y" "y < x + 64 + lens_len" for y
    using that nil by (simp add: m' memcpy_def)
  show "m' y = m y" if "y < x \<or> x + (64 + name_len + lens_len) \<le> y" for y
    using that lb high by (auto simp: m' memcpy_def)
  have last: "m' (x + (64 + name_len + lens_len) - 1) = 0"
    using lb nil name(2) by (simp add: m' memcpy_def)
  show "lens_ok m' x"
    using off tot last name(2) small(2) nl by (simp add: lens_ok_def)
  have "m4 (x + 64 + lens_len + (name_len - 1)) = 0"
    by (rule nil) (use name(2) in auto)
  then have "read_cstr m' (x + 64 + lens_len) name_len = take (name_len - 1) name"
    unfolding m' by (intro read_cstr_memcpy)
      (use name lb in \<open>auto simp: strnlen_def min_def split: if_splits\<close>)
  then show "lens_name m' x = take 256 name"
    using name(2) by (simp add: lens_name_def lens_name_ptr_def nl len sizeof_lens_def strnlen_def add.assoc min_def)
qed

text \<open>The block of a lens.\<close>

definition lens_block :: "mem \<Rightarrow> off \<Rightarrow> off \<times> nat" where
  "lens_block m x = (x, class_of (lens_total_len m x))"

lemma lens_bytes:
  assumes "lens_ok m x" "x \<le> y" "y < x + lens_total_len m x"
  shows "y \<in> block_bytes (lens_block m x)"
  using assms class_of_eq(3) [of "lens_total_len m x"]
  by (simp add: block_bytes_def lens_block_def lens_ok_def)

lemma lens_total_min: "lens_ok m x \<Longrightarrow> 64 < lens_total_len m x"
  by (simp add: lens_ok_def lens_total_len_def sizeof_lens_def)

lemma lens_same:
  assumes "lens_ok m x" "\<And>y. y \<in> block_bytes (lens_block m x) \<Longrightarrow> m' y = m y"
  shows "lens_ok m' x" "lens_name m' x = lens_name m x" "lens_block m' x = lens_block m x"
    "lens_type m' x = lens_type m x" "lens_next m' x = lens_next m x" "lens_prev m' x = lens_prev m x"
    "lens_total_len m' x = lens_total_len m x" "lens_lens_len m' x = lens_lens_len m x"
proof -
  have in_block: "m' y = m y" if "x \<le> y" "y < x + lens_total_len m x" for y
    using assms(2) lens_bytes [OF assms(1) that] .
  have min: "64 < lens_total_len m x" using lens_total_min [OF assms(1)] .
  note st = lens_static [OF assms(1), of m']
  show "lens_ok m' x" "lens_name m' x = lens_name m x" "lens_type m' x = lens_type m x"
    "lens_total_len m' x = lens_total_len m x" "lens_lens_len m' x = lens_lens_len m x"
    "lens_block m' x = lens_block m x"
    using st in_block min by (simp_all add: lens_block_def)
  show "lens_next m' x = lens_next m x" "lens_prev m' x = lens_prev m x"
    unfolding lens_next_def lens_prev_def by (rule load_cong, rule in_block; use min in simp)+
qed

subsection \<open>The data of a lens\<close>

text \<open>A change inside the data of a lens leaves the lens itself as it was.\<close>

lemma lens_data_write:
  assumes "lens_ok m x" "\<And>y. y < x + 64 \<or> x + 64 + lens_lens_len m x \<le> y \<Longrightarrow> m' y = m y"
  shows "lens_ok m' x" "lens_name m' x = lens_name m x" "lens_block m' x = lens_block m x"
    "lens_type m' x = lens_type m x" "lens_next m' x = lens_next m x" "lens_prev m' x = lens_prev m x"
    "lens_lens_len m' x = lens_lens_len m x" "lens_total_len m' x = lens_total_len m x"
proof -
  have "\<forall>y. x \<le> y \<and> y < x + 24 \<longrightarrow> m' y = m y"
    and "\<forall>y. x + 40 \<le> y \<and> y < x + lens_total_len m x \<and> (y < x + 44 \<or> x + 64 + lens_lens_len m x \<le> y) \<longrightarrow>
      m' y = m y"
    by (intro allI impI assms(2); auto)+
  note st = lens_static [OF assms(1) this]
  show "lens_ok m' x" "lens_name m' x = lens_name m x" "lens_type m' x = lens_type m x"
    "lens_lens_len m' x = lens_lens_len m x" "lens_total_len m' x = lens_total_len m x"
    "lens_block m' x = lens_block m x"
    using st by (simp_all add: lens_block_def)
  show "lens_next m' x = lens_next m x" "lens_prev m' x = lens_prev m x"
    unfolding lens_next_def lens_prev_def by (rule load_cong, rule assms(2); simp)+
qed

subsection \<open>A new lens\<close>

lemma lens_alloc_cases:
  assumes "heap_inv (oheap o') L" "sys_amd64 sys" "cstring name" "lens_len \<le> 3775"
  obtains
    (none) h where "lens_alloc sys o' type lens_len name = Some (None, o'\<lparr>oheap := h\<rparr>)" "heap_inv h L"
      "hm h = bytes o'" "length name = 255 \<or> vma_len (rg (oheap o')) < pos (rg (oheap o')) + 65536"
  | (some) x h where "lens_alloc sys o' type lens_len name = Some (Some x, o'\<lparr>oheap := h\<rparr>)" "length name \<noteq> 255"
      "heap_inv h (insert (lens_block (hm h) x) L)" "lens_block (hm h) x \<notin> L" "lens_ok (hm h) x"
      "lens_name (hm h) x = take 256 name" "lens_type (hm h) x = type_code type"
      "lens_next (hm h) x = 0" "lens_prev (hm h) x = 0" "lens_lens_len (hm h) x = lens_len"
      "\<forall>y. x + 64 \<le> y \<longrightarrow> y < x + 64 + lens_len \<longrightarrow> hm h y = 0"
      "\<forall>b \<in> L. \<forall>y \<in> block_bytes b. hm h y = bytes o' y"
proof -
  let ?n = "strnlen name 256 + 1"
  let ?t = "64 + ?n + lens_len"
  have t: "?t \<le> 4096" using assms(4) by (simp add: strnlen_def)
  show thesis
  proof (cases "?n = 256")
    case True
    then show thesis
      using assms(1) by (intro that(1) [of "oheap o'"])
        (simp_all add: lens_alloc_def optics_name_max_len_def, simp add: strnlen_def min_def split: if_splits)
  next
    case n: False
    from assms(1) t assms(2) show thesis
    proof (cases rule: optics_alloc_cases)
      case (fail h)
      then show thesis
        using n by (intro that(1) [of h])
          (simp_all add: lens_alloc_def optics_name_max_len_def sizeof_lens_def Let_def)
    next
      case (ok x h1)
      let ?b = "(x, class_of ?t)"
      have A: "x \<noteq> 0" "?b \<notin> L" "heap_inv h1 (insert ?b L)" "\<forall>y \<in> block_bytes ?b. hm h1 y = 0"
          "\<forall>b \<in> L. \<forall>y \<in> block_bytes b. hm h1 y = bytes o' y"
        using ok(2) by (simp_all add: allocates_def)
      let ?m = "lens_init (hm h1) x type lens_len ?n name"
      have ptr: "optics_ptr (o'\<lparr>oheap := h1\<rparr>) x ?t = Some x"
        using heap_inv_ptr(1) [OF A(3), of x "class_of ?t" ?t] class_of_eq(3) [OF t] by (simp add: optics_ptr_def)
      have z: "\<forall>y. x \<le> y \<longrightarrow> y < x + ?t \<longrightarrow> hm h1 y = 0"
        using A(4) class_of_eq(3) [OF t] by (simp add: block_bytes_def)
      note I = lens_init_spec [OF z heap_inv_small [OF A(3) insertI1] t assms(3) refl, where type = type]
      have eq: "lens_alloc sys o' type lens_len name = Some (Some x, o'\<lparr>oheap := h1\<lparr>hm := ?m\<rparr>\<rparr>)"
        using ok(1) ptr A(1) n
        by (simp add: lens_alloc_def optics_name_max_len_def sizeof_lens_def Let_def set_bytes_def)
      have b: "lens_block ?m x = ?b" using I(2) by (simp add: lens_block_def)
      have out: "y < x \<or> x + ?t \<le> y" if "y \<notin> block_bytes ?b" for y
        using that class_of_eq(3) [OF t] by (auto simp: block_bytes_def)
      have inv: "heap_inv (h1\<lparr>hm := ?m\<rparr>) (insert ?b L)"
        by (rule heap_inv_write [OF A(3) insertI1 I(9) [OF out]])
      have keep: "?m y = bytes o' y" if "b' \<in> L" "y \<in> block_bytes b'" for b' y
      proof -
        have "y \<notin> block_bytes ?b" using heap_inv_apart [OF A(3), of b' ?b] that A(2) by auto
        then have "?m y = hm h1 y" by (rule I(9) [OF out])
        then show ?thesis using A(5) that by simp
      qed
      show thesis
        by (rule that(2) [of x "h1\<lparr>hm := ?m\<rparr>"])
          (use eq inv A(2) b I keep n in \<open>auto simp: strnlen_def\<close>)
    qed
  qed
qed

section \<open>Doubly linked lists\<close>

text \<open>
  The list \<open>xs\<close> starts at \<open>p\<close>, its first node has predecessor \<open>q\<close>, its last node has
  successor 0; \<open>nx\<close> and \<open>pv\<close> are the two links of a node.
\<close>

fun dlist :: "(off \<Rightarrow> off) \<Rightarrow> (off \<Rightarrow> off) \<Rightarrow> off \<Rightarrow> off \<Rightarrow> off list \<Rightarrow> bool" where
  "dlist nx pv q p [] \<longleftrightarrow> p = 0"
| "dlist nx pv q p (x # xs) \<longleftrightarrow> p = x \<and> x \<noteq> 0 \<and> pv x = q \<and> dlist nx pv x (nx x) xs"

lemma dlist_cong:
  "dlist nx pv q p xs \<Longrightarrow> (\<And>x. x \<in> set xs \<Longrightarrow> nx' x = nx x \<and> pv' x = pv x) \<Longrightarrow> dlist nx' pv' q p xs"
  by (induction xs arbitrary: q p) auto

lemma dlist_head: "dlist nx pv q p xs \<Longrightarrow> p = (case xs of [] \<Rightarrow> 0 | x # _ \<Rightarrow> x)"
  by (cases xs) auto

lemma dlist_push:
  assumes "dlist nx pv 0 p xs" "x \<noteq> 0" "x \<notin> set xs" "distinct xs"
    and "nx' x = p" "pv' x = 0" "xs \<noteq> [] \<Longrightarrow> pv' p = x"
    and "\<And>y. y \<in> set xs \<Longrightarrow> nx' y = nx y" "\<And>y. y \<in> set xs \<Longrightarrow> y \<noteq> p \<Longrightarrow> pv' y = pv y"
  shows "dlist nx' pv' 0 x (x # xs)"
proof (cases xs)
  case Nil
  then show ?thesis using assms by simp
next
  case (Cons y ys)
  have "dlist nx pv y (nx y) ys" "p = y" "y \<noteq> 0" using assms(1) Cons by simp_all
  moreover have "dlist nx' pv' y (nx y) ys"
    using calculation assms(4,8,9) Cons by (intro dlist_cong [OF calculation(1)]) auto
  ultimately show ?thesis using assms Cons by simp
qed

lemma dlist_at_links:
  "dlist nx pv q p (as @ x # bs) \<Longrightarrow>
     x \<noteq> 0 \<and> nx x = (case bs of [] \<Rightarrow> 0 | b # _ \<Rightarrow> b) \<and> pv x = (if as = [] then q else last as) \<and>
     (as \<noteq> [] \<longrightarrow> nx (last as) = x) \<and> (bs \<noteq> [] \<longrightarrow> pv (hd bs) = x)"
proof (induction as arbitrary: q p)
  case Nil
  then show ?case by (cases bs) simp_all
next
  case (Cons a as)
  then have d: "dlist nx pv a (nx a) (as @ x # bs)" by simp
  show ?case using Cons.IH [OF d] d by (cases as) simp_all
qed

lemma dlist_at:
  assumes "dlist nx pv q p (as @ x # bs)"
  shows "x \<noteq> 0" "nx x = (case bs of [] \<Rightarrow> 0 | b # _ \<Rightarrow> b)" "pv x = (if as = [] then q else last as)"
    and "as \<noteq> [] \<Longrightarrow> nx (last as) = x" "bs \<noteq> [] \<Longrightarrow> pv (hd bs) = x"
  using dlist_at_links [OF assms] by simp_all

lemma dlist_remove:
  assumes "dlist nx pv q p (as @ x # bs)" "distinct (as @ x # bs)"
    and "as \<noteq> [] \<Longrightarrow> nx' (last as) = nx x" "\<And>y. y \<in> set (as @ bs) \<Longrightarrow> as = [] \<or> y \<noteq> last as \<Longrightarrow> nx' y = nx y"
    and "bs \<noteq> [] \<Longrightarrow> pv' (hd bs) = pv x" "\<And>y. y \<in> set (as @ bs) \<Longrightarrow> bs = [] \<or> y \<noteq> hd bs \<Longrightarrow> pv' y = pv y"
  shows "dlist nx' pv' q (if as = [] then nx x else p) (as @ bs)"
  using assms
proof (induction as arbitrary: q p)
  case Nil
  then have d: "dlist nx pv x (nx x) bs" "pv x = q" "distinct bs" by simp_all
  show ?case
  proof (cases bs)
    case (Cons b bs')
    have "dlist nx' pv' b (nx b) bs'"
    proof (rule dlist_cong)
      show "dlist nx pv b (nx b) bs'" using d(1) Cons by simp
      show "nx' y = nx y \<and> pv' y = pv y" if "y \<in> set bs'" for y
        using Nil(4,6) [of y] that d(3) Cons by auto
    qed
    then show ?thesis using d Cons Nil by simp
  qed (use d in simp)
next
  case (Cons a as)
  have p: "p = a" "a \<noteq> 0" "pv a = q" "dlist nx pv a (nx a) (as @ x # bs)" using Cons.prems(1) by simp_all
  have IH: "dlist nx' pv' a (if as = [] then nx x else nx a) (as @ bs)"
  proof (rule Cons.IH [OF p(4)])
    show "distinct (as @ x # bs)" using Cons.prems(2) by simp
    show "nx' (last as) = nx x" if "as \<noteq> []" using Cons.prems(3) that by simp
    show "nx' y = nx y" if "y \<in> set (as @ bs)" "as = [] \<or> y \<noteq> last as" for y
    proof -
      have "y \<noteq> a" using that(1) Cons.prems(2) by auto
      then show ?thesis using Cons.prems(4) [of y] that by auto
    qed
    show "pv' (hd bs) = pv x" if "bs \<noteq> []" using Cons.prems(5) that by simp
    show "pv' y = pv y" if "y \<in> set (as @ bs)" "bs = [] \<or> y \<noteq> hd bs" for y
      using Cons.prems(6) [of y] that by simp
  qed
  have "pv' a = q"
    using Cons.prems(2) Cons.prems(6) [of a] p(3) by (cases bs) auto
  moreover have "nx' a = (if as = [] then nx x else nx a)"
  proof (cases "as = []")
    case False
    then have "a \<noteq> last as" using last_in_set [of as] Cons.prems(2) by fastforce
    then show ?thesis using Cons.prems(4) [of a] False by simp
  qed (use Cons.prems(3) in simp)
  ultimately show ?case using p IH by simp
qed

section \<open>Writing a link\<close>

text \<open>
  A set of lenses in a heap, and the store of one link (\<^verbatim>\<open>next\<close> at 24, \<^verbatim>\<open>prev\<close> at 32) in one
  of them.
\<close>

definition lens_set :: "optics \<Rightarrow> off set \<Rightarrow> (off \<times> nat) set \<Rightarrow> bool" where
  "lens_set o' S L \<longleftrightarrow> heap_inv (oheap o') L \<and>
     (\<forall>x \<in> S. lens_ok (bytes o') x \<and> lens_block (bytes o') x \<in> L)"

text \<open>Two stores with the same lenses: only links may differ.\<close>

definition same_lenses :: "off set \<Rightarrow> optics \<Rightarrow> optics \<Rightarrow> bool" where
  "same_lenses S o1 o2 \<longleftrightarrow> (\<forall>x \<in> S. lens_name (bytes o2) x = lens_name (bytes o1) x \<and>
     lens_block (bytes o2) x = lens_block (bytes o1) x \<and> lens_type (bytes o2) x = lens_type (bytes o1) x \<and>
     lens_total_len (bytes o2) x = lens_total_len (bytes o1) x \<and>
     lens_off (bytes o2) x = lens_off (bytes o1) x)"

lemma same_lenses_trans: "same_lenses S o1 o2 \<Longrightarrow> same_lenses S o2 o3 \<Longrightarrow> same_lenses S o1 o3"
  by (simp add: same_lenses_def)

lemma same_lenses_refl [simp]: "same_lenses S o1 o1"
  by (simp add: same_lenses_def)

lemma lens_set_ptr:
  assumes "lens_set o' S L" "x \<in> S"
  shows "lens_ptr o' x = Some x" "x < 18446744073709551616"
proof -
  have x: "heap_inv (oheap o') L" "lens_ok (bytes o') x" "(x, class_of (lens_total_len (bytes o') x)) \<in> L"
    using assms by (auto simp: lens_set_def lens_block_def)
  have t: "lens_total_len (bytes o') x \<le> class_len (class_of (lens_total_len (bytes o') x))"
    using x(2) class_of_eq(3) by (simp add: lens_ok_def)
  then show "lens_ptr o' x = Some x"
    using heap_inv_ptr(1) [OF x(1,3)] lens_total_min [OF x(2)]
    by (simp add: lens_ptr_def optics_ptr_def sizeof_lens_def)
  show "x < 18446744073709551616" using heap_inv_small [OF x(1,3)] .
qed

lemma lens_set_apart:
  assumes "lens_set o' S L" "x \<in> S" "b \<in> L" "b \<noteq> lens_block (bytes o') x" "y \<in> block_bytes b"
  shows "y < x \<or> x + lens_total_len (bytes o') x \<le> y"
proof (rule ccontr)
  assume "\<not> ?thesis"
  then have "y \<in> block_bytes (lens_block (bytes o') x)"
    using assms(1,2) by (intro lens_bytes) (auto simp: lens_set_def)
  then show False
    using heap_inv_apart [of "oheap o'" L b "lens_block (bytes o') x"] assms by (auto simp: lens_set_def)
qed

lemma link_store:
  assumes "lens_set o' S L" "x \<in> S" "k = 24 \<or> k = 32" "v < 18446744073709551616"
  defines "o1 \<equiv> set_bytes o' (store64 (bytes o') (x + k) v)"
  shows "lens_set o1 S L" "same_lenses S o' o1"
    and "\<And>z. z \<in> S \<Longrightarrow> lens_next (bytes o1) z = (if z = x \<and> k = 24 then v else lens_next (bytes o') z)"
    and "\<And>z. z \<in> S \<Longrightarrow> lens_prev (bytes o1) z = (if z = x \<and> k = 32 then v else lens_prev (bytes o') z)"
    and "\<And>y. y < x + 24 \<or> x + 40 \<le> y \<Longrightarrow> bytes o1 y = bytes o' y"
proof -
  have S: "heap_inv (oheap o') L" "\<And>z. z \<in> S \<Longrightarrow> lens_ok (bytes o') z" "\<And>z. z \<in> S \<Longrightarrow> lens_block (bytes o') z \<in> L"
    using assms(1) by (auto simp: lens_set_def)
  have min: "64 < lens_total_len (bytes o') x" using lens_total_min [OF S(2) [OF assms(2)]] .
  show frame: "bytes o1 y = bytes o' y" if "y < x + 24 \<or> x + 40 \<le> y" for y
    using that assms(3) by (auto simp: o1_def store_frame)
  have other: "bytes o1 y = bytes o' y" if "z \<in> S" "z \<noteq> x" "y \<in> block_bytes (lens_block (bytes o') z)" for z y
    using lens_set_apart [OF assms(1,2) S(3) [OF that(1)] _ that(3)] that(2) min
    by (intro frame) (auto simp: lens_block_def)
  have ok: "lens_ok (bytes o1) z" "lens_name (bytes o1) z = lens_name (bytes o') z"
      "lens_block (bytes o1) z = lens_block (bytes o') z" "lens_type (bytes o1) z = lens_type (bytes o') z"
      "lens_total_len (bytes o1) z = lens_total_len (bytes o') z" if "z \<in> S" for z
  proof -
    have "lens_ok (bytes o1) z \<and> lens_name (bytes o1) z = lens_name (bytes o') z \<and>
      lens_block (bytes o1) z = lens_block (bytes o') z \<and> lens_type (bytes o1) z = lens_type (bytes o') z \<and>
      lens_total_len (bytes o1) z = lens_total_len (bytes o') z"
    proof (cases "z = x")
      case True
      then show ?thesis
        using lens_static [OF S(2) [OF that], of "bytes o1"] frame by (auto simp: lens_block_def)
    next
      case False
      then show ?thesis using lens_same [OF S(2) [OF that] other [OF that False]] by simp
    qed
    then show "lens_ok (bytes o1) z" "lens_name (bytes o1) z = lens_name (bytes o') z"
      "lens_block (bytes o1) z = lens_block (bytes o') z" "lens_type (bytes o1) z = lens_type (bytes o') z"
      "lens_total_len (bytes o1) z = lens_total_len (bytes o') z" by simp_all
  qed
  have "heap_inv (oheap o1) L"
    unfolding o1_def
  proof (rule heap_inv_set_bytes [OF S(1) S(3) [OF assms(2)]])
    fix y assume "y \<notin> block_bytes (lens_block (bytes o') x)"
    then have "y < x + 24 \<or> x + 40 \<le> y"
      using lens_bytes [OF S(2) [OF assms(2)], of y] min by linarith
    then show "store64 (bytes o') (x + k) v y = bytes o' y" using frame by (simp add: o1_def)
  qed
  then show "lens_set o1 S L" using ok S(3) by (simp add: lens_set_def)
  show "same_lenses S o' o1"
    using ok S(2) by (simp add: same_lenses_def lens_ok_def)
  show "lens_next (bytes o1) z = (if z = x \<and> k = 24 then v else lens_next (bytes o') z)" if "z \<in> S" for z
  proof (cases "z = x")
    case True
    then show ?thesis using assms(3,4) by (auto simp: lens_next_def o1_def load_store_disjoint)
  next
    case False
    then show ?thesis using lens_same(5) [OF S(2) [OF that] other [OF that False]] by simp
  qed
  show "lens_prev (bytes o1) z = (if z = x \<and> k = 32 then v else lens_prev (bytes o') z)" if "z \<in> S" for z
  proof (cases "z = x")
    case True
    then show ?thesis using assms(3,4) by (auto simp: lens_prev_def o1_def load_store_disjoint)
  next
    case False
    then show ?thesis using lens_same(6) [OF S(2) [OF that] other [OF that False]] by simp
  qed
qed

end
