(* ===== verification/Poll_Value.thy ===== *)
theory Poll_Value
  imports Lens
begin

text \<open>
  The values that pollers report, from \<^verbatim>\<open>src/optics.h\<close>, and what \<^verbatim>\<open>src/lens.c\<close> offers to the
  code that turns them into keys and numbers.
\<close>

definition optics_histo_buckets_max :: nat where
  "optics_histo_buckets_max = 8"

definition optics_dist_samples :: nat where
  "optics_dist_samples = 200"

record optics_dist =
  dist_n :: nat
  p50 :: double
  p90 :: double
  p99 :: double
  dist_max :: double
  dist_samples :: "double list"

record optics_histo =
  buckets_len :: nat
  buckets :: "nat list"
  below :: nat
  above :: nat
  counts :: "nat list"

record optics_quantile =
  quantile :: double
  sample :: double
  sample_count :: nat
  qcount :: nat

definition zero_dist :: optics_dist where
  "zero_dist = \<lparr>dist_n = 0, p50 = d_zero, p90 = d_zero, p99 = d_zero, dist_max = d_zero,
     dist_samples = replicate optics_dist_samples d_zero\<rparr>"

definition zero_histo :: optics_histo where
  "zero_histo = \<lparr>buckets_len = 0, buckets = replicate 9 0, below = 0, above = 0, counts = replicate 8 0\<rparr>"

definition zero_quantile :: optics_quantile where
  "zero_quantile = \<lparr>quantile = d_zero, sample = d_zero, sample_count = 0, qcount = 0\<rparr>"

text \<open>
  \<^verbatim>\<open>union optics_poll_value\<close>, with the member that the type of the poll selects. A type code that
  is none of the five selects nothing.
\<close>

datatype optics_poll_value =
    Counter_value "64 word"
  | Gauge_value double
  | Dist_value optics_dist
  | Histo_value optics_histo
  | Quantile_value optics_quantile
  | Unknown_value nat

text \<open>The value of a poll that was just allocated: all zeroes, read as the type says.\<close>

definition zero_value :: "nat \<Rightarrow> optics_poll_value" where
  "zero_value t =
     (if t = type_code optics_counter then Counter_value 0
      else if t = type_code optics_gauge then Gauge_value d_zero
      else if t = type_code optics_dist then Dist_value zero_dist
      else if t = type_code optics_histo then Histo_value zero_histo
      else if t = type_code optics_quantile then Quantile_value zero_quantile
      else Unknown_value t)"

record optics_poll =
  phost :: string
  pprefix :: string
  pkey :: string
  pvalue :: optics_poll_value
  pts :: nat
  pelapsed :: nat

text \<open>
  \<^verbatim>\<open>optics_normalize_cb_t\<close>: the callback gets its context, the time, a key and a number, and says
  whether to go on.
\<close>

type_synonym 'c normalize_cb = "'c \<Rightarrow> nat \<Rightarrow> string \<Rightarrow> double \<Rightarrow> bool \<times> 'c"

definition lens_rescale :: "optics_poll \<Rightarrow> double \<Rightarrow> double" where
  "lens_rescale poll v = ddiv v (of_u64 (pelapsed poll))"

text \<open>Reporting one number under a key with a suffix pushed on it; \<open>None\<close>: an assertion on the key fails.\<close>

definition cb_suffix :: "'c normalize_cb \<Rightarrow> optics_poll \<Rightarrow> optics_key \<Rightarrow> 'c \<Rightarrow> string \<Rightarrow> double \<Rightarrow>
    (bool \<times> optics_key \<times> 'c) option" where
  "cb_suffix cb poll key ctx suffix v =
     Option.bind (optics_key_push key suffix) (\<lambda>(old, key1).
       (case cb ctx (pts poll) (key_str key1) v of
          (ret, ctx') \<Rightarrow> Option.bind (optics_key_pop key1 old) (\<lambda>key2. Some (ret, key2, ctx'))))"

text \<open>Several of them in a row: the first refusal ends it.\<close>

fun cb_all :: "'c normalize_cb \<Rightarrow> optics_poll \<Rightarrow> optics_key \<Rightarrow> 'c \<Rightarrow> (string \<times> double) list \<Rightarrow> (bool \<times> 'c) option" where
  "cb_all cb poll key ctx [] = Some (True, ctx)"
| "cb_all cb poll key ctx ((suffix, v) # rest) =
     Option.bind (cb_suffix cb poll key ctx suffix v) (\<lambda>(ret, key', ctx').
       if \<not> ret then Some (False, ctx') else cb_all cb poll key' ctx' rest)"

end
