(* ===== verification/Counter.thy ===== *)
theory Counter
  imports Poll_Value
begin

text \<open>
  The counter and the gauge, \<^verbatim>\<open>src/lens_counter.c\<close> and \<^verbatim>\<open>src/lens_gauge.c\<close>. A counter has one
  64-bit sum for each of the two epochs, which wraps around like \<^verbatim>\<open>atomic_fetch_add\<close> does; a
  gauge has one value, whatever the epoch.
\<close>

section \<open>Definitions\<close>

definition sizeof_lens_counter :: nat where
  [layout]: "sizeof_lens_counter = 16"

definition sizeof_lens_gauge :: nat where
  [layout]: "sizeof_lens_gauge = 8"

definition counter_cell :: "off \<Rightarrow> nat \<Rightarrow> off" where
  [layout]: "counter_cell counter e = counter + 8 * e"

definition lens_counter_alloc :: "sys \<Rightarrow> optics \<Rightarrow> string \<Rightarrow> (off option \<times> optics) option" where
  "lens_counter_alloc sys o' name = lens_alloc sys o' optics_counter sizeof_lens_counter name"

definition lens_counter_inc :: "optics \<Rightarrow> off \<Rightarrow> nat \<Rightarrow> 64 word \<Rightarrow> bool \<times> optics" where
  "lens_counter_inc o' lens e v =
     (case lens_sub_ptr (bytes o') lens optics_counter of
        None \<Rightarrow> (False, o')
      | Some counter \<Rightarrow>
          (let a = counter_cell counter e;
               old = of_nat (load64 (bytes o') a)
           in (True, set_bytes o' (store64 (bytes o') a (unat (old + v))))))"

definition lens_counter_read :: "optics \<Rightarrow> off \<Rightarrow> nat \<Rightarrow> 64 word \<Rightarrow> optics_ret \<times> 64 word \<times> optics" where
  "lens_counter_read o' lens e v =
     (case lens_sub_ptr (bytes o') lens optics_counter of
        None \<Rightarrow> (optics_err, v, o')
      | Some counter \<Rightarrow>
          (let a = counter_cell counter e;
               old = of_nat (load64 (bytes o') a)
           in (optics_ok, v + old, set_bytes o' (store64 (bytes o') a 0))))"

text \<open>The counter of a poll is signed.\<close>

definition lens_counter_normalize :: "optics_poll \<Rightarrow> 64 word \<Rightarrow> 'c normalize_cb \<Rightarrow> 'c \<Rightarrow> bool \<times> 'c" where
  "lens_counter_normalize poll v cb ctx =
     cb ctx (pts poll) (pkey poll) (lens_rescale poll (of_i64 (sint v)))"

definition lens_gauge_alloc :: "sys \<Rightarrow> optics \<Rightarrow> string \<Rightarrow> (off option \<times> optics) option" where
  "lens_gauge_alloc sys o' name = lens_alloc sys o' optics_gauge sizeof_lens_gauge name"

definition lens_gauge_set :: "optics \<Rightarrow> off \<Rightarrow> nat \<Rightarrow> double \<Rightarrow> bool \<times> optics" where
  "lens_gauge_set o' lens e v =
     (case lens_sub_ptr (bytes o') lens optics_gauge of
        None \<Rightarrow> (False, o')
      | Some gauge \<Rightarrow> (True, set_bytes o' (store64 (bytes o') gauge (unat (pun_dtoi v)))))"

definition lens_gauge_read :: "optics \<Rightarrow> off \<Rightarrow> nat \<Rightarrow> double \<Rightarrow> optics_ret \<times> double" where
  "lens_gauge_read o' lens e v =
     (case lens_sub_ptr (bytes o') lens optics_gauge of
        None \<Rightarrow> (optics_err, v)
      | Some gauge \<Rightarrow> (optics_ok, pun_itod (of_nat (load64 (bytes o') gauge))))"

definition lens_gauge_normalize :: "optics_poll \<Rightarrow> double \<Rightarrow> 'c normalize_cb \<Rightarrow> 'c \<Rightarrow> bool \<times> 'c" where
  "lens_gauge_normalize poll v cb ctx = cb ctx (pts poll) (pkey poll) v"

section \<open>Properties of counters and gauges\<close>

definition counter_value :: "optics \<Rightarrow> off \<Rightarrow> nat \<Rightarrow> 64 word" where
  "counter_value o' lens e = of_nat (load64 (bytes o') (counter_cell (lens + 64) e))"

lemma unat64_less [simp]: "unat (w :: 64 word) < 18446744073709551616"
  using unsigned_less [of w, where ?'a = nat] by simp

lemma counter_cell_apart: "d \<noteq> e \<Longrightarrow> counter_cell c d + 8 \<le> counter_cell c e \<or> counter_cell c e + 8 \<le> counter_cell c d"
  by (auto simp: counter_cell_def)

lemma lens_counter_inc_eq:
  assumes "lens_type (bytes o') lens = type_code optics_counter"
  shows "lens_counter_inc o' lens e v =
    (True, set_bytes o' (store64 (bytes o') (counter_cell (lens + 64) e) (unat (counter_value o' lens e + v))))"
  using assms by (simp add: lens_counter_inc_def lens_sub_ptr_def sizeof_lens_def counter_value_def Let_def)

lemma lens_counter_inc_value:
  assumes "lens_counter_inc o' lens e v = (True, o1)"
  shows "counter_value o1 lens d = (if d = e then counter_value o' lens e + v else counter_value o' lens d)"
    and "y < lens + 64 \<or> lens + 64 + 8 * e + 8 \<le> y \<Longrightarrow> bytes o1 y = bytes o' y"
    and "lens_type (bytes o1) lens = lens_type (bytes o') lens"
proof -
  have t: "lens_type (bytes o') lens = type_code optics_counter"
    using assms by (auto simp: lens_counter_inc_def lens_sub_ptr_def split: if_splits)
  have o1: "o1 = set_bytes o' (store64 (bytes o') (counter_cell (lens + 64) e) (unat (counter_value o' lens e + v)))"
    using assms lens_counter_inc_eq [OF t] by simp
  show "counter_value o1 lens d = (if d = e then counter_value o' lens e + v else counter_value o' lens d)"
    using counter_cell_apart [of d e "lens + 64"] by (simp add: o1 counter_value_def load_store_disjoint)
  show "bytes o1 y = bytes o' y" if "y < lens + 64 \<or> lens + 64 + 8 * e + 8 \<le> y"
    using that by (auto simp: o1 store_frame counter_cell_def)
  show "lens_type (bytes o1) lens = lens_type (bytes o') lens"
    by (simp add: o1 lens_type_def load_store_disjoint counter_cell_def)
qed

text \<open>Increments in a row, in epochs of their own.\<close>

fun counter_incs :: "optics \<Rightarrow> off \<Rightarrow> (nat \<times> 64 word) list \<Rightarrow> optics" where
  "counter_incs o' lens [] = o'"
| "counter_incs o' lens ((e, v) # evs) = counter_incs (snd (lens_counter_inc o' lens e v)) lens evs"

definition epoch_sum :: "nat \<Rightarrow> (nat \<times> 64 word) list \<Rightarrow> 64 word" where
  "epoch_sum e evs = sum_list (map snd (filter (\<lambda>ev. fst ev = e) evs))"

lemma counter_incs_value:
  assumes "lens_type (bytes o') lens = type_code optics_counter"
  shows "counter_value (counter_incs o' lens evs) lens e = counter_value o' lens e + epoch_sum e evs \<and>
     lens_type (bytes (counter_incs o' lens evs)) lens = type_code optics_counter"
  using assms
proof (induction evs arbitrary: o')
  case Nil
  then show ?case by (simp add: epoch_sum_def)
next
  case (Cons ev evs)
  obtain d v where ev: "ev = (d, v)" by (cases ev)
  obtain o1 where o1: "lens_counter_inc o' lens d v = (True, o1)"
    using lens_counter_inc_eq [OF Cons.prems] by blast
  note I = lens_counter_inc_value [OF o1]
  show ?case
    using Cons.IH [of o1] I(1) [of e] I(3) Cons.prems o1 by (auto simp: ev epoch_sum_def)
qed

text \<open>
  A counter counts. After any sequence of increments in either epoch, reading an epoch
  adds to the caller's value the sum of that epoch (modulo two to the 64, so negative
  increments count too) and empties it, so that a second read adds nothing; the other epoch
  is left alone.
\<close>

theorem counter_read_sums:
  assumes "lens_type (bytes o') lens = type_code optics_counter"
  shows "\<exists>o2. lens_counter_read (counter_incs o' lens evs) lens e v =
       (optics_ok, v + counter_value o' lens e + epoch_sum e evs, o2) \<and>
     (\<forall>w. \<exists>o3. lens_counter_read o2 lens e w = (optics_ok, w, o3)) \<and>
     (\<forall>d. d \<noteq> e \<longrightarrow> counter_value o2 lens d = counter_value o' lens d + epoch_sum d evs)"
proof -
  let ?o = "counter_incs o' lens evs"
  let ?o2 = "set_bytes ?o (store64 (bytes ?o) (counter_cell (lens + 64) e) 0)"
  have I: "counter_value ?o lens d = counter_value o' lens d + epoch_sum d evs"
      "lens_type (bytes ?o) lens = type_code optics_counter" for d
    using counter_incs_value [OF assms, of evs d] by simp_all
  have r: "lens_counter_read ?o lens e v = (optics_ok, v + counter_value ?o lens e, ?o2)"
    using I(2) by (simp add: lens_counter_read_def lens_sub_ptr_def sizeof_lens_def counter_value_def Let_def)
  have t2: "lens_type (bytes ?o2) lens = type_code optics_counter"
    using I(2) by (simp add: lens_type_def load_store_disjoint counter_cell_def)
  have z: "counter_value ?o2 lens e = 0" by (simp add: counter_value_def)
  have "\<exists>o3. lens_counter_read ?o2 lens e w = (optics_ok, w, o3)" for w
    using t2 z by (simp add: lens_counter_read_def lens_sub_ptr_def sizeof_lens_def counter_value_def Let_def)
  moreover have "counter_value ?o2 lens d = counter_value o' lens d + epoch_sum d evs" if "d \<noteq> e" for d
    using I(1) [of d] counter_cell_apart [OF that, of "lens + 64"]
    by (simp add: counter_value_def load_store_disjoint)
  ultimately show ?thesis using r I(1) [of e] by (auto simp: add.assoc)
qed

definition counter_store :: optics where
  "counter_store = set_bytes two_block_store (lens_init (\<lambda>_. 0) 704 optics_counter 16 4 ''hits'')"

lemma counter_store_type: "lens_type (bytes counter_store) 704 = type_code optics_counter"
  by (simp add: counter_store_def lens_type_def lens_init_def Let_def lens_name_ptr_def lens_lens_len_def
      load_store_disjoint load_memcpy_disjoint sizeof_lens_def)

theorem counter_read_sums_witness:
  "\<exists>o2. lens_counter_read (counter_incs counter_store 704 [(0, 5), (1, 7), (0, 2)]) 704 0 10 =
       (optics_ok, 10 + counter_value counter_store 704 0 + 7, o2) \<and>
     counter_value o2 704 1 = counter_value counter_store 704 1 + 7"
  using counter_read_sums [OF counter_store_type, of "[(0, 5), (1, 7), (0, 2)]" 0 10]
  by (auto simp: epoch_sum_def)

text \<open>
  A gauge keeps its last value. What \<open>lens_gauge_set\<close> stores is what \<open>lens_gauge_read\<close>
  returns, bit for bit and in any epoch; on a lens of another type both refuse and the store
  is unchanged.
\<close>

theorem gauge_set_read:
  "case lens_gauge_set o' lens e v of
     (True, o1) \<Rightarrow> lens_gauge_read o1 lens d w = (optics_ok, v) \<and> lens_type (bytes o') lens = type_code optics_gauge
   | (False, o1) \<Rightarrow> o1 = o' \<and> lens_gauge_read o' lens d w = (optics_err, w) \<and>
       lens_type (bytes o') lens \<noteq> type_code optics_gauge"
proof (cases "lens_type (bytes o') lens = type_code optics_gauge")
  case True
  then have "lens_type (store64 (bytes o') (lens + 64) (unat v)) lens = type_code optics_gauge"
    by (simp add: lens_type_def load_store_disjoint)
  then show ?thesis using True
    by (simp add: lens_gauge_set_def lens_gauge_read_def lens_sub_ptr_def sizeof_lens_def pun_dtoi_def
        pun_itod_def)
next
  case False
  then show ?thesis by (simp add: lens_gauge_set_def lens_gauge_read_def lens_sub_ptr_def)
qed

end
