(* ===== verification/Epochs.thy ===== *)
theory Epochs
  imports Counter
begin

text \<open>
  Recording and polling at the same time. A thread that records loads the epoch and then
  adds to the lens (\<^verbatim>\<open>optics_counter_inc\<close>); the poller, in another process, changes the epoch
  and then reads the lens of the epoch that ended (\<^verbatim>\<open>optics_epoch_inc\<close>, \<^verbatim>\<open>optics_counter_read\<close>).
  None of them takes a lock. A step of the relation is one atomic access, so that the threads
  and the poller interleave in every way; in particular a thread can add to an epoch long
  after the epoch ended.

  \<open>added\<close> and \<open>reported\<close> are history variables: the sum of all increments done and of all
  values handed to the poller.
\<close>

section \<open>Definitions\<close>

datatype inc_pc = Inc_idle | Inc_loaded nat "64 word"

datatype poll_pc = Poll_idle | Poll_ended nat

record rec_sys =
  rstore :: optics
  incs :: "nat \<Rightarrow> inc_pc"
  poller :: poll_pc
  added :: "64 word"
  reported :: "64 word"

text \<open>The atomic addition at the end of \<^verbatim>\<open>optics_epoch_inc\<close>.\<close>

definition epoch_fetch_add :: "optics \<Rightarrow> nat \<times> optics" where
  "epoch_fetch_add o' =
     (epoch (header o') mod 2, o'\<lparr>header := (header o')\<lparr>epoch := uadd (epoch (header o')) 1\<rparr>\<rparr>)"

inductive rec_step :: "off \<Rightarrow> rec_sys \<Rightarrow> rec_sys \<Rightarrow> bool" for lens where
  inc_load: "incs s t = Inc_idle \<Longrightarrow>
    rec_step lens s (s\<lparr>incs := (incs s)(t := Inc_loaded (optics_epoch (rstore s)) v)\<rparr>)"
| inc_add: "incs s t = Inc_loaded e v \<Longrightarrow> lens_counter_inc (rstore s) lens e v = (True, o1) \<Longrightarrow>
    rec_step lens s (s\<lparr>incs := (incs s)(t := Inc_idle), rstore := o1, added := added s + v\<rparr>)"
| poll_epoch: "poller s = Poll_idle \<Longrightarrow> epoch_fetch_add (rstore s) = (e, o1) \<Longrightarrow>
    rec_step lens s (s\<lparr>poller := Poll_ended e, rstore := o1\<rparr>)"
| poll_read: "poller s = Poll_ended e \<Longrightarrow> lens_counter_read (rstore s) lens e (reported s) = (optics_ok, r, o1) \<Longrightarrow>
    rec_step lens s (s\<lparr>poller := Poll_idle, rstore := o1, reported := r\<rparr>)"

inductive rec_steps :: "off \<Rightarrow> rec_sys \<Rightarrow> rec_sys \<Rightarrow> bool" for lens where
  none: "rec_steps lens s s"
| more: "rec_steps lens s s1 \<Longrightarrow> rec_step lens s1 s2 \<Longrightarrow> rec_steps lens s s2"

text \<open>A new counter: both epochs are 0, nobody is recording or polling.\<close>

definition rec_init :: "optics \<Rightarrow> off \<Rightarrow> rec_sys \<Rightarrow> bool" where
  "rec_init o' lens s \<longleftrightarrow> s = \<lparr>rstore = o', incs = (\<lambda>_. Inc_idle), poller = Poll_idle, added = 0, reported = 0\<rparr> \<and>
     lens_type (bytes o') lens = type_code optics_counter \<and>
     counter_value o' lens 0 = 0 \<and> counter_value o' lens 1 = 0"

section \<open>Conservation\<close>

definition rec_inv :: "off \<Rightarrow> rec_sys \<Rightarrow> bool" where
  "rec_inv lens s \<longleftrightarrow> lens_type (bytes (rstore s)) lens = type_code optics_counter \<and>
     added s = reported s + counter_value (rstore s) lens 0 + counter_value (rstore s) lens 1 \<and>
     (\<forall>t e v. incs s t = Inc_loaded e v \<longrightarrow> e < 2) \<and> (\<forall>e. poller s = Poll_ended e \<longrightarrow> e < 2)"

lemma lens_counter_read_value:
  assumes "lens_counter_read o' lens e v = (optics_ok, r, o1)"
  shows "r = v + counter_value o' lens e"
    and "counter_value o1 lens d = (if d = e then 0 else counter_value o' lens d)"
    and "lens_type (bytes o1) lens = lens_type (bytes o') lens"
proof -
  have t: "lens_type (bytes o') lens = type_code optics_counter"
    using assms by (auto simp: lens_counter_read_def lens_sub_ptr_def split: if_splits)
  have o1: "o1 = set_bytes o' (store64 (bytes o') (counter_cell (lens + 64) e) 0)"
      and r: "r = v + counter_value o' lens e"
    using assms t by (auto simp: lens_counter_read_def lens_sub_ptr_def sizeof_lens_def counter_value_def Let_def)
  show "r = v + counter_value o' lens e" by (rule r)
  show "counter_value o1 lens d = (if d = e then 0 else counter_value o' lens d)"
    using counter_cell_apart [of d e "lens + 64"] by (simp add: o1 counter_value_def load_store_disjoint)
  show "lens_type (bytes o1) lens = lens_type (bytes o') lens"
    by (simp add: o1 lens_type_def load_store_disjoint counter_cell_def)
qed

lemma epoch_fetch_add_bytes: "epoch_fetch_add o' = (e, o1) \<Longrightarrow> bytes o1 = bytes o' \<and> e < 2"
  by (auto simp: epoch_fetch_add_def)

lemma rec_step_inv: "rec_step lens s s' \<Longrightarrow> rec_inv lens s \<Longrightarrow> rec_inv lens s'"
proof (induction rule: rec_step.induct)
  case (inc_load s t v)
  then show ?case by (auto simp: rec_inv_def optics_epoch_def)
next
  case (inc_add s t e v o1)
  then have "e = 0 \<or> e = 1" by (auto simp: rec_inv_def less_2_cases_iff)
  then show ?case
    using inc_add lens_counter_inc_value(1,3) [OF inc_add(2)] by (auto simp: rec_inv_def algebra_simps)
next
  case (poll_epoch s e o1)
  then show ?case using epoch_fetch_add_bytes [OF poll_epoch(2)] by (auto simp: rec_inv_def counter_value_def)
next
  case (poll_read s e r o1)
  then have "e = 0 \<or> e = 1" by (auto simp: rec_inv_def less_2_cases_iff)
  then show ?case
    using poll_read lens_counter_read_value [OF poll_read(2)] by (auto simp: rec_inv_def algebra_simps)
qed

lemma rec_steps_inv: "rec_steps lens s s' \<Longrightarrow> rec_inv lens s \<Longrightarrow> rec_inv lens s'"
  by (induction rule: rec_steps.induct) (auto intro: rec_step_inv)

lemma rec_init_inv: "rec_init o' lens s \<Longrightarrow> rec_inv lens s"
  by (auto simp: rec_init_def rec_inv_def)

text \<open>
  C4: No increment is lost and none is counted twice. However recording threads and the
  poller interleave, at every moment the sum of the increments done equals what the poller
  has been given plus what the two epochs of the lens still hold.
\<close>

theorem counter_conservation:
  assumes "rec_init o' lens s" "rec_steps lens s s'"
  shows "added s' = reported s' + counter_value (rstore s') lens 0 + counter_value (rstore s') lens 1"
  using rec_steps_inv [OF assms(2) rec_init_inv [OF assms(1)]] by (simp add: rec_inv_def)


subsection \<open>Witnesses\<close>

definition counter_sys :: rec_sys where
  "counter_sys = \<lparr>rstore = counter_store, incs = (\<lambda>_. Inc_idle), poller = Poll_idle, added = 0, reported = 0\<rparr>"

lemma counter_sys_init: "rec_init counter_store 704 counter_sys"
proof -
  have "lens_init (\<lambda>_. 0) 704 optics_counter 16 4 ''hits'' y = 0" if "768 \<le> y" "y < 784" for y
    using that by (simp add: lens_init_def Let_def lens_name_ptr_def lens_lens_len_def load_store_disjoint
        sizeof_lens_def memcpy_def store_frame)
  then have "load64 (lens_init (\<lambda>_. 0) 704 optics_counter 16 4 ''hits'') (768 + 8 * e) = 0" if "e < 2" for e
    using that by (intro load_zero) auto
  from this [of 0] this [of 1] show ?thesis
    using counter_store_type
    by (simp add: rec_init_def counter_sys_def counter_value_def counter_store_def counter_cell_def)
qed

text \<open>A thread loads the epoch, the poller ends it, the thread adds 5 to the ended epoch.\<close>

lemma counter_sys_run:
  obtains s where "rec_steps 704 counter_sys s" "added s = 5" "poller s = Poll_ended 0"
proof -
  let ?s1 = "counter_sys\<lparr>incs := (incs counter_sys)(3 := Inc_loaded (optics_epoch (rstore counter_sys)) 5)\<rparr>"
  have 1: "rec_step 704 counter_sys ?s1" by (rule inc_load) (simp add: counter_sys_def)
  obtain oa where oa: "epoch_fetch_add (rstore ?s1) = (0, oa)" "bytes oa = bytes counter_store"
    by (simp add: epoch_fetch_add_def counter_sys_def counter_store_def two_block_store_def zero_header_def)
  let ?s2 = "?s1\<lparr>poller := Poll_ended 0, rstore := oa\<rparr>"
  have 2: "rec_step 704 ?s1 ?s2" by (rule poll_epoch [OF _ oa(1)]) (simp add: counter_sys_def)
  obtain ob where ob: "lens_counter_inc oa 704 (optics_epoch counter_store) 5 = (True, ob)"
    using lens_counter_inc_eq [of oa 704] counter_store_type oa(2) by simp
  let ?s3 = "?s2\<lparr>incs := (incs ?s2)(3 := Inc_idle), rstore := ob, added := added ?s2 + 5\<rparr>"
  have 3: "rec_step 704 ?s2 ?s3"
    by (rule inc_add [of _ _ "optics_epoch counter_store"]) (use ob in \<open>simp_all add: counter_sys_def\<close>)
  have "rec_steps 704 counter_sys ?s3"
    using rec_steps.more [OF rec_steps.more [OF rec_steps.more [OF rec_steps.none 1] 2] 3] .
  then show thesis by (rule that) (simp_all add: counter_sys_def)
qed

theorem counter_conservation_witness:
  "\<exists>s. rec_steps 704 counter_sys s \<and> added s = 5 \<and>
     5 = reported s + counter_value (rstore s) 704 0 + counter_value (rstore s) 704 1"
proof -
  obtain s where s: "rec_steps 704 counter_sys s" "added s = 5" by (rule counter_sys_run)
  show ?thesis using counter_conservation [OF counter_sys_init s(1)] s by auto
qed


end
