(* ===== verification/Optics.thy ===== *)
theory Optics
  imports Lens
begin

text \<open>
  The lenses of a store, \<^verbatim>\<open>src/optics.c\<close>: the list that pollers walk, the table that finds a
  lens by name, and the operations that add, find and remove a lens.

  A call returns \<open>None\<close> when it does not return: a lock is taken, an assertion fails or a null
  pointer is dereferenced.
\<close>

section \<open>Definitions\<close>

definition optics_push_lens :: "optics \<Rightarrow> off \<Rightarrow> optics option" where
  "optics_push_lens o' lens =
     (if fst (slock_try_lock (olock o')) then None
      else
        (case lens_set_next o' lens (lens_head (header o')) of
           None \<Rightarrow> None
         | Some o1 \<Rightarrow> Some (o1\<lparr>header := (header o1)\<lparr>lens_head := lens_off (bytes o1) lens\<rparr>\<rparr>)))"

definition optics_remove_lens :: "optics \<Rightarrow> off \<Rightarrow> optics option" where
  "optics_remove_lens o' lens =
     (if fst (slock_try_lock (olock o')) then None
      else
        (case lens_kill o' lens of
           None \<Rightarrow> None
         | Some o1 \<Rightarrow>
             if lens_head (header o1) = lens_off (bytes o1) lens
             then Some (o1\<lparr>header := (header o1)\<lparr>lens_head := lens_next (bytes o1) lens\<rparr>\<rparr>)
             else Some o1))"

text \<open>A callback gets its context and the lens and may change the store.\<close>

type_synonym 'c foreach_cb = "'c \<Rightarrow> optics \<Rightarrow> off \<Rightarrow> (optics_ret \<times> 'c \<times> optics) option"

partial_function (option) foreach_loop ::
  "'c foreach_cb \<Rightarrow> 'c \<Rightarrow> optics \<Rightarrow> off \<Rightarrow> (optics_ret \<times> 'c \<times> optics) option" where
  "foreach_loop cb ctx o' off =
     (if off = 0 then Some (optics_ok, ctx, o')
      else
        (case lens_ptr o' off of
           None \<Rightarrow> Some (optics_err, ctx, o')
         | Some lens \<Rightarrow>
             Option.bind (cb ctx o' lens) (\<lambda>(ret, ctx', o1).
               if ret \<noteq> optics_ok then Some (ret, ctx', o1)
               else foreach_loop cb ctx' o1 (lens_next (bytes o1) lens))))"

definition optics_foreach_lens :: "optics \<Rightarrow> 'c \<Rightarrow> 'c foreach_cb \<Rightarrow> (optics_ret \<times> 'c \<times> optics) option" where
  "optics_foreach_lens o' ctx cb = foreach_loop cb ctx o' (lens_head (header o'))"

text \<open>
  \<^verbatim>\<open>struct optics_lens\<close> is a lens of the store at hand; \<open>None\<close> is a null pointer. The inner
  option of \<open>optics_lens_get\<close> is the lens field of the structure, which can be null too.
\<close>

definition optics_lens_get :: "optics \<Rightarrow> string \<Rightarrow> (off option option \<times> optics) option" where
  "optics_lens_get o' name =
     (case slock_lock (olock o') of
        None \<Rightarrow> None
      | Some l \<Rightarrow>
          (case htable_get (okeys o') name of
             None \<Rightarrow> None
           | Some (ret, ht) \<Rightarrow>
               (let o1 = o'\<lparr>okeys := ht, olock := slock_unlock l\<rparr> in
                Some (if ok ret then Some (lens_ptr o1 (unat (rvalue ret))) else None, o1))))"

definition optics_lens_alloc :: "optics \<Rightarrow> off \<Rightarrow> (off option \<times> optics) option" where
  "optics_lens_alloc o' lens =
     (case slock_lock (olock o') of
        None \<Rightarrow> None
      | Some l \<Rightarrow>
          (case htable_put (okeys o') (lens_name (bytes o') lens) (of_nat (lens_off (bytes o') lens)) of
             None \<Rightarrow> None
           | Some (ret, ht) \<Rightarrow>
               (let o1 = o'\<lparr>olock := l, okeys := ht\<rparr> in
                case (if ok ret then optics_push_lens o1 lens else Some o1) of
                  None \<Rightarrow> None
                | Some o2 \<Rightarrow>
                    Some (if ok ret then Some lens else None, o2\<lparr>olock := slock_unlock (olock o2)\<rparr>))))"

definition optics_lens_alloc_get :: "optics \<Rightarrow> off \<Rightarrow> (off option \<times> optics) option" where
  "optics_lens_alloc_get o' lens =
     (case slock_lock (olock o') of
        None \<Rightarrow> None
      | Some l \<Rightarrow>
          (case htable_put (okeys o') (lens_name (bytes o') lens) (of_nat (lens_off (bytes o') lens)) of
             None \<Rightarrow> None
           | Some (ret, ht) \<Rightarrow>
               (let o1 = o'\<lparr>olock := l, okeys := ht\<rparr> in
                case (if ok ret then map_option (Pair (Some lens)) (optics_push_lens o1 lens)
                      else Some (lens_ptr o1 (unat (rvalue ret)), o1)) of
                  None \<Rightarrow> None
                | Some (lens', o2) \<Rightarrow> Some (lens', o2\<lparr>olock := slock_unlock (olock o2)\<rparr>))))"

definition optics_lens_free :: "sys \<Rightarrow> optics \<Rightarrow> off \<Rightarrow> (bool \<times> optics) option" where
  "optics_lens_free sys o' lens =
     (case slock_lock (olock o') of
        None \<Rightarrow> None
      | Some l \<Rightarrow>
          (case htable_del (okeys o') (lens_name (bytes o') lens) of
             None \<Rightarrow> None
           | Some (ret, ht) \<Rightarrow>
               (let o1 = o'\<lparr>olock := l, okeys := ht\<rparr> in
                case (if ok ret then optics_remove_lens o1 lens else Some o1) of
                  None \<Rightarrow> None
                | Some o2 \<Rightarrow>
                    (let o3 = o2\<lparr>olock := slock_unlock (olock o2)\<rparr> in
                     if \<not> ok ret then Some (False, o3) else lens_defer_free sys o3 lens))))"

definition optics_lens_type_of :: "optics \<Rightarrow> off \<Rightarrow> nat" where
  "optics_lens_type_of o' lens = lens_type (bytes o') lens"

definition optics_lens_name :: "optics \<Rightarrow> off \<Rightarrow> string" where
  "optics_lens_name o' lens = lens_name (bytes o') lens"

section \<open>The invariant\<close>

text \<open>
  \<open>optics_rel o' xs D X\<close>: the lenses of the store are \<open>xs\<close> in list order, \<open>D\<close> are the deferred
  frees and \<open>X\<close> the other live blocks; the table maps exactly the names of the lenses to
  their offsets.
\<close>

definition keys_rel :: "optics \<Rightarrow> off set \<Rightarrow> bool" where
  "keys_rel o' S \<longleftrightarrow> ht_inv (okeys o') \<and> (\<forall>x \<in> S. length (lens_name (bytes o') x) \<le> 256) \<and>
     (\<forall>k w. ht_abs (okeys o') k = Some w \<longleftrightarrow>
        (\<exists>x \<in> S. lens_name (bytes o') x = cut_key k \<and> w = of_nat x))"

definition core_rel :: "optics \<Rightarrow> off list \<Rightarrow> (nat \<Rightarrow> deferred list) \<Rightarrow> (off \<times> nat) set \<Rightarrow> bool" where
  "core_rel o' xs D X \<longleftrightarrow> distinct xs \<and> (\<forall>x \<in> set xs. lens_ok (bytes o') x) \<and>
     dlist (lens_next (bytes o')) (lens_prev (bytes o')) 0 (lens_head (header o')) xs \<and>
     lens_block (bytes o') ` set xs \<inter> X = {} \<and>
     store_rel o' D (lens_block (bytes o') ` set xs \<union> X)"

definition optics_rel :: "optics \<Rightarrow> off list \<Rightarrow> (nat \<Rightarrow> deferred list) \<Rightarrow> (off \<times> nat) set \<Rightarrow> bool" where
  "optics_rel o' xs D X \<longleftrightarrow> olock o' = 0 \<and> keys_rel o' (set xs) \<and> core_rel o' xs D X"

lemma core_relD:
  assumes "core_rel o' xs D X"
  shows "distinct xs" "\<And>x. x \<in> set xs \<Longrightarrow> lens_ok (bytes o') x"
    "dlist (lens_next (bytes o')) (lens_prev (bytes o')) 0 (lens_head (header o')) xs"
    "lens_block (bytes o') ` set xs \<inter> X = {}"
    "store_rel o' D (lens_block (bytes o') ` set xs \<union> X)"
  using assms by (simp_all add: core_rel_def)

lemma core_rel_local [simp]:
  "core_rel (o'\<lparr>olock := l\<rparr>) xs D X = core_rel o' xs D X"
  "core_rel (o'\<lparr>okeys := ht\<rparr>) xs D X = core_rel o' xs D X"
  by (simp_all add: core_rel_def store_rel_def)

lemma keys_rel_lock [simp]: "keys_rel (o'\<lparr>olock := l\<rparr>) S = keys_rel o' S"
  by (simp add: keys_rel_def)

lemma cut_short: "length s \<le> 256 \<Longrightarrow> cut_key s = s"
  by (simp add: cut_key_def htable_key_max_len_def)

lemma store_rel_head [simp]:
  "store_rel (o'\<lparr>header := (header o')\<lparr>lens_head := x\<rparr>\<rparr>) D Y = store_rel o' D Y"
  by (simp add: store_rel_def)

lemma lens_ptr_local [simp]:
  "lens_ptr (o'\<lparr>olock := l\<rparr>) x = lens_ptr o' x" "lens_ptr (o'\<lparr>okeys := ht\<rparr>) x = lens_ptr o' x"
  by (simp_all add: lens_ptr_def optics_ptr_def split: option.split)

text \<open>Every live block of the store.\<close>

definition all_blocks :: "optics \<Rightarrow> off list \<Rightarrow> (nat \<Rightarrow> deferred list) \<Rightarrow> (off \<times> nat) set \<Rightarrow> (off \<times> nat) set" where
  "all_blocks o' xs D X = set (dblocks (D 0 @ D 1)) \<union> (lens_block (bytes o') ` set xs \<union> X)"

lemma core_rel_set:
  "core_rel o' xs D X \<Longrightarrow> lens_set o' (set xs) (all_blocks o' xs D X)"
  by (auto simp: lens_set_def core_rel_def all_blocks_def dest: store_relD(5))

section \<open>Changing links only\<close>

text \<open>Nothing changes but links of the lenses in \<open>S\<close>.\<close>

definition links_only :: "off set \<Rightarrow> optics \<Rightarrow> optics \<Rightarrow> bool" where
  "links_only S o1 o2 \<longleftrightarrow> header o2 = header o1 \<and> okeys o2 = okeys o1 \<and> olock o2 = olock o1 \<and>
     rg (oheap o2) = rg (oheap o1) \<and> (\<forall>y. (\<forall>x \<in> S. y < x + 24 \<or> x + 40 \<le> y) \<longrightarrow> bytes o2 y = bytes o1 y)"

lemma links_only_refl [simp]: "links_only S o1 o1"
  by (simp add: links_only_def)

lemma links_only_trans: "links_only S o1 o2 \<Longrightarrow> links_only S o2 o3 \<Longrightarrow> links_only S o1 o3"
  by (simp add: links_only_def)

lemma link_store_only: "x \<in> S \<Longrightarrow> k = 24 \<or> k = 32 \<Longrightarrow>
    links_only S o' (set_bytes o' (store64 (bytes o') (x + k) v))"
  by (auto simp: links_only_def store_frame)

lemma store_rel_links:
  assumes "store_rel o' D Y" "lens_set o' S (set (dblocks (D 0 @ D 1)) \<union> Y)" "lens_block (bytes o') ` S \<subseteq> Y"
    and "links_only S o' o1" "lens_set o1 S (set (dblocks (D 0 @ D 1)) \<union> Y)"
  shows "store_rel o1 D Y"
proof -
  note R = store_relD [OF assms(1)]
  have "dchain (bytes o1) (epoch_defers (header o') ! e) (D e)" if "e < 2" for e
  proof (rule dchain_frame [OF R(2) [OF that]])
    fix n y assume n: "node_block n \<in> set (dblocks (D e))" "n \<le> y" "y < n + 32"
    then have L: "node_block n \<in> set (dblocks (D 0 @ D 1))"
      using that by (auto simp: less_2_cases_iff)
    have "y < x + 24 \<or> x + 40 \<le> y" if "x \<in> S" for x
    proof -
      have "lens_ok (bytes o') x" using assms(2) that by (simp add: lens_set_def)
      then have "64 < lens_total_len (bytes o') x" by (rule lens_total_min)
      moreover have "node_block n \<noteq> lens_block (bytes o') x"
        using L R(4) assms(3) that by blast
      ultimately show ?thesis
        using lens_set_apart [OF assms(2) that _ _, of "node_block n" y] L n by (auto simp: node_bytes)
    qed
    then show "bytes o1 y = bytes o' y" using assms(4) by (auto simp: links_only_def)
  qed
  then show ?thesis
    using R assms(4,5) by (simp add: store_rel_def links_only_def lens_set_def)
qed

section \<open>Adding a lens\<close>

lemma optics_push_lens_total:
  assumes "core_rel o' xs D X" "lens_ok (bytes o') x" "lens_block (bytes o') x \<in> X"
    "lens_prev (bytes o') x = 0" "olock o' \<noteq> 0"
  obtains o1 where "optics_push_lens o' x = Some (o1\<lparr>header := (header o1)\<lparr>lens_head := x\<rparr>\<rparr>)"
    "core_rel (o1\<lparr>header := (header o1)\<lparr>lens_head := x\<rparr>\<rparr>) (x # xs) D (X - {lens_block (bytes o') x})"
    "same_lenses (insert x (set xs)) o' o1" "links_only (insert x (set xs)) o' o1"
proof -
  note R = core_relD [OF assms(1)]
  let ?S = "insert x (set xs)" and ?L = "all_blocks o' xs D X"
  let ?h = "lens_head (header o')"
  have S: "lens_set o' ?S ?L"
    using core_rel_set [OF assms(1)] assms(2,3) by (simp add: lens_set_def all_blocks_def)
  have xnew: "x \<notin> set xs" using R(4) assms(3) by auto
  have x: "lens_off (bytes o') x = x" "x < 18446744073709551616" "x \<noteq> 0"
    using assms(2) lens_set_ptr(2) [OF S] heap_inv_ptr(2) [of "oheap o'" ?L x] S assms(3)
    by (auto simp: lens_ok_def lens_set_def all_blocks_def lens_block_def)
  have head: "?h = 0 \<and> xs = [] \<or> ?h \<noteq> 0 \<and> ?h \<in> set xs"
    using R(3) by (cases xs) auto
  then have hs: "?h < 18446744073709551616" using lens_set_ptr(2) [OF S, of ?h] by auto
  define o1 where "o1 = set_bytes o' (store64 (bytes o') (x + 24) ?h)"
  have l1: "lens_set o1 ?S ?L" "same_lenses ?S o' o1"
      "\<And>z. z \<in> ?S \<Longrightarrow> lens_next (bytes o1) z = (if z = x then ?h else lens_next (bytes o') z)"
      "\<And>z. z \<in> ?S \<Longrightarrow> lens_prev (bytes o1) z = lens_prev (bytes o') z"
    using link_store [OF S insertI1, of 24 ?h] hs by (simp_all add: o1_def)
  have k1: "links_only ?S o' o1" unfolding o1_def by (rule link_store_only) simp_all
  define o2 where "o2 = (if ?h = 0 then o1 else set_bytes o1 (store64 (bytes o1) (?h + 32) x))"
  have o2: "lens_set o2 ?S ?L" "same_lenses ?S o1 o2" "links_only ?S o1 o2"
      "\<And>z. z \<in> ?S \<Longrightarrow> lens_next (bytes o2) z = lens_next (bytes o1) z"
      "\<And>z. z \<in> ?S \<Longrightarrow> lens_prev (bytes o2) z = (if z = ?h then x else lens_prev (bytes o1) z)"
  proof -
    have "lens_set o2 ?S ?L \<and> same_lenses ?S o1 o2 \<and> links_only ?S o1 o2 \<and>
      (\<forall>z \<in> ?S. lens_next (bytes o2) z = lens_next (bytes o1) z) \<and>
      (\<forall>z \<in> ?S. lens_prev (bytes o2) z = (if z = ?h then x else lens_prev (bytes o1) z))"
    proof (cases "?h = 0")
      case True
      then show ?thesis using head l1(1) x(3) by (auto simp: o2_def)
    next
      case False
      then have h: "?h \<in> ?S" using head by auto
      show ?thesis
        using link_store [OF l1(1) h, of 32 x] link_store_only [OF h, of 32 o1 x] x(2) False
        by (simp add: o2_def)
    qed
    then show "lens_set o2 ?S ?L" "same_lenses ?S o1 o2" "links_only ?S o1 o2"
      "\<And>z. z \<in> ?S \<Longrightarrow> lens_next (bytes o2) z = lens_next (bytes o1) z"
      "\<And>z. z \<in> ?S \<Longrightarrow> lens_prev (bytes o2) z = (if z = ?h then x else lens_prev (bytes o1) z)" by auto
  qed
  have off1: "lens_off (bytes o1) x = x" "lens_off (bytes o2) x = x"
    using l1(2) o2(2) x(1) by (auto simp: same_lenses_def)
  have prev_head: "lens_prev (bytes o1) ?h = 0" if "?h \<noteq> 0"
    using that head R(3) l1(4) [of ?h] by (cases xs) auto
  have "lens_set_next o' x ?h = Some o2"
    using lens_set_ptr(1) [OF l1(1), of ?h] head prev_head off1
    by (auto simp: lens_set_next_def Let_def o2_def simp flip: o1_def)
  then have eq: "optics_push_lens o' x = Some (o2\<lparr>header := (header o2)\<lparr>lens_head := x\<rparr>\<rparr>)"
    using assms(5) off1 by (simp add: optics_push_lens_def slock_try_lock_def)
  have dl: "dlist (lens_next (bytes o2)) (lens_prev (bytes o2)) 0 x (x # xs)"
  proof (rule dlist_push [OF R(3) x(3) xnew R(1)])
    show "lens_next (bytes o2) x = ?h" using o2(4) l1(3) by simp
    show "lens_prev (bytes o2) x = 0" using o2(5) [of x] l1(4) [of x] assms(4) head xnew x(3) by auto
    show "lens_prev (bytes o2) ?h = x" if "xs \<noteq> []" using o2(5) [of ?h] head that by auto
    show "lens_next (bytes o2) y = lens_next (bytes o') y" if "y \<in> set xs" for y
      using o2(4) [of y] l1(3) [of y] that xnew by auto
    show "lens_prev (bytes o2) y = lens_prev (bytes o') y" if "y \<in> set xs" "y \<noteq> ?h" for y
      using o2(5) [of y] l1(4) [of y] that by auto
  qed
  have same: "same_lenses ?S o' o2" using same_lenses_trans [OF l1(2) o2(2)] .
  have only: "links_only ?S o' o2" using links_only_trans [OF k1 o2(3)] .
  have bl: "lens_block (bytes o2) z = lens_block (bytes o') z" if "z \<in> ?S" for z
    using same that by (auto simp: same_lenses_def)
  have img: "lens_block (bytes o2) ` ?S = insert (lens_block (bytes o') x) (lens_block (bytes o') ` set xs)"
    using bl by auto
  have Y: "lens_block (bytes o') ` set xs \<union> X = lens_block (bytes o2) ` ?S \<union> (X - {lens_block (bytes o') x})"
    unfolding img using assms(3) by auto
  have "store_rel o2 D (lens_block (bytes o') ` set xs \<union> X)"
    by (rule store_rel_links [OF R(5) _ _ only])
      (use S o2(1) assms(3) in \<open>auto simp: all_blocks_def\<close>)
  then have st: "store_rel o2 D (lens_block (bytes o2) ` ?S \<union> (X - {lens_block (bytes o') x}))"
    unfolding Y .
  have dj: "lens_block (bytes o2) ` ?S \<inter> (X - {lens_block (bytes o') x}) = {}"
    unfolding img using R(4) by auto
  have "core_rel (o2\<lparr>header := (header o2)\<lparr>lens_head := x\<rparr>\<rparr>) (x # xs) D (X - {lens_block (bytes o') x})"
    using dl o2(1) R(1) xnew st dj by (simp add: core_rel_def lens_set_def)
  then show thesis using that [OF eq _ same only] by blast
qed

lemma keys_rel_same:
  assumes "keys_rel o' S" "same_lenses S o' o1" "okeys o1 = okeys o'"
  shows "keys_rel o1 S"
  using assms by (simp add: keys_rel_def same_lenses_def)

lemma keys_rel_lookup:
  "keys_rel o' S \<Longrightarrow> ht_abs (okeys o') k = Some w \<longleftrightarrow>
     (\<exists>x \<in> S. lens_name (bytes o') x = cut_key k \<and> w = of_nat x)"
  by (simp only: keys_rel_def)

lemma keys_rel_None:
  assumes "keys_rel o' S" "length k \<le> 256"
  shows "ht_abs (okeys o') k = None \<longleftrightarrow> k \<notin> lens_name (bytes o') ` S"
proof -
  have "ht_abs (okeys o') k = None \<longleftrightarrow> (\<forall>w. ht_abs (okeys o') k \<noteq> Some w)" by auto
  also have "\<dots> \<longleftrightarrow> (\<forall>x \<in> S. lens_name (bytes o') x \<noteq> k)"
    using assms(1) by (auto simp: keys_rel_def cut_short [OF assms(2)])
  finally show ?thesis by auto
qed

lemma keys_rel_put:
  assumes "keys_rel o' S" "length (lens_name (bytes o') x) \<le> 256"
    and "htable_put (okeys o') (lens_name (bytes o') x) (of_nat x) = Some (r, ht)"
  shows "if lens_name (bytes o') x \<in> lens_name (bytes o') ` S
    then \<not> ok r \<and> keys_rel (o'\<lparr>okeys := ht\<rparr>) S \<and>
      (\<exists>z \<in> S. lens_name (bytes o') z = lens_name (bytes o') x \<and> rvalue r = of_nat z)
    else ok r \<and> keys_rel (o'\<lparr>okeys := ht\<rparr>) (insert x S)"
proof -
  let ?n = "lens_name (bytes o') x"
  have inv: "ht_inv (okeys o')" using assms(1) by (simp add: keys_rel_def)
  note P = htable_put_spec [OF assms(3) inv]
  note none = keys_rel_None [OF assms(1,2)]
  show ?thesis
  proof (cases "?n \<in> lens_name (bytes o') ` S")
    case True
    then obtain w where w: "ht_abs (okeys o') ?n = Some w" using none by auto
    then obtain z where "z \<in> S" "lens_name (bytes o') z = ?n" "w = of_nat z"
      using assms(1,2) by (auto simp: keys_rel_def cut_short)
    then show ?thesis using P w True assms(1) by (auto simp: keys_rel_def)
  next
    case False
    then have w: "ht_abs (okeys o') ?n = None" using none by simp
    then have abs: "ht_abs ht k = (if cut_key k = ?n then Some (of_nat x) else ht_abs (okeys o') k)" for k
      using P assms(2) by (simp add: key_upd_def cut_short)
    have "ht_abs ht k = Some v \<longleftrightarrow> (\<exists>z \<in> insert x S. lens_name (bytes o') z = cut_key k \<and> v = of_nat z)" for k v
    proof (cases "cut_key k = ?n")
      case True
      moreover have "\<forall>z \<in> S. lens_name (bytes o') z \<noteq> ?n" using False by (metis imageI)
      ultimately show ?thesis using abs [of k] by auto
    next
      case ne: False
      then show ?thesis using assms(1) abs [of k] by (auto simp: keys_rel_def)
    qed
    then show ?thesis using P w False assms(1,2) by (auto simp: keys_rel_def)
  qed
qed

lemma keys_rel_inj:
  assumes "keys_rel o' S" "x \<in> S" "z \<in> S" "lens_name (bytes o') x = lens_name (bytes o') z"
    "x < 18446744073709551616" "z < 18446744073709551616"
  shows "x = z"
proof -
  let ?k = "lens_name (bytes o') x"
  have "cut_key ?k = ?k" using assms(1,2) by (intro cut_short) (simp add: keys_rel_def)
  then have "ht_abs (okeys o') ?k = Some (of_nat x)" "ht_abs (okeys o') ?k = Some (of_nat z)"
    using assms by (auto simp: keys_rel_def)
  then have "unat (of_nat x :: u64) = unat (of_nat z :: u64)" by simp
  then show ?thesis using assms(5,6) by (simp add: unat_of_nat)
qed

text \<open>
  A lens that is ready to be added: its block is live but it is in no list.
\<close>

definition new_lens :: "optics \<Rightarrow> (off \<times> nat) set \<Rightarrow> off \<Rightarrow> bool" where
  "new_lens o' X x \<longleftrightarrow> lens_ok (bytes o') x \<and> lens_block (bytes o') x \<in> X \<and> lens_prev (bytes o') x = 0 \<and>
     length (lens_name (bytes o') x) \<le> 256"

lemma optics_lens_alloc_cases:
  assumes "optics_rel o' xs D X" "new_lens o' X x"
    "htable_put (okeys o') (lens_name (bytes o') x) (of_nat x) = Some (r, ht)"
  obtains
    (old) z o1 where "optics_lens_alloc o' x = Some (None, o1)"
      "optics_lens_alloc_get o' x = Some (Some z, o1)" "z \<in> set xs"
      "lens_name (bytes o') z = lens_name (bytes o') x" "bytes o1 = bytes o'" "optics_rel o1 xs D X"
      "oheap o1 = oheap o'" "header o1 = header o'"
  | (new) o1 where "optics_lens_alloc o' x = Some (Some x, o1)"
      "optics_lens_alloc_get o' x = Some (Some x, o1)"
      "lens_name (bytes o') x \<notin> lens_name (bytes o') ` set xs"
      "optics_rel o1 (x # xs) D (X - {lens_block (bytes o') x})" "same_lenses (insert x (set xs)) o' o1"
proof -
  have R: "olock o' = 0" "keys_rel o' (set xs)" "core_rel o' xs D X"
    using assms(1) by (simp_all add: optics_rel_def)
  have N: "lens_ok (bytes o') x" "lens_block (bytes o') x \<in> X" "lens_prev (bytes o') x = 0"
      "length (lens_name (bytes o') x) \<le> 256" "lens_off (bytes o') x = x"
    using assms(2) by (simp_all add: new_lens_def lens_ok_def)
  note K = keys_rel_put [OF R(2) N(4) assms(3)]
  note S = core_rel_set [OF R(3)]
  let ?o = "o'\<lparr>olock := 1, okeys := ht\<rparr>"
  show thesis
  proof (cases "lens_name (bytes o') x \<in> lens_name (bytes o') ` set xs")
    case True
    then obtain z where z: "\<not> ok r" "z \<in> set xs" "lens_name (bytes o') z = lens_name (bytes o') x"
        "rvalue r = of_nat z" "keys_rel (o'\<lparr>okeys := ht\<rparr>) (set xs)"
      using K by auto
    have "unat (of_nat z :: u64) = z" using lens_set_ptr(2) [OF S z(2)] by (simp add: unat_of_nat)
    moreover have "lens_ptr ?o z = Some z"
      using lens_set_ptr(1) [OF S z(2)] by simp
    moreover have "optics_rel (o'\<lparr>olock := 0, okeys := ht\<rparr>) xs D X"
      using R(3) z(5) by (simp add: optics_rel_def keys_rel_def)
    ultimately show thesis
      using z R(1) N(5) assms(3)
      by (intro that(1) [of "o'\<lparr>olock := 0, okeys := ht\<rparr>" z])
        (simp_all add: optics_lens_alloc_def optics_lens_alloc_get_def Let_def)
  next
    case False
    then have r: "ok r" "keys_rel (o'\<lparr>okeys := ht\<rparr>) (insert x (set xs))" using K by auto
    have c: "core_rel ?o xs D X" using R(3) by simp
    show thesis
    proof (rule optics_push_lens_total [OF c, of x])
      fix o1 :: optics
      let ?o1 = "o1\<lparr>header := (header o1)\<lparr>lens_head := x\<rparr>\<rparr>"
      assume p: "optics_push_lens ?o x = Some ?o1" "core_rel ?o1 (x # xs) D (X - {lens_block (bytes ?o) x})"
        "same_lenses (insert x (set xs)) ?o o1" "links_only (insert x (set xs)) ?o o1"
      have "keys_rel o1 (insert x (set xs))"
        by (rule keys_rel_same [of "o'\<lparr>okeys := ht\<rparr>"])
          (use r(2) p(3,4) in \<open>simp_all add: same_lenses_def links_only_def\<close>)
      then have "optics_rel (?o1\<lparr>olock := 0\<rparr>) (x # xs) D (X - {lens_block (bytes o') x})"
        using p(2) by (simp add: optics_rel_def keys_rel_def)
      then show thesis
        using p(1,3) r(1) R(1) N(5) assms(3) False
        by (intro that(2) [of "?o1\<lparr>olock := 0\<rparr>"])
          (simp_all add: optics_lens_alloc_def optics_lens_alloc_get_def Let_def same_lenses_def)
    qed (use N in simp_all)
  qed
qed

section \<open>Removing a lens\<close>

text \<open>The store of a link that is there only if the neighbour is.\<close>

lemma lens_set_nonzero:
  assumes "lens_set o' S L"
  shows "0 \<notin> S"
proof
  assume "0 \<in> S"
  then have "(0, class_of (lens_total_len (bytes o') 0)) \<in> L" "heap_inv (oheap o') L"
    using assms by (auto simp: lens_set_def lens_block_def)
  then show False using heap_inv_ptr(2) [of "oheap o'" L 0 _ 0] by blast
qed

lemma maybe_link:
  assumes "lens_set o' S L" "n = 0 \<or> n \<noteq> 0 \<and> n \<in> S" "k = 24 \<or> k = 32" "v < 18446744073709551616" "0 \<notin> S"
  defines "o1 \<equiv> (if n = 0 then o' else set_bytes o' (store64 (bytes o') (n + k) v))"
  shows "lens_set o1 S L" "same_lenses S o' o1" "links_only S o' o1"
    and "\<And>z. z \<in> S \<Longrightarrow> lens_next (bytes o1) z = (if z = n \<and> k = 24 then v else lens_next (bytes o') z)"
    and "\<And>z. z \<in> S \<Longrightarrow> lens_prev (bytes o1) z = (if z = n \<and> k = 32 then v else lens_prev (bytes o') z)"
proof -
  have "lens_set o1 S L \<and> same_lenses S o' o1 \<and> links_only S o' o1 \<and>
    (\<forall>z \<in> S. lens_next (bytes o1) z = (if z = n \<and> k = 24 then v else lens_next (bytes o') z)) \<and>
    (\<forall>z \<in> S. lens_prev (bytes o1) z = (if z = n \<and> k = 32 then v else lens_prev (bytes o') z))"
  proof (cases "n = 0")
    case True
    then show ?thesis using assms(1,5) by (auto simp: o1_def)
  next
    case False
    then have n: "n \<in> S" using assms(2) by simp
    show ?thesis
      using link_store [OF assms(1) n assms(3,4)] link_store_only [OF n assms(3), of o' v] False
      by (simp add: o1_def)
  qed
  then show "lens_set o1 S L" "same_lenses S o' o1" "links_only S o' o1"
    "\<And>z. z \<in> S \<Longrightarrow> lens_next (bytes o1) z = (if z = n \<and> k = 24 then v else lens_next (bytes o') z)"
    "\<And>z. z \<in> S \<Longrightarrow> lens_prev (bytes o1) z = (if z = n \<and> k = 32 then v else lens_prev (bytes o') z)" by auto
qed

lemma lens_kill_total:
  assumes "core_rel o' (as @ x # bs) D X"
  obtains o2 where "lens_kill o' x = Some o2" "lens_set o2 (set (as @ x # bs)) (all_blocks o' (as @ x # bs) D X)"
    "same_lenses (set (as @ x # bs)) o' o2" "links_only (set (as @ x # bs)) o' o2"
    "lens_next (bytes o2) x = lens_next (bytes o') x"
    "dlist (lens_next (bytes o2)) (lens_prev (bytes o2)) 0
       (if as = [] then lens_next (bytes o') x else lens_head (header o')) (as @ bs)"
proof -
  note R = core_relD [OF assms]
  let ?S = "set (as @ x # bs)" and ?L = "all_blocks o' (as @ x # bs) D X"
  let ?n = "lens_next (bytes o') x" and ?p = "lens_prev (bytes o') x"
  have S: "lens_set o' ?S ?L" using core_rel_set [OF assms] .
  note at = dlist_at [OF R(3)]
  have nz: "0 \<notin> ?S" using lens_set_nonzero [OF S] .
  have n: "?n = 0 \<and> bs = [] \<or> ?n \<noteq> 0 \<and> ?n \<in> ?S \<and> bs \<noteq> [] \<and> ?n = hd bs"
    using at(2) nz by (cases bs) auto
  have p: "?p = 0 \<and> as = [] \<or> ?p \<noteq> 0 \<and> ?p \<in> ?S \<and> as \<noteq> [] \<and> ?p = last as"
  proof (cases "as = []")
    case False
    then have "last as \<in> ?S" using last_in_set [of as] by simp
    then have "last as \<noteq> 0" using nz by metis
    then show ?thesis using at(3) False \<open>last as \<in> ?S\<close> by simp
  qed (use at(3) in simp)
  have xS: "x \<in> ?S" "lens_off (bytes o') x = x" using R(2) [of x] by (simp_all add: lens_ok_def)
  have small: "?n < 18446744073709551616" "?p < 18446744073709551616"
    using n p lens_set_ptr(2) [OF S] by auto
  have ne: "?n \<noteq> x" "?p \<noteq> x" using n p R(1) at(1) last_in_set [of as] by auto
  define o1 where "o1 = (if ?n = 0 then o' else set_bytes o' (store64 (bytes o') (?n + 32) ?p))"
  have n': "?n = 0 \<or> ?n \<noteq> 0 \<and> ?n \<in> ?S" using n by auto
  note l1 = maybe_link [OF S n' disjI2 [OF refl] small(2) nz, folded o1_def]
  define o2 where "o2 = (if ?p = 0 then o1 else set_bytes o1 (store64 (bytes o1) (?p + 24) ?n))"
  have p': "?p = 0 \<or> ?p \<noteq> 0 \<and> ?p \<in> ?S" using p by auto
  note l2 = maybe_link [OF l1(1) p' disjI1 [OF refl] small(1) nz, folded o2_def]
  have kill1: "(if ?n = 0 then Some o' else case lens_ptr o' ?n of None \<Rightarrow> None
      | Some next \<Rightarrow> if lens_prev (bytes o') next \<noteq> lens_off (bytes o') x then None
          else Some (set_bytes o' (store64 (bytes o') (next + 32) ?p))) = Some o1"
    using n lens_set_ptr(1) [OF S, of ?n] at(5) xS(2) by (auto simp: o1_def)
  have px: "lens_prev (bytes o1) x = ?p" "lens_off (bytes o1) x = x"
    using l1(5) [of x] l1(2) xS ne by (auto simp: same_lenses_def)
  have "lens_next (bytes o1) ?p = x" if "?p \<noteq> 0"
    using l1(4) [of ?p] p that at(4) by auto
  then have "lens_kill o' x = Some o2"
    using p lens_set_ptr(1) [OF l1(1), of ?p] px
    by (auto simp: lens_kill_def Let_def kill1 o2_def)
  moreover have "lens_next (bytes o2) x = ?n"
    using l1(4) [of x] l2(4) [of x] xS(1) ne by auto
  moreover have "dlist (lens_next (bytes o2)) (lens_prev (bytes o2)) 0
      (if as = [] then ?n else lens_head (header o')) (as @ bs)"
  proof (rule dlist_remove [OF R(3) R(1)])
    show "lens_next (bytes o2) (last as) = ?n" if "as \<noteq> []" using l2(4) [of "last as"] p that by auto
    show "lens_next (bytes o2) y = lens_next (bytes o') y" if "y \<in> set (as @ bs)" "as = [] \<or> y \<noteq> last as" for y
      using l2(4) [of y] l1(4) [of y] that p nz by auto
    show "lens_prev (bytes o2) (hd bs) = ?p" if "bs \<noteq> []" using l2(5) [of "hd bs"] l1(5) [of "hd bs"] n that by auto
    show "lens_prev (bytes o2) y = lens_prev (bytes o') y" if "y \<in> set (as @ bs)" "bs = [] \<or> y \<noteq> hd bs" for y
      using l2(5) [of y] l1(5) [of y] that n nz by auto
  qed
  ultimately show thesis
    using that [of o2] l2(1) same_lenses_trans [OF l1(2) l2(2)] links_only_trans [OF l1(3) l2(3)] by simp
qed

lemma optics_remove_lens_total:
  assumes "core_rel o' (as @ x # bs) D X" "olock o' \<noteq> 0"
  obtains o1 where "optics_remove_lens o' x = Some o1"
    "core_rel o1 (as @ bs) D (insert (lens_block (bytes o') x) X)"
    "same_lenses (set (as @ x # bs)) o' o1" "okeys o1 = okeys o'" "olock o1 = olock o'"
    "lens_ok (bytes o1) x" "epoch (header o1) = epoch (header o')" "rg (oheap o1) = rg (oheap o')"
  using assms(1)
proof (cases rule: lens_kill_total)
  case (1 o2)
  note R = core_relD [OF assms(1)]
  let ?S = "set (as @ x # bs)" and ?L = "all_blocks o' (as @ x # bs) D X"
  have hd_eq: "header o2 = header o'" "okeys o2 = okeys o'" "olock o2 = olock o'" "rg (oheap o2) = rg (oheap o')"
    using 1(4) by (simp_all add: links_only_def)
  have off: "lens_off (bytes o2) x = x"
    using 1(3) R(2) [of x] by (simp add: same_lenses_def lens_ok_def)
  have head: "lens_head (header o') = x \<longleftrightarrow> as = []"
    using dlist_head [OF R(3)] R(1) by (cases as) auto
  define o1 where "o1 = (if as = [] then o2\<lparr>header := (header o2)\<lparr>lens_head := lens_next (bytes o') x\<rparr>\<rparr> else o2)"
  have b1: "bytes o1 = bytes o2" "oheap o1 = oheap o2" "epoch_defers (header o1) = epoch_defers (header o2)"
      "okeys o1 = okeys o2" "olock o1 = olock o2" "epoch (header o1) = epoch (header o2)"
    by (simp_all add: o1_def)
  have eq: "optics_remove_lens o' x = Some o1"
    using 1(1,5) assms(2) off head hd_eq by (simp add: optics_remove_lens_def slock_try_lock_def o1_def)
  have bl: "lens_block (bytes o2) z = lens_block (bytes o') z" if "z \<in> ?S" for z
    using 1(3) that by (auto simp: same_lenses_def)
  have img: "lens_block (bytes o2) ` set (as @ bs) = lens_block (bytes o') ` set (as @ bs)"
    using bl by (intro image_cong) auto
  have inj: "lens_block (bytes o') x \<notin> lens_block (bytes o') ` set (as @ bs)"
    using R(1) by (auto simp: lens_block_def)
  have Y: "lens_block (bytes o') ` ?S \<union> X = lens_block (bytes o2) ` set (as @ bs) \<union> insert (lens_block (bytes o') x) X"
    unfolding img by auto
  have "store_rel o2 D (lens_block (bytes o') ` ?S \<union> X)"
    by (rule store_rel_links [OF R(5) _ _ 1(4)])
      (use core_rel_set [OF assms(1)] 1(2) in \<open>auto simp: all_blocks_def\<close>)
  then have st: "store_rel o1 D (lens_block (bytes o2) ` set (as @ bs) \<union> insert (lens_block (bytes o') x) X)"
    unfolding Y store_rel_def b1 .
  have dj: "lens_block (bytes o2) ` set (as @ bs) \<inter> insert (lens_block (bytes o') x) X = {}"
    unfolding img using R(4) inj by auto
  have dl: "dlist (lens_next (bytes o2)) (lens_prev (bytes o2)) 0 (lens_head (header o1)) (as @ bs)"
    using 1(6) hd_eq by (cases "as = []") (simp_all add: o1_def)
  have okS: "\<forall>z \<in> ?S. lens_ok (bytes o2) z" using 1(2) by (simp add: lens_set_def)
  have "core_rel o1 (as @ bs) D (insert (lens_block (bytes o') x) X)"
    unfolding core_rel_def b1 using R(1) okS dl dj st by auto
  moreover have "same_lenses ?S o' o1" using 1(3) unfolding same_lenses_def b1 .
  ultimately show thesis
    using that [OF eq] okS hd_eq by (simp add: b1)
qed

lemma keys_rel_del:
  assumes "keys_rel o' S" "x \<in> S" "\<And>z. z \<in> S \<Longrightarrow> z < 18446744073709551616"
  obtains r ht where "htable_del (okeys o') (lens_name (bytes o') x) = Some (r, ht)" "ok r"
    "keys_rel (o'\<lparr>okeys := ht\<rparr>) (S - {x})"
proof -
  let ?n = "lens_name (bytes o') x"
  have inv: "ht_inv (okeys o')" and len: "length ?n \<le> 256" using assms(1,2) by (simp_all add: keys_rel_def)
  note c = cut_short [OF len]
  have w: "ht_abs (okeys o') ?n = Some (of_nat x)" using assms(1,2) c by (auto simp: keys_rel_def)
  obtain r ht where d: "htable_del (okeys o') ?n = Some (r, ht)" "ht_inv ht" "ok r"
      "ht_abs ht = key_upd (ht_abs (okeys o')) ?n None"
    using htable_del_spec [OF inv, of ?n] w by auto
  have uniq: "lens_name (bytes o') z \<noteq> ?n" if "z \<in> S - {x}" for z
    using keys_rel_inj [OF assms(1), of z x] assms(2,3) that by auto
  have "ht_abs ht k = Some v \<longleftrightarrow> (\<exists>z \<in> S - {x}. lens_name (bytes o') z = cut_key k \<and> v = of_nat z)" for k v
  proof (cases "cut_key k = ?n")
    case True
    then show ?thesis using d(4) uniq c by (auto simp: key_upd_def)
  next
    case False
    then show ?thesis using d(4) c assms(1) by (auto simp: key_upd_def keys_rel_def)
  qed
  then show thesis using that [OF d(1,3)] d(2) assms(1) by (auto simp: keys_rel_def)
qed

text \<open>A change that keeps the bytes of the lenses keeps the lenses.\<close>

lemma core_rel_keep:
  assumes "core_rel o' xs D X" "\<forall>x \<in> set xs. \<forall>y \<in> block_bytes (lens_block (bytes o') x). bytes o1 y = bytes o' y"
    and "lens_head (header o1) = lens_head (header o')"
    and "store_rel o1 D' (lens_block (bytes o') ` set xs \<union> X')" "lens_block (bytes o') ` set xs \<inter> X' = {}"
  shows "core_rel o1 xs D' X'" "same_lenses (set xs) o' o1"
proof -
  note R = core_relD [OF assms(1)]
  have "\<And>x y. x \<in> set xs \<Longrightarrow> y \<in> block_bytes (lens_block (bytes o') x) \<Longrightarrow> bytes o1 y = bytes o' y"
    using assms(2) by blast
  note same = lens_same [OF R(2) this]
  have img: "lens_block (bytes o1) ` set xs = lens_block (bytes o') ` set xs"
    using same(3) by (intro image_cong) auto
  have dl: "dlist (lens_next (bytes o1)) (lens_prev (bytes o1)) 0 (lens_head (header o1)) xs"
    unfolding assms(3) using same(5,6) by (intro dlist_cong [OF R(3)]) auto
  show "core_rel o1 xs D' X'"
    unfolding core_rel_def img using R(1) same(1) dl assms(4,5) by simp
  show "same_lenses (set xs) o' o1"
    using same R(2) by (simp add: same_lenses_def lens_ok_def)
qed

lemma optics_lens_free_cases:
  assumes "optics_rel o' xs D X" "x \<in> set xs" "sys_amd64 sys"
  defines "b \<equiv> lens_block (bytes o') x" and "l \<equiv> lens_total_len (bytes o') x" and "e \<equiv> optics_epoch o'"
  obtains
    (fail) o1 where "optics_lens_free sys o' x = Some (False, o1)" "optics_rel o1 (remove1 x xs) D (insert b X)"
      "same_lenses (set xs) o' o1" "vma_len (rg (oheap o')) < pos (rg (oheap o')) + 65536"
  | (ok) o1 n where "optics_lens_free sys o' x = Some (True, o1)"
      "optics_rel o1 (remove1 x xs) (D(e := (n, x, l) # D e)) X" "same_lenses (set xs) o' o1"
      "optics_epoch o1 = e"
proof -
  have R: "olock o' = 0" "keys_rel o' (set xs)" "core_rel o' xs D X"
    using assms(1) by (simp_all add: optics_rel_def)
  note S = core_rel_set [OF R(3)]
  obtain as bs where xs: "xs = as @ x # bs" using split_list [OF assms(2)] by blast
  have rem: "remove1 x xs = as @ bs" "set (as @ bs) = set xs - {x}"
    using core_relD(1) [OF R(3)] by (auto simp: xs remove1_append)
  obtain r ht where d: "htable_del (okeys o') (lens_name (bytes o') x) = Some (r, ht)" "ok r"
      "keys_rel (o'\<lparr>okeys := ht\<rparr>) (set xs - {x})"
    using keys_rel_del [OF R(2) assms(2)] lens_set_ptr(2) [OF S] by blast
  let ?o = "o'\<lparr>olock := 1, okeys := ht\<rparr>"
  have c: "core_rel ?o (as @ x # bs) D X" "olock ?o \<noteq> 0" using R(3) xs by simp_all
  from c show thesis
  proof (cases rule: optics_remove_lens_total)
    case (1 o1)
    let ?o1 = "o1\<lparr>olock := 0\<rparr>"
    have same: "same_lenses (set xs) o' o1" using 1(3) by (simp add: xs same_lenses_def)
    have x1: "lens_off (bytes o1) x = x" "lens_total_len (bytes o1) x = l" "lens_block (bytes o1) x = b"
      using same assms(2) core_relD(2) [OF R(3) assms(2)] by (auto simp: same_lenses_def lens_ok_def l_def b_def)
    have l: "l \<le> 4096" "(x, class_of l) = b"
      using core_relD(2) [OF R(3) assms(2)] by (simp_all add: l_def b_def lens_block_def lens_ok_def)
    have core: "core_rel ?o1 (as @ bs) D (insert b X)" using 1(2) by (simp add: b_def)
    have keys: "keys_rel ?o1 (set (as @ bs))"
      using d(3) same 1(4) rem(2) by (auto simp: keys_rel_def same_lenses_def)
    have free_eq: "optics_lens_free sys o' x = optics_defer_free sys ?o1 x l"
      using R(1) d(1,2) 1(1) x1 by (simp add: optics_lens_free_def Let_def lens_defer_free_def)
    have e: "optics_epoch ?o1 = e" using 1(7) by (simp add: optics_epoch_def e_def)
    note C = core_relD [OF core]
    have st: "store_rel ?o1 D (lens_block (bytes ?o1) ` set (as @ bs) \<union> insert b X)" using C(5) .
    have bX: "(x, class_of l) \<in> lens_block (bytes ?o1) ` set (as @ bs) \<union> insert b X" using l(2) by simp
    from st bX l(1) assms(3) show thesis
    proof (cases rule: optics_defer_free_cases)
      case (fail h)
      have "optics_rel (?o1\<lparr>oheap := h\<rparr>) (remove1 x xs) D (insert b X)"
        using C fail(2,3) keys by (simp add: optics_rel_def core_rel_def rem(1) keys_rel_def)
      then show thesis
        using that(1) [of "?o1\<lparr>oheap := h\<rparr>"] fail same 1(8) free_eq by (simp add: same_lenses_def)
    next
      case (ok n h)
      let ?o2 = "(set_defer ?o1 (optics_epoch ?o1) n)\<lparr>oheap := h\<rparr>"
      have bX': "b \<notin> X" "b \<notin> lens_block (bytes ?o1) ` set (as @ bs)"
        using core_relD(4) [OF R(3)] assms(2) C(4) by (auto simp: b_def)
      then have Y: "lens_block (bytes ?o1) ` set (as @ bs) \<union> insert b X - {(x, class_of l)} =
          lens_block (bytes ?o1) ` set (as @ bs) \<union> X" using l(2) by auto
      have kept: "\<forall>z \<in> set (as @ bs). \<forall>y \<in> block_bytes (lens_block (bytes ?o1) z). bytes ?o2 y = bytes ?o1 y"
        using ok(3) by auto
      have st2: "store_rel ?o2 (D(e := (n, x, l) # D e)) (lens_block (bytes ?o1) ` set (as @ bs) \<union> X)"
        using ok(2) unfolding Y e .
      have head: "lens_head (header ?o2) = lens_head (header ?o1)" by simp
      have dj: "lens_block (bytes ?o1) ` set (as @ bs) \<inter> X = {}" using C(4) by blast
      note K1 = core_rel_keep [OF core kept head st2 dj]
      have "keys_rel ?o2 (set (as @ bs))" by (rule keys_rel_same [OF keys K1(2)]) simp
      then have rel: "optics_rel ?o2 (remove1 x xs) (D(e := (n, x, l) # D e)) X"
        using K1(1) by (simp add: optics_rel_def rem(1))
      have "same_lenses {x} ?o1 ?o2"
      proof -
        have "lens_ok (bytes ?o1) x" using 1(6) by simp
        moreover have "bytes ?o2 y = bytes ?o1 y" if "y \<in> block_bytes (lens_block (bytes ?o1) x)" for y
          using ok(3) that x1(3) by auto
        ultimately show ?thesis
          using lens_same [of "bytes ?o1" x "bytes ?o2"] by (simp add: same_lenses_def lens_ok_def)
      qed
      then have "same_lenses (set xs) ?o1 ?o2"
        using K1(2) rem(2) by (auto simp: same_lenses_def)
      then have "same_lenses (set xs) o' ?o2"
        using same by (auto simp: same_lenses_def)
      then show thesis
        using that(2) [of ?o2 n] ok(1) rel e free_eq by (simp add: optics_epoch_def)
    qed
  qed
qed

section \<open>Walking the list\<close>

text \<open>What a walk over the lenses \<open>xs\<close> amounts to.\<close>

fun visit :: "'c foreach_cb \<Rightarrow> off list \<Rightarrow> 'c \<Rightarrow> optics \<Rightarrow> (optics_ret \<times> 'c \<times> optics) option" where
  "visit cb [] ctx o' = Some (optics_ok, ctx, o')"
| "visit cb (x # xs) ctx o' =
     Option.bind (cb ctx o' x) (\<lambda>(ret, ctx', o1).
       if ret \<noteq> optics_ok then Some (ret, ctx', o1) else visit cb xs ctx' o1)"

text \<open>A callback that leaves the list alone: the lenses stay where they are, with their links.\<close>

definition list_kept :: "off list \<Rightarrow> (off \<Rightarrow> off) \<Rightarrow> optics \<Rightarrow> bool" where
  "list_kept xs nx o' \<longleftrightarrow> (\<forall>x \<in> set xs. lens_ptr o' x = Some x \<and> lens_next (bytes o') x = nx x)"

lemma foreach_loop_visit:
  assumes "dlist nx pv q p xs" "set xs \<subseteq> set ys" "I ctx o'"
    and kept: "\<And>ctx o'. I ctx o' \<Longrightarrow> list_kept ys nx o'"
    and cb: "\<And>ctx o' x r ctx' o1. I ctx o' \<Longrightarrow> x \<in> set ys \<Longrightarrow> cb ctx o' x = Some (r, ctx', o1) \<Longrightarrow> I ctx' o1"
  shows "foreach_loop cb ctx o' p = visit cb xs ctx o' \<and>
    (\<forall>r ctx' o1. visit cb xs ctx o' = Some (r, ctx', o1) \<longrightarrow> I ctx' o1)"
  using assms(1-3)
proof (induction xs arbitrary: q p ctx o')
  case Nil
  then show ?case by (subst foreach_loop.simps) simp
next
  case (Cons x xs)
  then have x: "p = x" "x \<noteq> 0" "lens_ptr o' x = Some x" "dlist nx pv x (nx x) xs" "x \<in> set ys"
    using kept [OF Cons.prems(3)] by (auto simp: list_kept_def)
  have step: "foreach_loop cb c o1 (lens_next (bytes o1) x) = visit cb xs c o1 \<and>
      (\<forall>r ctx' o2. visit cb xs c o1 = Some (r, ctx', o2) \<longrightarrow> I ctx' o2) \<and> I c o1"
    if "cb ctx o' x = Some (r, c, o1)" for r c o1
  proof -
    have k: "I c o1" using cb [OF Cons.prems(3) x(5) that] .
    then have "lens_next (bytes o1) x = nx x" using x(5) kept [OF k] by (simp add: list_kept_def)
    then show ?thesis using Cons.IH [OF x(4) _ k] Cons.prems(2) k by simp
  qed
  show ?case
  proof (cases "cb ctx o' x")
    case None
    then show ?thesis using x by (subst foreach_loop.simps) simp
  next
    case (Some p)
    then obtain r c o1 where c: "cb ctx o' x = Some (r, c, o1)" by (cases p) auto
    then show ?thesis using x step [OF c] by (subst foreach_loop.simps) auto
  qed
qed

lemma core_rel_kept: "core_rel o' xs D X \<Longrightarrow> list_kept xs (lens_next (bytes o')) o'"
  using lens_set_ptr(1) [OF core_rel_set] by (simp add: list_kept_def)

text \<open>
  The walk of a poller. For every callback that leaves the list alone (it may change the
  data of the lenses, and nothing else is assumed of it), \<open>optics_foreach_lens\<close> calls it once
  for every lens, in list order from the newest to the oldest, and stops at the first
  result that is not \<^verbatim>\<open>optics_ok\<close>. It follows the links in memory and never leaves the list.
\<close>

theorem optics_foreach_lens_visits:
  assumes "optics_rel o' xs D X"
    and "\<And>ctx o1 x r ctx' o2. list_kept xs (lens_next (bytes o')) o1 \<Longrightarrow> x \<in> set xs \<Longrightarrow>
      cb ctx o1 x = Some (r, ctx', o2) \<Longrightarrow> list_kept xs (lens_next (bytes o')) o2"
  shows "optics_foreach_lens o' ctx cb = visit cb xs ctx o'"
proof -
  have R: "core_rel o' xs D X" using assms(1) by (simp add: optics_rel_def)
  show ?thesis
    unfolding optics_foreach_lens_def
    by (rule conjunct1 [OF foreach_loop_visit [where I = "\<lambda>_. list_kept xs (lens_next (bytes o'))",
      OF core_relD(3) [OF R] order_refl core_rel_kept [OF R] _ assms(2)]])
qed

section \<open>Finding a lens, changing the epoch\<close>

text \<open>
  Finding a lens. \<open>optics_lens_get\<close> always returns, finds the lens of a name exactly when
  one is in the list, and leaves the store as it was; the returned lens has the name, and
  no other lens has it. Names are compared up to 1024 characters, more than a lens can have.
\<close>

theorem optics_lens_get_finds:
  assumes "optics_rel o' xs D X" "length name \<le> 1024"
  shows "\<exists>r o1. optics_lens_get o' name = Some (r, o1) \<and> optics_rel o1 xs D X \<and> bytes o1 = bytes o' \<and>
     (case r of
        None \<Rightarrow> name \<notin> lens_name (bytes o') ` set xs
      | Some p \<Rightarrow> \<exists>x \<in> set xs. p = Some x \<and> lens_name (bytes o') x = name \<and>
          (\<forall>z \<in> set xs. lens_name (bytes o') z = name \<longrightarrow> z = x))"
proof -
  have R: "olock o' = 0" "keys_rel o' (set xs)" "core_rel o' xs D X"
    using assms(1) by (simp_all add: optics_rel_def)
  note S = core_rel_set [OF R(3)]
  have cut: "cut_key name = name" using assms(2) by (simp add: cut_key_def htable_key_max_len_def)
  obtain r ht where g: "htable_get (okeys o') name = Some (r, ht)" "ht_inv ht"
      "ht_abs ht = ht_abs (okeys o')" "ok r = (ht_abs (okeys o') name \<noteq> None)"
      "ok r \<longrightarrow> ht_abs (okeys o') name = Some (rvalue r)"
    using htable_get_spec [of "okeys o'" name] R(2) by (auto simp: keys_rel_def)
  let ?o = "o'\<lparr>okeys := ht, olock := 0\<rparr>"
  have rel: "optics_rel ?o xs D X" using R g(2,3) by (simp add: optics_rel_def keys_rel_def)
  have eq: "optics_lens_get o' name = Some (if ok r then Some (lens_ptr ?o (unat (rvalue r))) else None, ?o)"
    using R(1) g(1) by (simp add: optics_lens_get_def Let_def)
  show ?thesis
  proof (cases "ok r")
    case True
    then obtain x where x: "x \<in> set xs" "lens_name (bytes o') x = name" "rvalue r = of_nat x"
      using R(2) g(5) cut by (auto simp: keys_rel_def)
    have small: "\<And>z. z \<in> set xs \<Longrightarrow> z < 18446744073709551616" using lens_set_ptr(2) [OF S] .
    then have "unat (rvalue r) = x" using x by (simp add: unat_of_nat)
    moreover have "lens_ptr ?o x = Some x" using lens_set_ptr(1) [OF S x(1)] by simp
    ultimately have res: "optics_lens_get o' name = Some (Some (Some x), ?o)" using eq True by simp
    have "z = x" if "z \<in> set xs" "lens_name (bytes o') z = name" for z
      using keys_rel_inj [OF R(2) that(1) x(1)] that(2) x(2) small [OF that(1)] small [OF x(1)] by simp
    then have "\<exists>x' \<in> set xs. Some x = Some x' \<and> lens_name (bytes o') x' = name \<and>
        (\<forall>z \<in> set xs. lens_name (bytes o') z = name \<longrightarrow> z = x')" using x(1,2) by blast
    then show ?thesis using res rel by (intro exI [of _ "Some (Some x)"] exI [of _ ?o]) simp
  next
    case False
    then have none: "ht_abs (okeys o') name = None" using g(4) by simp
    have "name \<notin> lens_name (bytes o') ` set xs"
    proof
      assume "name \<in> lens_name (bytes o') ` set xs"
      then obtain x where "x \<in> set xs" "lens_name (bytes o') x = cut_key name" using cut by auto
      then have "ht_abs (okeys o') name = Some (of_nat x)"
        using keys_rel_lookup [OF R(2), of name "of_nat x"] by blast
      then show False using none by simp
    qed
    then show ?thesis using eq False rel by (intro exI [of _ None] exI [of _ ?o]) auto
  qed
qed

lemma optics_epoch_inc_rel:
  assumes "optics_rel o' xs D X"
  defines "e \<equiv> optics_epoch o'"
  obtains o1 where "optics_epoch_inc o' = Some (e, o1)" "optics_rel o1 xs (D(1 - e := [])) X"
    "optics_epoch o1 = 1 - e" "same_lenses (set xs) o' o1"
    "keeps (lens_block (bytes o') ` set xs \<union> X) o' o1" "keeps (set (dblocks (D e))) o' o1"
    "rg (oheap o1) = rg (oheap o')" "epoch_last_inc (header o1) = epoch_last_inc (header o')"
proof -
  have R: "olock o' = 0" "keys_rel o' (set xs)" "core_rel o' xs D X"
    using assms(1) by (simp_all add: optics_rel_def)
  from core_relD(5) [OF R(3)] show thesis
  proof (cases rule: optics_epoch_inc_total)
    case (1 o1)
    have kept: "\<forall>x \<in> set xs. \<forall>y \<in> block_bytes (lens_block (bytes o') x). bytes o1 y = bytes o' y"
      using 1(4) by (auto simp: keeps_def)
    note K = core_rel_keep [OF R(3) kept 1(5,2) core_relD(4) [OF R(3)]]
    have "optics_rel o1 xs (D(1 - optics_epoch o' := [])) X"
      using K R 1 keys_rel_same [OF R(2) K(2)] by (simp add: optics_rel_def)
    then show thesis
      using 1 K(2) that [of o1] keeps_subset [OF 1(4)] by (auto simp: e_def)
  qed
qed

text \<open>
  C5: Freeing a lens. \<open>optics_lens_free\<close> of a lens of the list always returns, and the lens is
  then in neither the list nor the table while all lenses, the freed one included, read as
  before. If it succeeds, the lens survives the next epoch change byte for byte, so that
  pollers that found it earlier still read valid memory, and the change after that one
  frees its block. If there is no memory for the deferred free, the lens is gone all the
  same and its block stays allocated for good.
\<close>

theorem optics_lens_free_grace_period:
  assumes "optics_rel o' xs D X" "x \<in> set xs" "sys_amd64 sys"
  defines "b \<equiv> lens_block (bytes o') x" and "e \<equiv> optics_epoch o'"
  shows "\<exists>r o1. optics_lens_free sys o' x = Some (r, o1) \<and> same_lenses (set xs) o' o1 \<and>
    (if r
     then \<exists>o2 o3 D1 D2 D3. optics_rel o1 (remove1 x xs) D1 X \<and>
       optics_epoch_inc o1 = Some (e, o2) \<and> optics_rel o2 (remove1 x xs) D2 X \<and> keeps {b} o1 o2 \<and>
       optics_epoch_inc o2 = Some (1 - e, o3) \<and> optics_rel o3 (remove1 x xs) D3 X \<and>
       b \<in> set (dblocks (D2 0 @ D2 1)) \<and> D3 0 = [] \<and> D3 1 = []
     else optics_rel o1 (remove1 x xs) D (insert b X) \<and> vma_len (rg (oheap o')) < pos (rg (oheap o')) + 65536)"
  using assms(1-3)
proof (cases rule: optics_lens_free_cases)
  case (fail o1)
  then show ?thesis by (auto simp: b_def)
next
  case (ok o1 n)
  let ?l = "lens_total_len (bytes o') x"
  let ?D1 = "D(e := (n, x, ?l) # D e)"
  have rel1: "optics_rel o1 (remove1 x xs) ?D1 X" "optics_epoch o1 = e" using ok(2,4) by (simp_all add: e_def)
  have e2: "e = 0 \<or> e = 1" unfolding e_def by (rule epoch_two)
  from rel1(1) show ?thesis
  proof (cases rule: optics_epoch_inc_rel)
    case (1 o2)
    let ?D2 = "?D1(1 - e := [])"
    have rel2: "optics_rel o2 (remove1 x xs) ?D2 X" "optics_epoch o2 = 1 - e" using 1(2,3) rel1(2) by simp_all
    have bd: "b \<in> set (dblocks (?D1 e))" by (simp add: b_def lens_block_def)
    then have kept: "keeps {b} o1 o2" using keeps_subset [OF 1(6), of "{b}"] rel1(2) by auto
    from rel2(1) show ?thesis
    proof (cases rule: optics_epoch_inc_rel)
      case inc: (1 o3)
      define D2 D3 where "D2 = ?D2" and "D3 = D2(1 - (1 - e) := [])"
      have "D3 0 = []" "D3 1 = []" "b \<in> set (dblocks (D2 0 @ D2 1))" using e2 bd by (auto simp: D2_def D3_def)
      moreover have "optics_epoch_inc o1 = Some (e, o2)" "optics_epoch_inc o2 = Some (1 - e, o3)"
          "optics_rel o3 (remove1 x xs) D3 X" "optics_rel o2 (remove1 x xs) D2 X"
        using 1(1) inc(1,2) rel1(2) rel2 by (simp_all add: D2_def D3_def)
      ultimately have "\<exists>o2 o3 D1 D2 D3. optics_rel o1 (remove1 x xs) D1 X \<and>
         optics_epoch_inc o1 = Some (e, o2) \<and> optics_rel o2 (remove1 x xs) D2 X \<and> keeps {b} o1 o2 \<and>
         optics_epoch_inc o2 = Some (1 - e, o3) \<and> optics_rel o3 (remove1 x xs) D3 X \<and>
         b \<in> set (dblocks (D2 0 @ D2 1)) \<and> D3 0 = [] \<and> D3 1 = []" using rel1(1) kept by blast
      then show ?thesis using ok(1,3) by (intro exI [of _ True] exI [of _ o1]) (simp only: if_True simp_thms)
    qed
  qed
qed

end
