(* ===== verification/Histo.thy ===== *)
theory Histo
  imports Poll_Value
begin

text \<open>
  The histogram, \<^verbatim>\<open>src/lens_histo.c\<close>: for each of the two epochs a counter below the first
  bound, one at or above the last, and one for each bucket between two bounds.
\<close>

section \<open>Definitions\<close>

text \<open>\<^verbatim>\<open>struct lens_histo\<close>: two epochs of 80 bytes, nine bounds, their number.\<close>

definition sizeof_lens_histo :: nat where
  [layout]: "sizeof_lens_histo = 240"

datatype hcell = Below | Above | Count nat

fun hcell_off :: "nat \<Rightarrow> hcell \<Rightarrow> nat" where
  "hcell_off e Below = 80 * e"
| "hcell_off e Above = 80 * e + 8"
| "hcell_off e (Count i) = 80 * e + 16 + 8 * i"

definition histo_buckets_len :: "mem \<Rightarrow> off \<Rightarrow> nat" where
  "histo_buckets_len m histo = load64 m (histo + 232)"

definition histo_bucket :: "mem \<Rightarrow> off \<Rightarrow> nat \<Rightarrow> nat" where
  "histo_bucket m histo i = load64 m (histo + 160 + 8 * i)"

text \<open>\<^verbatim>\<open>memcpy\<close> of an array of 64-bit integers.\<close>

fun store_words :: "mem \<Rightarrow> nat \<Rightarrow> nat list \<Rightarrow> mem" where
  "store_words m a [] = m"
| "store_words m a (v # vs) = store_words (store64 m a v) (a + 8) vs"

definition buckets_increasing :: "nat list \<Rightarrow> bool" where
  "buckets_increasing bs \<longleftrightarrow> list_all (\<lambda>i. bs ! i < bs ! (i + 1)) [0..<length bs - 1]"

definition lens_histo_alloc :: "sys \<Rightarrow> optics \<Rightarrow> string \<Rightarrow> nat list \<Rightarrow> (off option \<times> optics) option" where
  "lens_histo_alloc sys o' name bs =
     (if length bs < 2 then Some (None, o')
      else if length bs > optics_histo_buckets_max + 1 then Some (None, o')
      else if \<not> buckets_increasing bs then Some (None, o')
      else
        (case lens_alloc sys o' optics_histo sizeof_lens_histo name of
           None \<Rightarrow> None
         | Some (None, o1) \<Rightarrow> Some (None, o1)
         | Some (Some lens, o1) \<Rightarrow>
             (case lens_sub_ptr (bytes o1) lens optics_histo of
                None \<Rightarrow> map_option (Pair None) (lens_free o1 lens)
              | Some histo \<Rightarrow>
                  (let m1 = store64 (bytes o1) (histo + 232) (length bs);
                       m2 = store_words m1 (histo + 160) bs
                   in Some (Some lens, set_bytes o1 m2)))))"

text \<open>
  The bucket of a value: a bound is converted to a double for the comparison. \<open>None\<close>: the loop
  over the bounds finds none.
\<close>

definition histo_pick :: "(nat \<Rightarrow> nat) \<Rightarrow> nat \<Rightarrow> double \<Rightarrow> hcell option" where
  "histo_pick bucket n v =
     (if dlt v (of_u64 (bucket 0)) then Some Below
      else if dge v (of_u64 (bucket (n - 1))) then Some Above
      else map_option (\<lambda>i. Count (i - 1)) (find (\<lambda>i. dlt v (of_u64 (bucket i))) [1..<n]))"

definition lens_histo_inc :: "optics \<Rightarrow> off \<Rightarrow> nat \<Rightarrow> double \<Rightarrow> (bool \<times> optics) option" where
  "lens_histo_inc o' lens e v =
     (case lens_sub_ptr (bytes o') lens optics_histo of
        None \<Rightarrow> Some (False, o')
      | Some histo \<Rightarrow>
          (let m = bytes o' in
           case histo_pick (histo_bucket m histo) (histo_buckets_len m histo) v of
             None \<Rightarrow> None
           | Some c \<Rightarrow>
               (let a = histo + hcell_off e c in
                Some (True, set_bytes o' (store64 m a (uadd (load64 m a) 1))))))"

text \<open>Reading and clearing a counter: \<^verbatim>\<open>atomic_exchange(cell, 0)\<close>.\<close>

definition histo_take :: "mem \<Rightarrow> off \<Rightarrow> nat \<Rightarrow> hcell \<Rightarrow> nat \<times> mem" where
  "histo_take m histo e c = (load64 m (histo + hcell_off e c), store64 m (histo + hcell_off e c) 0)"

fun histo_take_counts :: "nat \<Rightarrow> mem \<Rightarrow> off \<Rightarrow> nat \<Rightarrow> nat list \<Rightarrow> nat list \<times> mem" where
  "histo_take_counts 0 m histo e cs = (cs, m)"
| "histo_take_counts (Suc i) m histo e cs =
     (case histo_take_counts i m histo e cs of
        (cs1, m1) \<Rightarrow>
          (case histo_take m1 histo e (Count i) of
             (v, m2) \<Rightarrow> (cs1[i := uadd (cs1 ! i) v], m2)))"

definition lens_histo_read :: "optics \<Rightarrow> off \<Rightarrow> nat \<Rightarrow> optics_histo \<Rightarrow> optics_ret \<times> optics_histo \<times> optics" where
  "lens_histo_read o' lens e v =
     (case lens_sub_ptr (bytes o') lens optics_histo of
        None \<Rightarrow> (optics_err, v, o')
      | Some histo \<Rightarrow>
          (let m = bytes o';
               n = histo_buckets_len m histo;
               bs = map (histo_bucket m histo) [0..<n]
           in if buckets_len v \<noteq> 0 \<and> (n \<noteq> buckets_len v \<or> bs \<noteq> take n (buckets v))
              then (optics_err, v, o')
              else
                (let v1 = (if buckets_len v = 0
                           then v\<lparr>buckets_len := n, buckets := bs @ drop n (buckets v)\<rparr> else v);
                     (b, m1) = histo_take m histo e Below;
                     (a, m2) = histo_take m1 histo e Above;
                     (cs, m3) = histo_take_counts (n - 1) m2 histo e (counts v1)
                 in (optics_ok, v1\<lparr>below := uadd (below v1) b, above := uadd (above v1) a, counts := cs\<rparr>,
                     set_bytes o' m3))))"

text \<open>A poll with no bounds would read past the arrays, which is undefined (\<open>None\<close>).\<close>

definition lens_histo_normalize :: "optics_poll \<Rightarrow> optics_histo \<Rightarrow> 'c normalize_cb \<Rightarrow> 'c \<Rightarrow> (bool \<times> 'c) option" where
  "lens_histo_normalize poll histo cb ctx =
     (if buckets_len histo = 0 then None
      else
        Option.bind (optics_key_push zero_key (pkey poll)) (\<lambda>(_, key).
          cb_all cb poll key ctx
            ([(''below'', lens_rescale poll (of_u64 (below histo))),
              (''above'', lens_rescale poll (of_u64 (above histo)))] @
             map (\<lambda>i. (take 255 (''bucket_'' @ dec (buckets histo ! i) @ ''_'' @ dec (buckets histo ! (i + 1))),
                       lens_rescale poll (of_u64 (counts histo ! i))))
               [0..<buckets_len histo - 1])))"

section \<open>Choosing the bucket\<close>

lemma histo_pick_cases:
  assumes "\<not> is_nan v" "2 \<le> n"
  shows "\<exists>c. histo_pick bucket n v = Some c \<and>
    (case c of
       Below \<Rightarrow> dlt v (of_u64 (bucket 0))
     | Above \<Rightarrow> \<not> dlt v (of_u64 (bucket 0)) \<and> dge v (of_u64 (bucket (n - 1)))
     | Count i \<Rightarrow> Suc i < n \<and> dge v (of_u64 (bucket i)) \<and> dlt v (of_u64 (bucket (Suc i))) \<and>
         (\<forall>j \<le> i. \<not> dlt v (of_u64 (bucket j))))"
proof (cases "dlt v (of_u64 (bucket 0)) \<or> dge v (of_u64 (bucket (n - 1)))")
  case True
  then show ?thesis by (auto simp: histo_pick_def)
next
  case False
  let ?P = "\<lambda>i. dlt v (of_u64 (bucket i))"
  have last: "?P (n - 1)" using False assms(1) by (simp add: dge_not_dlt)
  then obtain i where i: "find ?P [1..<n] = Some i"
    using assms(2) by (cases "find ?P [1..<n]") (auto simp: find_None_iff)
  then have "?P i" "1 \<le> i" "i < n" and least: "\<And>j. 1 \<le> j \<Longrightarrow> j < i \<Longrightarrow> \<not> ?P j"
    by (auto simp: find_Some_iff) (metis One_nat_def Suc_le_D add_diff_cancel_left' diff_Suc_1 le_add1
        less_imp_le_nat less_diff_conv2 add.commute nth_upt order_less_le_trans plus_1_eq_Suc)
  then obtain k where k: "i = Suc k" by (cases i) auto
  have "\<not> ?P j" if "j \<le> k" for j
    using least [of j] that False k by (cases "j = 0") auto
  then show ?thesis
    using i \<open>?P i\<close> \<open>i < n\<close> False k assms(1) by (auto simp: histo_pick_def dge_not_dlt)
qed


section \<open>The counters of a histogram\<close>

definition histo_cell :: "optics \<Rightarrow> off \<Rightarrow> nat \<Rightarrow> hcell \<Rightarrow> nat" where
  "histo_cell o' lens e c = load64 (bytes o') (lens + 64 + hcell_off e c)"

text \<open>The cells that a histogram with \<open>n\<close> bounds uses.\<close>

fun cell_ok :: "nat \<Rightarrow> hcell \<Rightarrow> bool" where
  "cell_ok n (Count i) \<longleftrightarrow> Suc i < n"
| "cell_ok n _ \<longleftrightarrow> True"

definition histo_wf :: "optics \<Rightarrow> off \<Rightarrow> bool" where
  "histo_wf o' lens \<longleftrightarrow> lens_type (bytes o') lens = type_code optics_histo \<and>
     2 \<le> histo_buckets_len (bytes o') (lens + 64) \<and> histo_buckets_len (bytes o') (lens + 64) \<le> 9"

lemma histo_pick_ok:
  assumes "\<not> is_nan v" "2 \<le> n"
  shows "\<exists>c. histo_pick bucket n v = Some c \<and> cell_ok n c"
proof -
  from histo_pick_cases [OF assms, of bucket] obtain c where c: "histo_pick bucket n v = Some c"
    "case c of Count i \<Rightarrow> Suc i < n \<and> dge v (of_u64 (bucket i)) \<and> dlt v (of_u64 (bucket (Suc i))) \<and>
         (\<forall>j \<le> i. \<not> dlt v (of_u64 (bucket j)))
      | Below \<Rightarrow> dlt v (of_u64 (bucket 0))
      | Above \<Rightarrow> \<not> dlt v (of_u64 (bucket 0)) \<and> dge v (of_u64 (bucket (n - 1)))" by blast
  then show ?thesis by (cases c) auto
qed

lemma cell_ok_off: "cell_ok n c \<Longrightarrow> n \<le> 9 \<Longrightarrow> e < 2 \<Longrightarrow> hcell_off e c + 8 \<le> 160"
  by (cases c) auto

lemma hcell_apart:
  assumes "cell_ok n c" "cell_ok n c'" "n \<le> 9" "(d, c) \<noteq> (e, c')"
  shows "hcell_off d c + 8 \<le> hcell_off e c' \<or> hcell_off e c' + 8 \<le> hcell_off d c"
proof (cases "d = e")
  case True
  then show ?thesis using assms by (cases c; cases c') auto
next
  case False
  have *: "80 * k \<le> hcell_off k x \<and> hcell_off k x + 8 \<le> 80 * k + 80" if "cell_ok n x" for k x
    using that assms(3) by (cases x) auto
  have "d < e \<or> e < d" using False by linarith
  then have "80 * d + 80 \<le> 80 * e \<or> 80 * e + 80 \<le> 80 * d" by linarith
  then show ?thesis using * [of c d] * [of c' e] assms(1,2) by linarith
qed

text \<open>A store to a cell changes that cell and nothing else of the histogram.\<close>

definition cell_store :: "optics \<Rightarrow> off \<Rightarrow> nat \<Rightarrow> hcell \<Rightarrow> nat \<Rightarrow> optics" where
  "cell_store o' lens e c v = set_bytes o' (store64 (bytes o') (lens + 64 + hcell_off e c) v)"

lemma cell_store_frame:
  assumes "cell_ok n c" "n \<le> 9" "e < 2" "y < lens + 64 \<or> lens + 224 \<le> y"
  shows "bytes (cell_store o' lens e c v) y = bytes o' y"
  using cell_ok_off [OF assms(1-3)] assms(4) by (auto simp: cell_store_def store_frame)

lemma cell_store_static:
  assumes "cell_ok n c" "n \<le> 9" "e < 2"
  shows "lens_type (bytes (cell_store o' lens e c v)) lens = lens_type (bytes o') lens"
    "histo_buckets_len (bytes (cell_store o' lens e c v)) (lens + 64) = histo_buckets_len (bytes o') (lens + 64)"
    "histo_bucket (bytes (cell_store o' lens e c v)) (lens + 64) = histo_bucket (bytes o') (lens + 64)"
  unfolding lens_type_def histo_buckets_len_def histo_bucket_def fun_eq_iff
  by (intro allI load_cong cell_store_frame [OF assms]; simp)+

lemma cell_store_cell:
  assumes "cell_ok n c" "cell_ok n c'" "n \<le> 9" "v < 18446744073709551616"
  shows "histo_cell (cell_store o' lens e c v) lens d c' = (if d = e \<and> c' = c then v else histo_cell o' lens d c')"
  using hcell_apart [OF assms(2,1,3), of d e] assms(4)
  by (auto simp: histo_cell_def cell_store_def load_store_disjoint)

lemma lens_histo_inc_total:
  assumes "histo_wf o' lens" "\<not> is_nan v"
  defines "n \<equiv> histo_buckets_len (bytes o') (lens + 64)" and "bucket \<equiv> histo_bucket (bytes o') (lens + 64)"
  obtains c where "histo_pick bucket n v = Some c" "cell_ok n c"
    "lens_histo_inc o' lens e v = Some (True, cell_store o' lens e c (uadd (histo_cell o' lens e c) 1))"
proof -
  have wf: "lens_type (bytes o') lens = type_code optics_histo" "2 \<le> n" using assms(1) by (simp_all add: histo_wf_def n_def)
  obtain c where c: "histo_pick bucket n v = Some c" "cell_ok n c"
    using histo_pick_ok [OF assms(2) wf(2)] by blast
  then show thesis
    using that [OF c] wf(1)
    by (simp add: lens_histo_inc_def lens_sub_ptr_def sizeof_lens_def Let_def n_def bucket_def cell_store_def
        histo_cell_def)
qed

text \<open>Values in a row, each in an epoch of its own, and how many of them hit a cell.\<close>

fun histo_incs :: "optics \<Rightarrow> off \<Rightarrow> (nat \<times> double) list \<Rightarrow> optics option" where
  "histo_incs o' lens [] = Some o'"
| "histo_incs o' lens ((e, v) # evs) =
     Option.bind (lens_histo_inc o' lens e v) (\<lambda>(_, o1). histo_incs o1 lens evs)"

definition histo_hits :: "(nat \<Rightarrow> nat) \<Rightarrow> nat \<Rightarrow> (nat \<times> double) list \<Rightarrow> nat \<Rightarrow> hcell \<Rightarrow> nat" where
  "histo_hits bucket n evs e c = length (filter (\<lambda>(d, v). d = e \<and> histo_pick bucket n v = Some c) evs)"

lemma histo_incs_cells:
  assumes "histo_wf o' lens" "\<forall>(d, v) \<in> set evs. d < 2 \<and> \<not> is_nan v"
  defines "n \<equiv> histo_buckets_len (bytes o') (lens + 64)" and "bucket \<equiv> histo_bucket (bytes o') (lens + 64)"
  shows "\<exists>o1. histo_incs o' lens evs = Some o1 \<and> histo_wf o1 lens \<and>
    histo_buckets_len (bytes o1) (lens + 64) = n \<and> histo_bucket (bytes o1) (lens + 64) = bucket \<and>
    (\<forall>e c. cell_ok n c \<longrightarrow>
       histo_cell o1 lens e c = (histo_cell o' lens e c + histo_hits bucket n evs e c) mod 18446744073709551616)"
  using assms(1,2) unfolding n_def bucket_def
proof (induction evs arbitrary: o')
  case Nil
  then show ?case by (simp add: histo_hits_def histo_cell_def)
next
  case (Cons ev evs)
  obtain d v where ev: "ev = (d, v)" by (cases ev)
  let ?n = "histo_buckets_len (bytes o') (lens + 64)" and ?b = "histo_bucket (bytes o') (lens + 64)"
  have nn: "\<not> is_nan v" "d < 2" "?n \<le> 9" using Cons.prems by (simp_all add: ev histo_wf_def)
  obtain c where c: "histo_pick ?b ?n v = Some c" "cell_ok ?n c"
    "lens_histo_inc o' lens d v = Some (True, cell_store o' lens d c (uadd (histo_cell o' lens d c) 1))"
    using lens_histo_inc_total [OF Cons.prems(1) nn(1)] by blast
  let ?o = "cell_store o' lens d c (uadd (histo_cell o' lens d c) 1)"
  note st = cell_store_static [OF c(2) nn(3,2)]
  have wf: "histo_wf ?o lens" using Cons.prems(1) st by (simp add: histo_wf_def)
  obtain o1 where o1: "histo_incs ?o lens evs = Some o1" "histo_wf o1 lens"
    "histo_buckets_len (bytes o1) (lens + 64) = ?n" "histo_bucket (bytes o1) (lens + 64) = ?b"
    "\<And>e c'. cell_ok ?n c' \<Longrightarrow> histo_cell o1 lens e c' =
       (histo_cell ?o lens e c' + histo_hits ?b ?n evs e c') mod 18446744073709551616"
    using Cons.IH [OF wf] Cons.prems(2) by (auto simp: st)
  have "histo_cell o1 lens e c' =
      (histo_cell o' lens e c' + histo_hits ?b ?n (ev # evs) e c') mod 18446744073709551616"
    if "cell_ok ?n c'" for e c'
  proof (cases "e = d \<and> c' = c")
    case True
    then show ?thesis
      using o1(5) [OF that, of e] cell_store_cell [OF c(2) that nn(3), of _ o' lens d e] c(1)
      by (simp add: ev histo_hits_def uadd_def mod_add_left_eq add.assoc)
  next
    case False
    then show ?thesis
      using o1(5) [OF that, of e] cell_store_cell [OF c(2) that nn(3), of _ o' lens d e] c(1)
      by (auto simp: ev histo_hits_def)
  qed
  then show ?case using o1(1-4) c(3) by (auto simp: ev)
qed

lemma histo_hits_total:
  assumes "2 \<le> n" "\<forall>(d, v) \<in> set evs. \<not> is_nan v"
  shows "histo_hits bucket n evs e Below + histo_hits bucket n evs e Above +
    (\<Sum>i<n - 1. histo_hits bucket n evs e (Count i)) = length (filter (\<lambda>(d, v). d = e) evs)"
  using assms(2)
proof (induction evs)
  case Nil
  then show ?case by (simp add: histo_hits_def)
next
  case (Cons ev evs)
  obtain d v where ev: "ev = (d, v)" by (cases ev)
  obtain c where c: "histo_pick bucket n v = Some c" "cell_ok n c"
    using histo_pick_ok [of v n bucket] assms(1) Cons.prems by (auto simp: ev)
  have step: "histo_hits bucket n (ev # evs) e x = histo_hits bucket n evs e x + (if d = e \<and> x = c then 1 else 0)" for x
    using c(1) by (simp add: histo_hits_def ev)
  have "(\<Sum>i<n - 1. if d = e \<and> Count i = c then 1 else 0 :: nat) = (if d = e \<and> (\<exists>i. c = Count i) then 1 else 0)"
    using c(2) by (cases c) auto
  then show ?case
    using Cons c(2) by (simp add: step sum.distrib, cases c) (auto simp: ev)
qed

section \<open>Reading\<close>

lemma histo_take_cell:
  "histo_take (bytes o') (lens + 64) e c = (histo_cell o' lens e c, bytes (cell_store o' lens e c 0))"
  by (simp add: histo_take_def histo_cell_def cell_store_def)

lemma histo_take_counts_spec:
  assumes "k < n" "n \<le> 9" "e < 2" "length cs = 8"
  obtains cs' o1 where "histo_take_counts k (bytes o') (lens + 64) e cs = (cs', bytes o1)" "o1 = set_bytes o' (bytes o1)"
    "length cs' = 8" "\<And>i. i < 8 \<Longrightarrow> cs' ! i = (if i < k then uadd (cs ! i) (histo_cell o' lens e (Count i)) else cs ! i)"
    "\<And>d c. cell_ok n c \<Longrightarrow> histo_cell o1 lens d c =
       (if d = e \<and> (\<exists>i<k. c = Count i) then 0 else histo_cell o' lens d c)"
    "\<And>y. y < lens + 64 \<or> lens + 224 \<le> y \<Longrightarrow> bytes o1 y = bytes o' y"
proof -
  have "\<exists>cs' o1. histo_take_counts k (bytes o') (lens + 64) e cs = (cs', bytes o1) \<and> o1 = set_bytes o' (bytes o1) \<and>
    length cs' = 8 \<and> (\<forall>i < 8. cs' ! i = (if i < k then uadd (cs ! i) (histo_cell o' lens e (Count i)) else cs ! i)) \<and>
    (\<forall>d c. cell_ok n c \<longrightarrow> histo_cell o1 lens d c =
       (if d = e \<and> (\<exists>i<k. c = Count i) then 0 else histo_cell o' lens d c)) \<and>
    (\<forall>y. y < lens + 64 \<or> lens + 224 \<le> y \<longrightarrow> bytes o1 y = bytes o' y)"
    using assms(1)
  proof (induction k)
    case 0
    then show ?case using assms(4) by (intro exI [of _ cs] exI [of _ o']) (simp add: set_bytes_def)
  next
    case (Suc k)
    then obtain cs' o1 where I: "histo_take_counts k (bytes o') (lens + 64) e cs = (cs', bytes o1)"
      "o1 = set_bytes o' (bytes o1)" "length cs' = 8"
      "\<forall>i < 8. cs' ! i = (if i < k then uadd (cs ! i) (histo_cell o' lens e (Count i)) else cs ! i)"
      "\<forall>d c. cell_ok n c \<longrightarrow> histo_cell o1 lens d c =
         (if d = e \<and> (\<exists>i<k. c = Count i) then 0 else histo_cell o' lens d c)"
      "\<forall>y. y < lens + 64 \<or> lens + 224 \<le> y \<longrightarrow> bytes o1 y = bytes o' y"
      by auto
    have k: "cell_ok n (Count k)" "k < 8" using Suc.prems assms(2) by simp_all
    let ?o = "cell_store o1 lens e (Count k) 0"
    have eq: "histo_take_counts (Suc k) (bytes o') (lens + 64) e cs =
        (cs'[k := uadd (cs' ! k) (histo_cell o1 lens e (Count k))], bytes ?o)"
      by (simp add: I(1) histo_take_cell)
    have old: "histo_cell o1 lens e (Count k) = histo_cell o' lens e (Count k)" using I(5) k(1) by auto
    have cells: "histo_cell ?o lens d c = (if d = e \<and> (\<exists>i<Suc k. c = Count i) then 0 else histo_cell o' lens d c)"
      if "cell_ok n c" for d c
      using cell_store_cell [OF k(1) that assms(2), of 0 o1 lens e d] I(5) that by (auto simp: less_Suc_eq)
    have "?o = set_bytes o' (bytes ?o)"
      by (subst I(2)) (simp add: cell_store_def set_bytes_def)
    moreover have "\<forall>y. y < lens + 64 \<or> lens + 224 \<le> y \<longrightarrow> bytes ?o y = bytes o' y"
      using cell_store_frame [OF k(1) assms(2,3)] I(6) by simp
    moreover have "\<forall>i < 8. cs'[k := uadd (cs' ! k) (histo_cell o1 lens e (Count k))] ! i =
        (if i < Suc k then uadd (cs ! i) (histo_cell o' lens e (Count i)) else cs ! i)"
      using I(3,4) k(2) old by (auto simp: nth_list_update less_Suc_eq)
    ultimately show ?case
      using eq cells I(3)
      by (intro exI [of _ "cs'[k := uadd (cs' ! k) (histo_cell o1 lens e (Count k))]"] exI [of _ ?o]) simp
  qed
  then show thesis using that by blast
qed

text \<open>Reading a whole epoch.\<close>

lemma lens_histo_read_ok:
  assumes "histo_wf o' lens" "e < 2" "length (counts v) = 8"
  defines "n \<equiv> histo_buckets_len (bytes o') (lens + 64)" and "bucket \<equiv> histo_bucket (bytes o') (lens + 64)"
  assumes match: "buckets_len v = 0 \<or> buckets_len v = n \<and> take n (buckets v) = map bucket [0..<n]"
  obtains h o1 where "lens_histo_read o' lens e v = (optics_ok, h, o1)" "buckets_len h = n"
    "take n (buckets h) = map bucket [0..<n]"
    "below h = uadd (below v) (histo_cell o' lens e Below)" "above h = uadd (above v) (histo_cell o' lens e Above)"
    "length (counts h) = 8"
    "\<And>i. i < n - 1 \<Longrightarrow> counts h ! i = uadd (counts v ! i) (histo_cell o' lens e (Count i))"
    "\<And>d c. cell_ok n c \<Longrightarrow> histo_cell o1 lens d c = (if d = e then 0 else histo_cell o' lens d c)"
    "o1 = set_bytes o' (bytes o1)" "\<And>y. y < lens + 64 \<or> lens + 224 \<le> y \<Longrightarrow> bytes o1 y = bytes o' y"
proof -
  have wf: "lens_type (bytes o') lens = type_code optics_histo" "2 \<le> n" "n \<le> 9"
    using assms(1) by (simp_all add: histo_wf_def n_def)
  let ?oa = "cell_store o' lens e Below 0" and ?ob = "cell_store (cell_store o' lens e Below 0) lens e Above 0"
  let ?v = "if buckets_len v = 0 then v\<lparr>buckets_len := n, buckets := map bucket [0..<n] @ drop n (buckets v)\<rparr> else v"
  have v: "counts ?v = counts v" "below ?v = below v" "above ?v = above v" "buckets_len ?v = n"
      "take n (buckets ?v) = map bucket [0..<n]" using match by auto
  have "n - 1 < n" using wf(2) by simp
  then obtain cs o1 where T: "histo_take_counts (n - 1) (bytes ?ob) (lens + 64) e (counts v) = (cs, bytes o1)"
    "o1 = set_bytes ?ob (bytes o1)" "length cs = 8"
    "\<And>i. i < 8 \<Longrightarrow> cs ! i = (if i < n - 1 then uadd (counts v ! i) (histo_cell ?ob lens e (Count i)) else counts v ! i)"
    "\<And>d c. cell_ok n c \<Longrightarrow> histo_cell o1 lens d c =
       (if d = e \<and> (\<exists>i<n - 1. c = Count i) then 0 else histo_cell ?ob lens d c)"
    "\<And>y. y < lens + 64 \<or> lens + 224 \<le> y \<Longrightarrow> bytes o1 y = bytes ?ob y"
    using histo_take_counts_spec [OF _ wf(3) assms(2,3), of "n - 1" ?ob lens] by blast
  have cellb: "histo_cell ?ob lens d c = (if d = e \<and> (c = Below \<or> c = Above) then 0 else histo_cell o' lens d c)"
    if "cell_ok n c" for d c
    using cell_store_cell [of n Above c 0 ?oa lens e d] cell_store_cell [of n Below c 0 o' lens e d] that wf(3) by auto
  have above_old: "histo_cell ?oa lens e Above = histo_cell o' lens e Above"
    using cell_store_cell [of n Below Above 0 o' lens e e] wf(3) by simp
  have "lens_histo_read o' lens e v = (optics_ok, ?v\<lparr>below := uadd (below v) (histo_cell o' lens e Below),
      above := uadd (above v) (histo_cell o' lens e Above), counts := cs\<rparr>, set_bytes o' (bytes o1))"
  proof -
    have "\<not> (buckets_len v \<noteq> 0 \<and> (n \<noteq> buckets_len v \<or> map bucket [0..<n] \<noteq> take n (buckets v)))" using match by auto
    then show ?thesis
      using wf(1) v(1-3) T(1) above_old
      by (simp add: lens_histo_read_def lens_sub_ptr_def sizeof_lens_def Let_def histo_take_cell
          del: histo_take_counts.simps flip: n_def bucket_def)
  qed
  moreover have "set_bytes o' (bytes o1) = o1"
    by (subst (2) T(2)) (simp add: cell_store_def set_bytes_def)
  moreover have "histo_cell o1 lens d c = (if d = e then 0 else histo_cell o' lens d c)" if "cell_ok n c" for d c
    using T(5) [OF that, of d] cellb [OF that, of d] that by (cases c) auto
  moreover have "cs ! i = uadd (counts v ! i) (histo_cell o' lens e (Count i))" if "i < n - 1" for i
    using T(4) [of i] that wf(3) cellb [of "Count i" e] by auto
  moreover have "bytes o1 y = bytes o' y" if "y < lens + 64 \<or> lens + 224 \<le> y" for y
    using T(6) [OF that] cell_store_frame [of n Above e y lens ?oa 0] cell_store_frame [of n Below e y lens o' 0]
      that wf(3) assms(2) by auto
  ultimately show thesis
    using that [of _ o1] v T(3) by simp
qed


text \<open>A histogram with the bounds 10, 20 and 40 in a block of its own.\<close>

definition histo_store :: optics where
  "histo_store = set_bytes two_block_store
     (store_words (store64 (lens_init (\<lambda>_. 0) 704 optics_histo 240 4 ''size'') 1000 3) 928 [10, 20, 40])"

lemma histo_store_wf: "histo_wf histo_store 704" "histo_buckets_len (bytes histo_store) 768 = 3"
    "histo_bucket (bytes histo_store) 768 0 = 10" "histo_bucket (bytes histo_store) 768 1 = 20"
    "histo_bucket (bytes histo_store) 768 2 = 40"
proof -
  have "lens_type (bytes histo_store) 704 = type_code optics_histo"
    by (simp add: histo_store_def lens_type_def lens_init_def Let_def lens_name_ptr_def lens_lens_len_def
        load_store_disjoint load_memcpy_disjoint sizeof_lens_def)
  moreover show l: "histo_buckets_len (bytes histo_store) 768 = 3"
    by (simp add: histo_store_def histo_buckets_len_def load_store_disjoint)
  ultimately show "histo_wf histo_store 704" by (simp add: histo_wf_def)
  show "histo_bucket (bytes histo_store) 768 0 = 10" "histo_bucket (bytes histo_store) 768 1 = 20"
    "histo_bucket (bytes histo_store) 768 2 = 40"
    by (simp_all add: histo_store_def histo_bucket_def load_store_disjoint)
qed


text \<open>
  What a histogram refuses. Recording a NaN does not return: no comparison holds and the
  assertion that a cell was found ends the process. Reading into a result that already has
  other bounds reports an error and changes neither the result nor the store, and so do both
  operations on a lens of another type.
\<close>

theorem histo_refuses:
  defines "n \<equiv> \<lambda>o' lens. histo_buckets_len (bytes o') (lens + 64)"
    and "bucket \<equiv> \<lambda>o' lens. histo_bucket (bytes o') (lens + 64)"
  shows "(is_nan v \<and> lens_type (bytes o') lens = type_code optics_histo \<longrightarrow> lens_histo_inc o' lens e v = None) \<and>
    (buckets_len h \<noteq> 0 \<and> (buckets_len h, take (n o' lens) (buckets h)) \<noteq> (n o' lens, map (bucket o' lens) [0..<n o' lens]) \<longrightarrow>
      lens_histo_read o' lens e h = (optics_err, h, o')) \<and>
    (lens_type (bytes o') lens \<noteq> type_code optics_histo \<longrightarrow>
      lens_histo_inc o' lens e v = Some (False, o') \<and> lens_histo_read o' lens e h = (optics_err, h, o'))"
proof (intro conjI impI)
  assume a: "is_nan v \<and> lens_type (bytes o') lens = type_code optics_histo"
  have "histo_pick b k v = None" for b k
    using a by (simp add: histo_pick_def dlt_def dge_def find_None_iff)
  then show "lens_histo_inc o' lens e v = None"
    using a by (simp add: lens_histo_inc_def lens_sub_ptr_def Let_def)
qed (auto simp: lens_histo_inc_def lens_histo_read_def lens_sub_ptr_def sizeof_lens_def Let_def n_def bucket_def)

theorem histo_refuses_witness:
  "lens_histo_inc histo_store 704 0 d_nan = None \<and>
   lens_histo_read histo_store 704 0 (zero_histo\<lparr>buckets_len := 2\<rparr>) = (optics_err, zero_histo\<lparr>buckets_len := 2\<rparr>, histo_store)"
proof -
  have "is_nan d_nan" by (simp add: is_nan_def d_nan_def magnitude_def inf_magnitude_def)
  then show ?thesis
    using histo_refuses [of d_nan histo_store 704 0 "zero_histo\<lparr>buckets_len := 2\<rparr>"] histo_store_wf(1,2)
    by (simp add: histo_wf_def)
qed

end
