(* ===== verification/Rng.thy ===== *)
theory Rng
  imports Double
begin

text \<open>
  The random number generator of \<^verbatim>\<open>src/utils/rng.c\<close>: xorshift64*, its seeding, and the
  range and probability draws built on it. The state is the 64-bit field \<^verbatim>\<open>x\<close> of
  \<^verbatim>\<open>struct rng\<close>. The seed that \<^verbatim>\<open>clock_rdtsc\<close> reads is an argument.
\<close>

unbundle bit_operations_syntax

section \<open>Definitions\<close>

type_synonym rng = u64

definition rng_max :: u64 where
  "rng_max = 0xFFFFFFFFFFFFFFFF"

text \<open>\<^verbatim>\<open>rng_seed_with\<close> asserts that the state is not 0.\<close>

definition rng_seed_with :: "u64 \<Rightarrow> rng option" where
  "rng_seed_with seed =
     (let x = seed XOR 0xedef335f00e170b3 in if x \<noteq> 0 then Some x else None)"

definition rng_global :: "rng \<Rightarrow> u64 \<Rightarrow> rng option" where
  "rng_global x rdtsc = (if x = 0 then rng_seed_with rdtsc else Some x)"

definition rng_gen :: "rng \<Rightarrow> u64 \<times> rng" where
  "rng_gen x0 =
     (let x1 = x0 XOR drop_bit 12 x0;
          x2 = x1 XOR push_bit 25 x1;
          x3 = x2 XOR drop_bit 27 x2
      in (x3 * 2685821657736338717, x3))"

text \<open>A range that is empty divides by zero.\<close>

definition rng_gen_range :: "rng \<Rightarrow> u64 \<Rightarrow> u64 \<Rightarrow> (u64 \<times> rng) option" where
  "rng_gen_range x lo hi =
     (if hi - lo = 0 then None
      else (let (g, x') = rng_gen x in Some (g mod (hi - lo) + lo, x')))"

text \<open>
  The conversion of the threshold to \<^verbatim>\<open>uint64_t\<close> is undefined when it does not fit, which
  includes every probability that rounds to 1.
\<close>

definition rng_gen_prob :: "rng \<Rightarrow> double \<Rightarrow> (bool \<times> rng) option" where
  "rng_gen_prob x prob =
     (let (g, x') = rng_gen x in
      case to_u64 (dmul prob (of_u64 (unat rng_max))) of
        None \<Rightarrow> None
      | Some limit \<Rightarrow> Some (unat g \<le> limit, x'))"

text \<open>
  What the lenses draw comes from the generator of their thread, which seeds itself from the
  time stamp counter when it is first used.
\<close>

definition global_range :: "u64 \<Rightarrow> rng \<Rightarrow> u64 \<Rightarrow> u64 \<Rightarrow> (u64 \<times> rng) option" where
  "global_range rdtsc x lo hi = Option.bind (rng_global x rdtsc) (\<lambda>y. rng_gen_range y lo hi)"

definition global_prob :: "u64 \<Rightarrow> rng \<Rightarrow> double \<Rightarrow> (bool \<times> rng) option" where
  "global_prob rdtsc x prob = Option.bind (rng_global x rdtsc) (\<lambda>y. rng_gen_prob y prob)"

section \<open>The state never collapses\<close>

text \<open>Each of the three shifts is injective, so the state never becomes 0.\<close>

lemma xor_eq_0_iff: "(a :: u64) XOR b = 0 \<longleftrightarrow> a = b"
proof
  assume "a XOR b = 0"
  then have "a XOR (a XOR b) = a XOR 0" by simp
  then show "a = b" by (simp add: xor.assoc [symmetric])
qed simp

lemma xor_drop_bit_0:
  assumes "x XOR drop_bit n x = (0 :: u64)" "0 < n"
  shows "x = 0"
proof -
  have "x = drop_bit n x" using assms(1) by (simp add: xor_eq_0_iff)
  then have "unat x = unat x div 2 ^ n"
    by (metis unat_drop_bit_eq drop_bit_eq_div)
  moreover have "unat x div 2 ^ n < unat x" if "0 < unat x"
    using that assms(2) one_less_power [of "2 :: nat" n] by (intro div_less_dividend) auto
  ultimately have "unat x = 0" by force
  then show ?thesis by (simp add: unat_0_iff)
qed

lemma xor_push_bit_0:
  assumes "x XOR push_bit n x = (0 :: u64)" "0 < n"
  shows "x = 0"
proof (rule bit_word_eqI)
  have eq: "x = push_bit n x" using assms(1) by (simp add: xor_eq_0_iff)
  have "\<not> bit x i" for i
  proof (induction i rule: less_induct)
    case (less i)
    have "bit x i \<longleftrightarrow> n \<le> i \<and> i < 64 \<and> bit x (i - n)"
      by (subst eq) (auto simp: bit_push_bit_iff)
    then show ?case
      using less [of "i - n"] assms(2) by auto
  qed
  then show "bit x i = bit 0 i" for i by simp
qed

lemma odd_factor_0:
  assumes "(x :: u64) * 2685821657736338717 = 0"
  shows "x = 0"
proof -
  have inverse: "(2685821657736338717 * 6415128727920758069 :: u64) = 1" by simp
  have "x = x * (2685821657736338717 * 6415128727920758069)" by (simp only: inverse mult_1_right)
  also have "\<dots> = (x * 2685821657736338717) * 6415128727920758069" by (simp only: mult.assoc)
  finally show ?thesis using assms by simp
qed

lemma rng_gen_nonzero:
  assumes "x \<noteq> 0" "rng_gen x = (g, x')"
  shows "g \<noteq> 0" and "x' \<noteq> 0"
proof -
  define x1 where "x1 = x XOR drop_bit 12 x"
  define x2 where "x2 = x1 XOR push_bit 25 x1"
  have "x' = x2 XOR drop_bit 27 x2"
    using assms(2) by (simp only: rng_gen_def Let_def x1_def x2_def prod.inject)
  moreover have "x1 \<noteq> 0" using assms(1) xor_drop_bit_0 [of x 12] by (auto simp: x1_def)
  moreover from this have "x2 \<noteq> 0" using xor_push_bit_0 [of x1 25] by (auto simp: x2_def)
  ultimately show x': "x' \<noteq> 0" using xor_drop_bit_0 [of x2 27] by auto
  have "g = x' * 2685821657736338717"
    using assms(2) by (auto simp: rng_gen_def Let_def)
  then show "g \<noteq> 0"
    using x' odd_factor_0 [of x'] by auto
qed

lemma of_u64_rng_max: "of_u64 (unat rng_max) = 0x43f0000000000000"
proof -
  have "unat rng_max = 18446744073709551615" by (simp add: rng_max_def)
  then show ?thesis
    by (simp add: of_u64_def round_mag_def rlog2_def ilog2.simps pow2_nat_def Let_def
        signed_double_def inf_magnitude_def)
qed

lemma zero_threshold: "to_u64 (dmul 0 (of_u64 (unat rng_max))) = Some 0"
  by (simp add: of_u64_rng_max to_u64_def to_int_def dtrunc_def dmul_def double_defs)

text \<open>
  The generator never reaches the all-zero state, from which it could not leave, and
  never draws 0: from a nonzero state, the next state and the drawn number are nonzero.
  Hence an event of probability zero never happens.
\<close>

theorem rng_never_zero:
  assumes "x \<noteq> 0"
  shows "fst (rng_gen x) \<noteq> 0 \<and> snd (rng_gen x) \<noteq> 0 \<and>
    rng_gen_prob x 0 = Some (False, snd (rng_gen x))"
proof -
  obtain g x' where g: "rng_gen x = (g, x')" by (cases "rng_gen x")
  note nz = rng_gen_nonzero [OF assms g]
  have "to_u64 (dmul 0 (of_u64 (unat rng_max))) = Some 0"
    by (rule zero_threshold)
  then show ?thesis
    using nz g by (simp add: rng_gen_prob_def unat_0_iff)
qed

theorem rng_never_zero_witness:
  "fst (rng_gen 1) \<noteq> 0 \<and> snd (rng_gen 1) \<noteq> 0 \<and> rng_gen_prob 1 0 = Some (False, snd (rng_gen 1))"
  by (rule rng_never_zero) simp

lemma unat_less_word: "a < b \<Longrightarrow> unat a < unat (b :: u64)"
  by (simp add: word_less_nat_alt)

text \<open>
  A draw from a range lies in the range: for \<open>lo < hi\<close>, \<open>rng_gen_range\<close> returns a
  number that is at least \<open>lo\<close> and less than \<open>hi\<close>, without wrapping around.
\<close>

theorem rng_gen_range_bounds:
  assumes "lo < hi"
  shows "\<exists>r x'. rng_gen_range x lo hi = Some (r, x') \<and> lo \<le> r \<and> r < hi \<and> x' = snd (rng_gen x)"
proof -
  obtain g x' where g: "rng_gen x = (g, x')" by (cases "rng_gen x")
  have lt: "unat lo < unat hi" using assms by (simp add: word_less_nat_alt)
  have d: "unat (hi - lo) = unat hi - unat lo"
    using assms by (intro unat_sub) (simp add: word_le_nat_alt word_less_nat_alt)
  have ne: "hi - lo \<noteq> 0" using assms by auto
  have m: "unat (g mod (hi - lo)) < unat hi - unat lo"
    using lt by (simp add: unat_mod d)
  have "unat hi < 18446744073709551616" using unsigned_less [of hi, where ?'a = nat] by simp
  then have "unat (g mod (hi - lo) + lo) = unat (g mod (hi - lo)) + unat lo"
    using m by (intro unat_add_lem [THEN iffD1]) simp
  then show ?thesis
    using ne g m by (simp add: rng_gen_range_def word_le_nat_alt word_less_nat_alt)
qed

theorem rng_gen_range_bounds_witness:
  "\<exists>r x'. rng_gen_range 1 0 200 = Some (r, x') \<and> 0 \<le> r \<and> r < 200 \<and> x' = snd (rng_gen 1)"
  by (rule rng_gen_range_bounds) simp

text \<open>A generator that is seeded stays seeded, and its draws from 0 up are in range.\<close>

lemma global_range_total:
  assumes "x \<noteq> 0" "0 < n" "n < 18446744073709551616"
  obtains r y where "global_range rdtsc x 0 (of_nat n) = Some (r, y)" "unat r < n" "y \<noteq> 0"
proof -
  obtain g y where g: "rng_gen x = (g, y)" by (cases "rng_gen x")
  have n: "unat (of_nat n :: u64) = n" using assms(3) by (simp add: unat_of_nat)
  then have "(of_nat n :: u64) \<noteq> 0" using assms(2) by auto
  moreover have "unat (g mod of_nat n) < n" using assms(2) by (simp add: unat_mod n)
  ultimately show thesis
    using that [of "g mod of_nat n" y] g rng_gen_nonzero [OF assms(1) g] assms(1)
    by (simp add: global_range_def rng_global_def rng_gen_range_def)
qed

text \<open>The generator can draw with \<open>p\<close>: the threshold fits 64 bits.\<close>

definition drawable :: "double \<Rightarrow> bool" where
  "drawable p \<longleftrightarrow> to_u64 (dmul p (of_u64 (unat rng_max))) \<noteq> None"

lemma global_prob_total:
  assumes "drawable p" "x \<noteq> 0"
  obtains b y where "global_prob rdtsc x p = Some (b, y)" "y \<noteq> 0"
proof -
  obtain g y where g: "rng_gen x = (g, y)" by (cases "rng_gen x")
  obtain l where "to_u64 (dmul p (of_u64 (unat rng_max))) = Some l" using assms(1) by (auto simp: drawable_def)
  then show thesis
    using that [of "unat g \<le> l" y] g rng_gen_nonzero(2) [OF assms(2) g] assms(2)
    by (simp add: global_prob_def rng_global_def rng_gen_prob_def)
qed

lemma global_prob_undefined: "\<not> drawable p \<Longrightarrow> x \<noteq> 0 \<Longrightarrow> global_prob rdtsc x p = None"
  by (simp add: drawable_def global_prob_def rng_global_def rng_gen_prob_def split: prod.split)

end
