(* ===== verification/Dist.thy ===== *)
theory Dist
  imports Poll_Value Rng "HOL-Library.Multiset"
begin

text \<open>
  The distribution, \<^verbatim>\<open>src/lens_dist.c\<close>: for each of the two epochs a lock, the number of values
  seen, their maximum and a reservoir of 200 of them.

  \<^verbatim>\<open>qsort\<close> is an argument of the model, since the C library leaves its result open when
  values compare equal; what it promises is \<open>qsort_ok\<close> below. So is what the
  uninitialised array \<^verbatim>\<open>result\<close> holds (\<open>stack\<close>); of the array \<^verbatim>\<open>samples\<close> only the part that was
  written is read.
\<close>

section \<open>Definitions\<close>

text \<open>\<^verbatim>\<open>struct lens_dist\<close>: two epochs of 1624 bytes: lock, number, maximum, samples.\<close>

definition sizeof_lens_dist :: nat where
  [layout]: "sizeof_lens_dist = 3248"

definition dist_epoch :: "off \<Rightarrow> nat \<Rightarrow> off" where
  [layout]: "dist_epoch dist e = dist + 1624 * e"

definition dist_sample_ptr :: "off \<Rightarrow> nat \<Rightarrow> off" where
  [layout]: "dist_sample_ptr d i = d + 24 + 8 * i"

definition lens_dist_alloc :: "sys \<Rightarrow> optics \<Rightarrow> string \<Rightarrow> (off option \<times> optics) option" where
  "lens_dist_alloc sys o' name = lens_alloc sys o' optics_dist sizeof_lens_dist name"

text \<open>Where a value goes: the next free sample, or any place among the values seen.\<close>

definition dist_index :: "u64 \<Rightarrow> rng \<Rightarrow> nat \<Rightarrow> (nat \<times> rng) option" where
  "dist_index rdtsc x n =
     (if n \<ge> optics_dist_samples
      then map_option (\<lambda>(r, y). (unat r, y)) (global_range rdtsc x 0 (of_nat n))
      else Some (n, x))"

text \<open>
  The generator of the thread is \<open>x\<close>, and \<open>rdtsc\<close> what seeds it. \<open>None\<close>: the lock of the epoch
  is taken and never released, or the seeding assertion fails.
\<close>

definition lens_dist_record :: "u64 \<Rightarrow> rng \<Rightarrow> optics \<Rightarrow> off \<Rightarrow> nat \<Rightarrow> double \<Rightarrow> (bool \<times> rng \<times> optics) option" where
  "lens_dist_record rdtsc x o' lens e v =
     (case lens_sub_ptr (bytes o') lens optics_dist of
        None \<Rightarrow> Some (False, x, o')
      | Some head \<Rightarrow>
          (let d = dist_epoch head e in
           case slock_lock (load64 (bytes o') d) of
             None \<Rightarrow> None
           | Some l \<Rightarrow>
               (let m0 = store64 (bytes o') d l;
                    n = load64 m0 (d + 8)
                in case dist_index rdtsc x n of
                     None \<Rightarrow> None
                   | Some (i, x1) \<Rightarrow>
                       (let m1 = (if i < optics_dist_samples then store64 m0 (dist_sample_ptr d i) (unat v) else m0);
                            m2 = store64 m1 (d + 8) (uadd (load64 m1 (d + 8)) 1);
                            m3 = (if dlt (of_nat (load64 m2 (d + 16))) v then store64 m2 (d + 16) (unat v) else m2);
                            m4 = store64 m3 d (slock_unlock (load64 m3 d))
                        in Some (True, x1, set_bytes o' m4)))))"

text \<open>The difference of the values, converted to \<^verbatim>\<open>int\<close>: undefined (\<open>None\<close>) where it does not fit.\<close>

definition lens_dist_value_cmp :: "double \<Rightarrow> double \<Rightarrow> int option" where
  "lens_dist_value_cmp lhs rhs = to_i32 (dsub lhs rhs)"

definition lens_dist_p :: "nat \<Rightarrow> nat \<Rightarrow> nat" where
  "lens_dist_p percentile n = umul n percentile div 100"

definition lens_dist_reservoir_len :: "nat \<Rightarrow> nat" where
  "lens_dist_reservoir_len len = (if len > optics_dist_samples then optics_dist_samples else len)"

text \<open>\<^verbatim>\<open>memcpy\<close> of the first \<open>n\<close> values of \<open>src\<close> to index \<open>i\<close> of \<open>dst\<close>.\<close>

definition copy_at :: "'a list \<Rightarrow> nat \<Rightarrow> 'a list \<Rightarrow> nat \<Rightarrow> 'a list" where
  "copy_at dst i src n = take i dst @ take n src @ drop (i + n) dst"

text \<open>The two sampling loops of \<^verbatim>\<open>lens_dist_merge\<close>.\<close>

fun merge_regular :: "u64 \<Rightarrow> rng \<Rightarrow> double list \<Rightarrow> nat \<Rightarrow> double list \<Rightarrow> (double list \<times> rng) option" where
  "merge_regular rdtsc x dst dst_len [] = Some (dst, x)"
| "merge_regular rdtsc x dst dst_len (v # to_merge) =
     Option.bind (global_range rdtsc x 0 (of_nat dst_len)) (\<lambda>(index, x1).
       merge_regular rdtsc x1 (if unat index < optics_dist_samples then dst[unat index := v] else dst)
         (uadd dst_len 1) to_merge)"

fun merge_sampled :: "u64 \<Rightarrow> rng \<Rightarrow> double \<Rightarrow> double list \<Rightarrow> double list \<Rightarrow> nat list \<Rightarrow> (double list \<times> rng) option" where
  "merge_sampled rdtsc x rate dst to_merge [] = Some (dst, x)"
| "merge_sampled rdtsc x rate dst to_merge (i # is) =
     Option.bind (global_prob rdtsc x rate) (\<lambda>(pick, x1).
       merge_sampled rdtsc x1 rate (if pick then dst[i := to_merge ! i] else dst) to_merge is)"

text \<open>\<open>to_merge\<close> is the smaller set, \<open>big\<close> the larger one.\<close>

definition merge_into ::
  "u64 \<Rightarrow> rng \<Rightarrow> double list \<Rightarrow> double list \<Rightarrow> nat \<Rightarrow> double list \<Rightarrow> nat \<Rightarrow> (nat \<times> double list \<times> rng) option" where
  "merge_into rdtsc x dst big dst_len to_merge to_merge_len =
     (let dst = copy_at dst 0 big (lens_dist_reservoir_len dst_len) in
      if \<not> to_merge_len \<le> dst_len then None
      else if to_merge_len = 0 then Some (lens_dist_reservoir_len dst_len, dst, x)
      else
        (let to_copy = (if dst_len < optics_dist_samples
                        then min (optics_dist_samples - dst_len) to_merge_len else 0);
             dst = copy_at dst dst_len to_merge to_copy;
             dst_len' = dst_len + to_copy;
             to_merge = drop to_copy to_merge;
             to_merge_len = to_merge_len - to_copy
         in if dst_len < optics_dist_samples \<and> to_merge_len = 0 then Some (dst_len', dst, x)
            else if to_merge_len \<le> optics_dist_samples
            then Option.bind (merge_regular rdtsc x dst dst_len' (take to_merge_len to_merge))
                   (\<lambda>(dst, x1). Some (optics_dist_samples, dst, x1))
            else
              (let rate = ddiv (of_u64 to_merge_len) (of_u64 (uadd to_merge_len dst_len')) in
               Option.bind (merge_sampled rdtsc x rate dst to_merge [0..<optics_dist_samples])
                 (\<lambda>(dst, x1). Some (optics_dist_samples, dst, x1)))))"

definition lens_dist_merge ::
  "u64 \<Rightarrow> rng \<Rightarrow> double list \<Rightarrow> double list \<Rightarrow> nat \<Rightarrow> double list \<Rightarrow> nat \<Rightarrow> (nat \<times> double list \<times> rng) option" where
  "lens_dist_merge rdtsc x dst lhs lhs_len rhs rhs_len =
     (if lhs_len \<ge> rhs_len then merge_into rdtsc x dst lhs lhs_len rhs rhs_len
      else merge_into rdtsc x dst rhs rhs_len lhs lhs_len)"

type_synonym 'a qsort = "('a \<Rightarrow> 'a \<Rightarrow> int option) \<Rightarrow> 'a list \<Rightarrow> 'a list option"

definition dist_array :: "mem \<Rightarrow> off \<Rightarrow> double list" where
  "dist_array m d = map (\<lambda>i. of_nat (load64 m (dist_sample_ptr d i))) [0..<optics_dist_samples]"

definition lens_dist_read ::
  "double qsort \<Rightarrow> double list \<Rightarrow> u64 \<Rightarrow> rng \<Rightarrow> optics \<Rightarrow> off \<Rightarrow> nat \<Rightarrow> optics_dist \<Rightarrow>
     (optics_ret \<times> optics_dist \<times> rng \<times> optics) option" where
  "lens_dist_read qsort stack rdtsc x o' lens e v =
     (case lens_sub_ptr (bytes o') lens optics_dist of
        None \<Rightarrow> Some (optics_err, v, x, o')
      | Some head \<Rightarrow>
          (let d = dist_epoch head e in
           if slock_is_locked (load64 (bytes o') d) then Some (optics_busy, v, x, o')
           else
             (let m = bytes o';
                  samples_len = load64 m (d + 8);
                  max = of_nat (load64 m (d + 16));
                  v1 = (if dlt (dist_max v) max then v\<lparr>dist_max := max\<rparr> else v);
                  to_copy = lens_dist_reservoir_len samples_len;
                  samples = take to_copy (dist_array m d);
                  m1 = store64 m (d + 16) 0;
                  m2 = store64 m1 (d + 8) 0;
                  m3 = store64 m2 d (slock_unlock (load64 m2 d));
                  o1 = set_bytes o' m3
              in if samples_len = 0 then Some (optics_ok, v1, x, o1)
                 else
                   Option.bind (lens_dist_merge rdtsc x stack samples samples_len (dist_samples v1) (dist_n v1))
                     (\<lambda>(result_len, result, x1).
                       Option.bind (qsort lens_dist_value_cmp (take result_len result)) (\<lambda>sorted.
                         (let p = (\<lambda>percentile. sorted ! lens_dist_p percentile result_len) in
                          Some (optics_ok,
                            v1\<lparr>dist_samples := result, dist_n := uadd (dist_n v1) samples_len,
                               p50 := p 50, p90 := p 90, p99 := p 99\<rparr>, x1, o1)))))))"

definition lens_dist_normalize :: "optics_poll \<Rightarrow> optics_dist \<Rightarrow> 'c normalize_cb \<Rightarrow> 'c \<Rightarrow> (bool \<times> 'c) option" where
  "lens_dist_normalize poll dist cb ctx =
     Option.bind (optics_key_push zero_key (pkey poll)) (\<lambda>(_, key).
       cb_all cb poll key ctx
         [(''count'', lens_rescale poll (of_u64 (dist_n dist))), (''p50'', p50 dist), (''p90'', p90 dist),
          (''p99'', p99 dist), (''max'', dist_max dist)])"

section \<open>What an epoch holds\<close>

text \<open>
  \<open>arr\<close> is a reservoir for the values \<open>vs\<close>: it holds nothing but some of them, and all of them
  as long as they fit.
\<close>

definition reservoir :: "double list \<Rightarrow> double list \<Rightarrow> bool" where
  "reservoir arr vs \<longleftrightarrow> min (length vs) optics_dist_samples \<le> length arr \<and>
     set (take (min (length vs) optics_dist_samples) arr) \<subseteq> set vs \<and>
     (length vs \<le> optics_dist_samples \<longrightarrow> mset (take (length vs) arr) = mset vs)"

text \<open>The maximum starts at zero and ignores NaN.\<close>

definition max_of :: "double \<Rightarrow> double list \<Rightarrow> bool" where
  "max_of m vs \<longleftrightarrow> \<not> is_nan m \<and> (m = d_zero \<or> m \<in> set vs) \<and> \<not> dlt m d_zero \<and> (\<forall>v \<in> set vs. \<not> dlt m v)"

definition dist_holds :: "optics \<Rightarrow> off \<Rightarrow> nat \<Rightarrow> double list \<Rightarrow> bool" where
  "dist_holds o' lens e vs \<longleftrightarrow>
     (let d = dist_epoch (lens + 64) e; m = bytes o' in
      lens_type m lens = type_code optics_dist \<and> load64 m d = 0 \<and> load64 m (d + 8) = length vs \<and>
      max_of (of_nat (load64 m (d + 16))) vs \<and> reservoir (dist_array m d) vs)"

lemma d_zero_not_nan [simp]: "\<not> is_nan d_zero"
  by (simp add: d_zero_def is_nan_def magnitude_def)

lemma max_of_Nil: "max_of d_zero []"
  by (simp add: max_of_def)

lemma max_of_step: "max_of m vs \<Longrightarrow> max_of (if dlt m v then v else m) (vs @ [v])"
  by (auto simp: max_of_def dlt_def)

lemma max_of_merge: "max_of m vs \<Longrightarrow> max_of k ws \<Longrightarrow> max_of (if dlt k m then m else k) (vs @ ws)"
  by (auto simp: max_of_def dlt_def)

lemma reservoir_Nil: "reservoir arr []"
  by (simp add: reservoir_def)

lemma set_take_update: "set (take k (xs[i := v])) \<subseteq> insert v (set (take k xs))"
  by (simp add: take_update_swap set_update_subset_insert)

lemma reservoir_step:
  assumes "reservoir arr vs" "length arr = optics_dist_samples"
    and "if length vs < optics_dist_samples then i = length vs else True"
  shows "reservoir (if i < optics_dist_samples then arr[i := v] else arr) (vs @ [v])"
proof (cases "length vs < optics_dist_samples")
  case True
  have "take (Suc (length vs)) (arr[length vs := v]) = take (length vs) arr @ [v]"
    using True assms(2) by (simp add: take_Suc_conv_app_nth)
  then show ?thesis using True assms by (auto simp: reservoir_def)
next
  case False
  have "set (take optics_dist_samples arr) \<subseteq> set vs"
    using False assms(1) by (simp add: reservoir_def min_def split: if_splits)
  then have "set (take optics_dist_samples (arr[i := v])) \<subseteq> insert v (set vs)"
    using set_take_update [of optics_dist_samples arr i v] by blast
  then show ?thesis using False assms by (auto simp: reservoir_def min_def)
qed

subsection \<open>Recording\<close>

lemma length_dist_array [simp]: "length (dist_array m d) = 200"
  by (simp add: dist_array_def optics_dist_samples_def)

lemma dist_array_nth: "i < 200 \<Longrightarrow> dist_array m d ! i = of_nat (load64 m (dist_sample_ptr d i))"
  by (simp add: dist_array_def optics_dist_samples_def)

lemma dist_array_cong: "(\<And>y. d + 24 \<le> y \<Longrightarrow> y < d + 1624 \<Longrightarrow> m' y = m y) \<Longrightarrow> dist_array m' d = dist_array m d"
  unfolding dist_array_def
  by (intro map_cong refl arg_cong [of _ _ of_nat] load_cong)
    (auto simp: dist_sample_ptr_def optics_dist_samples_def)

lemma dist_array_store:
  assumes "i < 200"
  shows "dist_array (store64 m (dist_sample_ptr d i) (unat v)) d = (dist_array m d)[i := v]"
proof (rule nth_equalityI)
  fix j assume "j < length (dist_array (store64 m (dist_sample_ptr d i) (unat v)) d)"
  then have "j < 200" by simp
  then show "dist_array (store64 m (dist_sample_ptr d i) (unat v)) d ! j = (dist_array m d)[i := v] ! j"
  proof (cases "i = j")
    case False
    then have "dist_sample_ptr d j + 8 \<le> dist_sample_ptr d i \<or> dist_sample_ptr d i + 8 \<le> dist_sample_ptr d j"
      by (auto simp: dist_sample_ptr_def)
    then show ?thesis using \<open>j < 200\<close> False by (simp add: dist_array_nth load_store_disjoint)
  qed (use assms unsigned_less [of v, where ?'a = nat] in \<open>simp add: dist_array_nth\<close>)
qed simp

text \<open>What the four stores of a record do to the fields of the epoch.\<close>

lemma dist_stores:
  fixes m :: mem and d i n l :: nat and v :: double and b :: bool
  defines "m1 \<equiv> (if i < 200 then store64 (store64 m d l) (dist_sample_ptr d i) (unat v) else store64 m d l)"
  defines "m2 \<equiv> store64 m1 (d + 8) n"
  defines "m3 \<equiv> (if b then store64 m2 (d + 16) (unat v) else m2)"
  defines "m4 \<equiv> store64 m3 d 0"
  assumes n: "n < 18446744073709551616"
  shows "load64 m1 (d + 8) = load64 m (d + 8)" "load64 m2 (d + 16) = load64 m (d + 16)"
    "load64 m4 d = 0" "load64 m4 (d + 8) = n"
    "load64 m4 (d + 16) = (if b then unat v else load64 m (d + 16))"
    "dist_array m4 d = (if i < 200 then (dist_array m d)[i := v] else dist_array m d)"
    "\<And>y. y < d \<or> d + 1624 \<le> y \<Longrightarrow> m4 y = m y"
proof -
  have v: "unat v < 18446744073709551616" using unsigned_less [of v, where ?'a = nat] by simp
  show 1: "load64 m1 (d + 8) = load64 m (d + 8)" "load64 m2 (d + 16) = load64 m (d + 16)"
    by (simp_all add: m1_def m2_def load_store_disjoint dist_sample_ptr_def)
  show "load64 m4 d = 0" by (simp add: m4_def)
  show "load64 m4 (d + 8) = n" using n by (simp add: m4_def m3_def m2_def load_store_disjoint)
  show "load64 m4 (d + 16) = (if b then unat v else load64 m (d + 16))"
    using v 1 by (simp add: m4_def m3_def load_store_disjoint)
  have "dist_array m4 d = dist_array m1 d"
    by (rule dist_array_cong) (simp add: m4_def m3_def m2_def store_frame)
  also have "\<dots> = (if i < 200 then (dist_array m d)[i := v] else dist_array m d)"
    using dist_array_store [of i "store64 m d l" d v] dist_array_cong [of d "store64 m d l" m]
    by (simp add: m1_def store_frame)
  finally show "dist_array m4 d = (if i < 200 then (dist_array m d)[i := v] else dist_array m d)" .
  show "m4 y = m y" if "y < d \<or> d + 1624 \<le> y" for y
    using that by (auto simp: m4_def m3_def m2_def m1_def store_frame dist_sample_ptr_def)
qed

lemma lens_dist_record_total:
  assumes "dist_holds o' lens e vs" "length vs < 18446744073709551615" "x \<noteq> 0"
  obtains y o1 where "lens_dist_record rdtsc x o' lens e v = Some (True, y, o1)" "y \<noteq> 0"
    "dist_holds o1 lens e (vs @ [v])" "o1 = set_bytes o' (bytes o1)"
    "\<And>z. z < dist_epoch (lens + 64) e \<or> dist_epoch (lens + 64) e + 1624 \<le> z \<Longrightarrow> bytes o1 z = bytes o' z"
proof -
  let ?d = "dist_epoch (lens + 64) e" and ?m = "bytes o'"
  have H: "lens_type ?m lens = type_code optics_dist" "load64 ?m ?d = 0" "load64 ?m (?d + 8) = length vs"
      "max_of (of_nat (load64 ?m (?d + 16))) vs" "reservoir (dist_array ?m ?d) vs"
    using assms(1) by (simp_all add: dist_holds_def Let_def)
  have n0: "load64 (store64 ?m ?d 1) (?d + 8) = length vs" using H(3) by (simp add: load_store_disjoint)
  obtain i y where iy: "dist_index rdtsc x (length vs) = Some (i, y)" "if length vs < 200 then i = length vs else True" "y \<noteq> 0"
  proof (cases "length vs < 200")
    case True
    then show ?thesis
      using that [of "length vs" x] assms(3) by (simp add: dist_index_def optics_dist_samples_def)
  next
    case False
    then have "0 < length vs" "length vs < 18446744073709551616" using assms(2) by linarith+
    then obtain r y where "global_range rdtsc x 0 (of_nat (length vs)) = Some (r, y)" "y \<noteq> 0"
      using global_range_total [OF assms(3)] by blast
    then show ?thesis
      using that [of "unat r" y] False by (simp add: dist_index_def optics_dist_samples_def)
  qed
  let ?b = "dlt (of_nat (load64 ?m (?d + 16))) v"
  let ?n = "uadd (length vs) 1"
  have nn: "?n = Suc (length vs)" "?n < 18446744073709551616" using assms(2) by (simp_all add: uadd_small)
  define m1 where "m1 = (if i < 200 then store64 (store64 ?m ?d 1) (dist_sample_ptr ?d i) (unat v) else store64 ?m ?d 1)"
  define m4 where "m4 = store64 (if ?b then store64 (store64 m1 (?d + 8) ?n) (?d + 16) (unat v) else store64 m1 (?d + 8) ?n) ?d 0"
  have S: "load64 m1 (?d + 8) = load64 ?m (?d + 8)" "load64 (store64 m1 (?d + 8) ?n) (?d + 16) = load64 ?m (?d + 16)"
      "load64 m4 ?d = 0" "load64 m4 (?d + 8) = ?n"
      "load64 m4 (?d + 16) = (if ?b then unat v else load64 ?m (?d + 16))"
      "dist_array m4 ?d = (if i < 200 then (dist_array ?m ?d)[i := v] else dist_array ?m ?d)"
      "\<And>y. y < ?d \<or> ?d + 1624 \<le> y \<Longrightarrow> m4 y = ?m y"
    unfolding m4_def m1_def by (rule dist_stores [OF nn(2)]; assumption?)+
  have "lens_dist_record rdtsc x o' lens e v = Some (True, y, set_bytes o' m4)"
    using H(1,2) iy(1) S(1,2) n0 unfolding m4_def
    by (cases "i < 200")
      (simp_all add: lens_dist_record_def lens_sub_ptr_def sizeof_lens_def Let_def optics_dist_samples_def H(3) m1_def)
  moreover have "dist_holds (set_bytes o' m4) lens e (vs @ [v])"
  proof -
    have t: "lens_type m4 lens = lens_type ?m lens"
      unfolding lens_type_def by (rule load_cong, rule S(7)) (simp add: dist_epoch_def)
    have "max_of (if ?b then v else of_nat (load64 ?m (?d + 16))) (vs @ [v])" using max_of_step [OF H(4)] .
    moreover have "(of_nat (load64 m4 (?d + 16)) :: double) = (if ?b then v else of_nat (load64 ?m (?d + 16)))"
      using S(5) by simp
    moreover have "reservoir (dist_array m4 ?d) (vs @ [v])"
      using reservoir_step [OF H(5), of i v] iy(2) S(6) by (simp add: optics_dist_samples_def)
    ultimately show ?thesis
      using H(1) t S(3,4) nn(1) by (simp add: dist_holds_def Let_def)
  qed
  ultimately show thesis
    using that [of y "set_bytes o' m4"] iy(3) S(7) by simp
qed

subsection \<open>Merging\<close>

lemma length_copy_at: "i + n \<le> length dst \<Longrightarrow> n \<le> length src \<Longrightarrow> length (copy_at dst i src n) = length dst"
  by (simp add: copy_at_def)

lemma take_copy_at:
  "i + n \<le> length dst \<Longrightarrow> n \<le> length src \<Longrightarrow> take (i + n) (copy_at dst i src n) = take i dst @ take n src"
  by (simp add: copy_at_def)

lemma merge_regular_total:
  assumes "x \<noteq> 0" "0 < n" "n + length tm < 18446744073709551616" "length dst = optics_dist_samples"
  shows "\<exists>dst' y. merge_regular rdtsc x dst n tm = Some (dst', y) \<and> y \<noteq> 0 \<and> length dst' = length dst \<and>
    set dst' \<subseteq> set dst \<union> set tm"
  using assms
proof (induction tm arbitrary: x dst n)
  case Nil
  then show ?case by simp
next
  case (Cons v tm)
  obtain r y where r: "global_range rdtsc x 0 (of_nat n) = Some (r, y)" "unat r < n" "y \<noteq> 0"
    using global_range_total [OF Cons.prems(1,2)] Cons.prems(3) by auto
  let ?dst = "if unat r < optics_dist_samples then dst[unat r := v] else dst"
  have u: "uadd n 1 = n + 1" using Cons.prems(3) by (simp add: uadd_small)
  have "set ?dst \<subseteq> insert v (set dst)" by (simp add: set_update_subset_insert subset_insertI)
  then show ?case
    using Cons.IH [OF r(3), of "n + 1" ?dst] Cons.prems r(1) u by fastforce
qed

lemma merge_sampled_total:
  assumes "\<forall>y. y \<noteq> 0 \<longrightarrow> rng_gen_prob y rate \<noteq> None" "x \<noteq> 0" "\<forall>i \<in> set is. tm ! i \<in> T"
  shows "\<exists>dst' y. merge_sampled rdtsc x rate dst tm is = Some (dst', y) \<and> y \<noteq> 0 \<and> length dst' = length dst \<and>
    set dst' \<subseteq> set dst \<union> T"
  using assms(2,3)
proof (induction "is" arbitrary: x dst)
  case Nil
  then show ?case by simp
next
  case (Cons i "is")
  obtain b y where b: "rng_gen_prob x rate = Some (b, y)" using assms(1) Cons.prems(1) by auto
  have y: "y \<noteq> 0"
    using b rng_gen_nonzero(2) [OF Cons.prems(1)] by (auto simp: rng_gen_prob_def Let_def split: prod.splits option.splits)
  let ?dst = "if b then dst[i := tm ! i] else dst"
  have "tm ! i \<in> T" using Cons.prems(2) by simp
  then have "set ?dst \<subseteq> set dst \<union> T"
    using set_update_subset_insert [of dst i "tm ! i"] by auto
  then show ?case
    using Cons.IH [OF y, of ?dst] Cons.prems b by (fastforce simp: global_prob_def rng_global_def)
qed

text \<open>The rate with which two sampled sets mix.\<close>

definition mix_rate :: "nat \<Rightarrow> nat \<Rightarrow> double" where
  "mix_rate small big = ddiv (of_u64 small) (of_u64 (small + big))"

lemma reservoir_swap: "reservoir arr (vs @ ws) = reservoir arr (ws @ vs)"
  by (simp add: reservoir_def Un_commute add.commute)

text \<open>What is left of the smaller set once the reservoir is full.\<close>

definition merge_rest :: "u64 \<Rightarrow> rng \<Rightarrow> double list \<Rightarrow> nat \<Rightarrow> double list \<Rightarrow> nat \<Rightarrow> (double list \<times> rng) option" where
  "merge_rest rdtsc x dst dst_len tm tm_len =
     (if tm_len \<le> 200 then merge_regular rdtsc x dst dst_len (take tm_len tm)
      else merge_sampled rdtsc x (ddiv (of_u64 tm_len) (of_u64 (uadd tm_len dst_len))) dst tm [0..<200])"

lemma merge_rest_total:
  assumes "x \<noteq> 0" "length dst = 200" "0 < dst_len" "dst_len + tm_len < 18446744073709551616"
    and "tm_len \<le> 200 \<or> drawable (mix_rate tm_len dst_len)" "min tm_len 200 \<le> length tm" "set (take (min tm_len 200) tm) \<subseteq> T"
  shows "\<exists>dst' y. merge_rest rdtsc x dst dst_len tm tm_len = Some (dst', y) \<and> y \<noteq> 0 \<and> length dst' = 200 \<and>
    set dst' \<subseteq> set dst \<union> T"
proof (cases "tm_len \<le> 200")
  case True
  have len: "length dst = optics_dist_samples" using assms(2) by (simp add: optics_dist_samples_def)
  have "length (take tm_len tm) \<le> tm_len" by simp
  then have "dst_len + length (take tm_len tm) < 18446744073709551616" using assms(4) by linarith
  from merge_regular_total [OF assms(1,3) this len, of rdtsc] show ?thesis
    using True assms(2,7) by (auto simp: merge_rest_def)
next
  case False
  have ub: "uadd tm_len dst_len = tm_len + dst_len" using assms(4) by (simp add: uadd_small)
  have "\<forall>y. y \<noteq> 0 \<longrightarrow> rng_gen_prob y (ddiv (of_u64 tm_len) (of_u64 (uadd tm_len dst_len))) \<noteq> None"
    using assms(5) False by (auto simp: drawable_def mix_rate_def rng_gen_prob_def ub split: prod.splits)
  moreover have "\<forall>i \<in> set [0..<200]. tm ! i \<in> T"
  proof
    fix i assume "i \<in> set [0..<200 :: nat]"
    then have "tm ! i \<in> set (take 200 tm)" using assms(6) False by (auto simp: in_set_conv_nth)
    then show "tm ! i \<in> T" using assms(7) False by auto
  qed
  ultimately show ?thesis
    using merge_sampled_total [of _ x "[0..<200]" tm T rdtsc dst] assms(1,2) False by (simp add: merge_rest_def)
qed

lemma merge_into_total:
  assumes "reservoir big bs" "reservoir tm ss" "length ss \<le> length bs" "length stack = 200" "x \<noteq> 0"
    and "length bs + length ss < 18446744073709551616" "length ss \<le> 200 \<or> drawable (mix_rate (length ss) (length bs))"
  shows "\<exists>dst y. merge_into rdtsc x stack big (length bs) tm (length ss) =
      Some (min (length (bs @ ss)) 200, dst, y) \<and> y \<noteq> 0 \<and> length dst = 200 \<and> reservoir dst (bs @ ss)"
proof -
  note D = optics_dist_samples_def
  let ?nb = "length bs" and ?ns = "length ss"
  let ?r = "min ?nb 200"
  have R: "?r \<le> length big" "set (take ?r big) \<subseteq> set bs" "?nb \<le> 200 \<Longrightarrow> mset (take ?nb big) = mset bs"
      "min ?ns 200 \<le> length tm" "set (take (min ?ns 200) tm) \<subseteq> set ss" "?ns \<le> 200 \<Longrightarrow> mset (take ?ns tm) = mset ss"
    using assms(1,2) by (simp_all add: reservoir_def D)
  have rl: "lens_dist_reservoir_len ?nb = ?r" by (simp add: lens_dist_reservoir_len_def D)
  define d1 where "d1 = copy_at stack 0 big ?r"
  have d1: "length d1 = 200" "take ?r d1 = take ?r big"
    using length_copy_at [of 0 ?r stack big] take_copy_at [of 0 ?r stack big] R(1) assms(4) by (simp_all add: d1_def)
  consider (empty) "?ns = 0" | (fits) "?ns \<noteq> 0" "?nb + ?ns \<le> 200" | (over) "?ns \<noteq> 0" "200 < ?nb + ?ns" by linarith
  then show ?thesis
  proof cases
    case empty
    then have "merge_into rdtsc x stack big ?nb tm ?ns = Some (?r, d1, x)"
      using rl by (simp add: merge_into_def Let_def d1_def)
    moreover have "reservoir d1 bs"
      using R(2,3) d1 by (auto simp: reservoir_def D min_def split: if_splits)
    ultimately show ?thesis using empty assms(5) d1(1) by simp
  next
    case fits
    then have c: "min (200 - ?nb) ?ns = ?ns" "?nb < 200" "?r = ?nb" "?ns \<le> 200" by linarith+
    define d2 where "d2 = copy_at d1 ?nb tm ?ns"
    have d2: "length d2 = 200" "take (?nb + ?ns) d2 = take ?nb big @ take ?ns tm"
      using length_copy_at [of ?nb ?ns d1 tm] take_copy_at [of ?nb ?ns d1 tm] d1 R(4) fits c by (simp_all add: d2_def)
    have "merge_into rdtsc x stack big ?nb tm ?ns = Some (?nb + ?ns, d2, x)"
      using fits c assms(3) rl by (simp add: merge_into_def Let_def D d2_def d1_def)
    moreover have "reservoir d2 (bs @ ss)"
      using d2 R(2,3,5,6) fits c by (auto simp: reservoir_def D)
    ultimately show ?thesis using fits assms(5) d2(1) by simp
  next
    case over
    define k where "k = (if ?nb < 200 then 200 - ?nb else 0)"
    define d2 where "d2 = copy_at d1 ?nb tm k"
    have k: "k < ?ns" "k \<le> 200" "(if ?nb < 200 then min (200 - ?nb) ?ns else 0) = k" "?nb + k \<ge> 200"
        "?nb < 200 \<Longrightarrow> ?nb + k = 200"
      using over by (auto simp: k_def)
    have d2: "length d2 = 200 \<and> set d2 \<subseteq> set bs \<union> set ss"
    proof (cases "?nb < 200")
      case True
      then have nk: "?nb + k \<le> length d1" "k \<le> length tm" using d1(1) k R(4) by auto
      have len: "length d2 = 200" using length_copy_at [OF nk] d1(1) by (simp add: d2_def)
      have "take 200 d2 = take ?nb d1 @ take k tm"
        using take_copy_at [OF nk] k(5) True by (simp add: d2_def)
      then have "set d2 = set (take ?nb d1) \<union> set (take k tm)" using len by (metis order_refl set_append take_all)
      moreover have "set (take k tm) \<subseteq> set ss"
        using R(5) k(1,2) set_take_subset_set_take [of k "min ?ns 200" tm] by auto
      moreover have "take ?nb d1 = take ?r big" using d1(2) True by simp
      ultimately show ?thesis using R(2) len by auto
    next
      case False
      then have "d2 = d1" by (simp add: d2_def k_def copy_at_def)
      moreover have "d1 = take ?r d1" using False d1(1) by simp
      ultimately show ?thesis using d1 R(2) by auto
    qed
    have eq: "merge_into rdtsc x stack big ?nb tm ?ns =
        Option.bind (merge_rest rdtsc x d2 (?nb + k) (drop k tm) (?ns - k)) (\<lambda>(dst, x1). Some (200, dst, x1))"
      using over k(1,3) assms(3) rl by (auto simp: merge_into_def merge_rest_def Let_def D d2_def d1_def)
    have small: "k = 0 \<or> ?ns \<le> 200" using assms(3) by (simp add: k_def)
    have rest: "min (?ns - k) 200 \<le> length (drop k tm)" "set (take (min (?ns - k) 200) (drop k tm)) \<subseteq> set ss"
    proof -
      show "min (?ns - k) 200 \<le> length (drop k tm)" using R(4) small by auto
      have "set (take (min (?ns - k) 200) (drop k tm)) \<subseteq> set (take (min ?ns 200) tm)"
        using small k(1) by (auto simp: min_def simp flip: drop_take dest: in_set_dropD)
      then show "set (take (min (?ns - k) 200) (drop k tm)) \<subseteq> set ss" using R(5) by blast
    qed
    have "0 < ?nb + k" "?nb + k + (?ns - k) < 18446744073709551616" "?ns - k \<le> 200 \<or> drawable (mix_rate (?ns - k) (?nb + k))"
      using assms(6,7) k(1,4) small by auto
    from merge_rest_total [OF assms(5) conjunct1 [OF d2] this rest, of rdtsc]
    obtain dst y where "merge_rest rdtsc x d2 (?nb + k) (drop k tm) (?ns - k) = Some (dst, y)" "y \<noteq> 0" "length dst = 200"
        "set dst \<subseteq> set d2 \<union> set ss" by blast
    then have "merge_into rdtsc x stack big ?nb tm ?ns = Some (200, dst, y) \<and> y \<noteq> 0 \<and> length dst = 200 \<and>
        set dst \<subseteq> set bs \<union> set ss" using eq d2 by auto
    then show ?thesis using over by (auto simp: reservoir_def D)
  qed
qed

lemma lens_dist_merge_total:
  assumes "reservoir lhs vs" "reservoir rhs ws" "length stack = 200" "x \<noteq> 0"
    and "length vs + length ws < 18446744073709551616"
    and "min (length vs) (length ws) \<le> 200 \<or> drawable (mix_rate (min (length vs) (length ws)) (max (length vs) (length ws)))"
  shows "\<exists>dst y. lens_dist_merge rdtsc x stack lhs (length vs) rhs (length ws) =
      Some (min (length vs + length ws) 200, dst, y) \<and> y \<noteq> 0 \<and> length dst = 200 \<and> reservoir dst (vs @ ws)"
proof (cases "length ws \<le> length vs")
  case True
  then show ?thesis
    using merge_into_total [OF assms(1,2) True assms(3,4), of rdtsc] assms(5,6)
    by (simp add: lens_dist_merge_def min_def max_def split: if_splits)
next
  case False
  then show ?thesis
    using merge_into_total [OF assms(2,1) _ assms(3,4), of rdtsc] assms(5,6)
    by (simp add: lens_dist_merge_def reservoir_swap [of _ vs] min_def max_def add.commute split: if_splits)
qed

subsection \<open>Reading\<close>

text \<open>
  \<^verbatim>\<open>qsort\<close> asks for a comparison that is defined and orders its arguments; then it returns a
  sorted rearrangement.
\<close>

definition cmp_orders :: "('a \<Rightarrow> 'a \<Rightarrow> int option) \<Rightarrow> 'a set \<Rightarrow> bool" where
  "cmp_orders cmp S \<longleftrightarrow> (\<forall>a \<in> S. \<forall>b \<in> S. \<exists>i j. cmp a b = Some i \<and> cmp b a = Some j \<and> (i < 0 \<longleftrightarrow> 0 < j)) \<and>
     (\<forall>a \<in> S. \<forall>b \<in> S. \<forall>c \<in> S. the (cmp a b) \<le> 0 \<longrightarrow> the (cmp b c) \<le> 0 \<longrightarrow> the (cmp a c) \<le> 0)"

definition cmp_le :: "('a \<Rightarrow> 'a \<Rightarrow> int option) \<Rightarrow> 'a \<Rightarrow> 'a \<Rightarrow> bool" where
  "cmp_le cmp a b \<longleftrightarrow> (case cmp a b of None \<Rightarrow> False | Some i \<Rightarrow> i \<le> 0)"

definition qsort_ok :: "'a qsort \<Rightarrow> bool" where
  "qsort_ok qsort \<longleftrightarrow> (\<forall>cmp xs. cmp_orders cmp (set xs) \<longrightarrow>
     (\<exists>ys. qsort cmp xs = Some ys \<and> mset ys = mset xs \<and> sorted_wrt (cmp_le cmp) ys))"

text \<open>A result that stands for the values \<open>ws\<close>.\<close>

definition value_holds :: "optics_dist \<Rightarrow> double list \<Rightarrow> bool" where
  "value_holds v ws \<longleftrightarrow> dist_n v = length ws \<and> max_of (dist_max v) ws \<and> reservoir (dist_samples v) ws"

lemma zero_dist_holds: "value_holds zero_dist []"
  by (simp add: value_holds_def zero_dist_def max_of_Nil reservoir_Nil)

lemma cmp_orders_subset: "cmp_orders cmp S \<Longrightarrow> T \<subseteq> S \<Longrightarrow> cmp_orders cmp T"
  unfolding cmp_orders_def by (meson subsetD)

text \<open>The epoch after a read.\<close>

lemma dist_clear:
  fixes d :: nat and m :: mem
  defines "m3 \<equiv> store64 (store64 (store64 m (d + 16) 0) (d + 8) 0) d 0"
  shows "load64 m3 d = 0" "load64 m3 (d + 8) = 0" "load64 m3 (d + 16) = 0"
    "\<And>y. y < d \<or> d + 24 \<le> y \<Longrightarrow> m3 y = m y"
  by (auto simp: m3_def load_store_disjoint store_frame)

lemma dist_holds_clear:
  fixes d :: nat
  assumes "lens_type (bytes o') lens = type_code optics_dist" "d = dist_epoch (lens + 64) e"
  shows "dist_holds (set_bytes o' (store64 (store64 (store64 (bytes o') (d + 16) 0) (d + 8) 0) d 0)) lens e []"
proof -
  let ?m = "store64 (store64 (store64 (bytes o') (d + 16) 0) (d + 8) 0) d 0"
  have "lens_type ?m lens = lens_type (bytes o') lens"
    unfolding lens_type_def by (rule load_cong, rule dist_clear(4)) (simp add: assms(2) dist_epoch_def)
  then show ?thesis
    using assms dist_clear [where m = "bytes o'" and d = d] max_of_Nil
    by (simp add: dist_holds_def reservoir_Nil d_zero_def)
qed

lemma lens_dist_read_empty:
  assumes "dist_holds o' lens e []" "value_holds v ws"
  obtains o1 v' where "lens_dist_read qsort stack rdtsc x o' lens e v = Some (optics_ok, v', x, o1)"
    "dist_holds o1 lens e []" "value_holds v' ws" "o1 = set_bytes o' (bytes o1)"
    "\<And>z. z < dist_epoch (lens + 64) e \<or> dist_epoch (lens + 64) e + 1624 \<le> z \<Longrightarrow> bytes o1 z = bytes o' z"
proof -
  let ?d = "dist_epoch (lens + 64) e" and ?m = "bytes o'"
  let ?o = "set_bytes o' (store64 (store64 (store64 ?m (?d + 16) 0) (?d + 8) 0) ?d 0)"
  let ?v = "if dlt (dist_max v) (of_nat (load64 ?m (?d + 16))) then v\<lparr>dist_max := of_nat (load64 ?m (?d + 16))\<rparr> else v"
  have H: "lens_type ?m lens = type_code optics_dist" "load64 ?m ?d = 0" "load64 ?m (?d + 8) = 0"
      "max_of (of_nat (load64 ?m (?d + 16))) []"
    using assms(1) by (simp_all add: dist_holds_def Let_def)
  have "value_holds ?v ws"
    using assms(2) max_of_merge [OF H(4), of "dist_max v" ws] by (simp add: value_holds_def split: if_splits)
  moreover have "lens_dist_read qsort stack rdtsc x o' lens e v = Some (optics_ok, ?v, x, ?o)"
    using H(1-3) by (simp add: lens_dist_read_def lens_sub_ptr_def sizeof_lens_def Let_def)
  moreover have "bytes ?o z = ?m z" if "z < ?d \<or> ?d + 1624 \<le> z" for z
    using dist_clear(4) [of z ?d ?m] that by auto
  ultimately show thesis
    using that [of ?v ?o] dist_holds_clear [OF H(1)] by simp
qed

lemma lens_dist_read_total:
  assumes "dist_holds o' lens e vs" "vs \<noteq> []" "value_holds v ws" "qsort_ok qsort" "length stack = 200" "x \<noteq> 0"
    and "cmp_orders lens_dist_value_cmp (set vs \<union> set ws)" "length vs + length ws < 18446744073709551616"
    and "min (length vs) (length ws) \<le> 200 \<or> drawable (mix_rate (min (length vs) (length ws)) (max (length vs) (length ws)))"
  obtains y o1 v' ys where "lens_dist_read qsort stack rdtsc x o' lens e v = Some (optics_ok, v', y, o1)" "y \<noteq> 0"
    "dist_holds o1 lens e []" "value_holds v' (vs @ ws)" "o1 = set_bytes o' (bytes o1)"
    "length (dist_samples v') = 200"
    "mset ys = mset (take (min (length vs + length ws) 200) (dist_samples v'))"
    "sorted_wrt (cmp_le lens_dist_value_cmp) ys"
    "p50 v' = ys ! (length ys * 50 div 100)" "p90 v' = ys ! (length ys * 90 div 100)"
    "p99 v' = ys ! (length ys * 99 div 100)"
    "\<And>z. z < dist_epoch (lens + 64) e \<or> dist_epoch (lens + 64) e + 1624 \<le> z \<Longrightarrow> bytes o1 z = bytes o' z"
proof -
  let ?d = "dist_epoch (lens + 64) e" and ?m = "bytes o'" and ?n = "min (length vs + length ws) 200"
  let ?o = "set_bytes o' (store64 (store64 (store64 ?m (?d + 16) 0) (?d + 8) 0) ?d 0)"
  define v1 where "v1 = (if dlt (dist_max v) (of_nat (load64 ?m (?d + 16))) then v\<lparr>dist_max := of_nat (load64 ?m (?d + 16))\<rparr> else v)"
  have H: "lens_type ?m lens = type_code optics_dist" "load64 ?m ?d = 0" "load64 ?m (?d + 8) = length vs"
      "max_of (of_nat (load64 ?m (?d + 16))) vs" "reservoir (dist_array ?m ?d) vs"
    using assms(1) by (simp_all add: dist_holds_def Let_def)
  have V: "dist_n v1 = length ws" "reservoir (dist_samples v1) ws" "max_of (dist_max v1) (vs @ ws)"
    using assms(3) max_of_merge [OF H(4), of "dist_max v" ws]
    by (simp_all add: value_holds_def v1_def split: if_splits)
  let ?lhs = "take (lens_dist_reservoir_len (length vs)) (dist_array ?m ?d)"
  have lhs: "reservoir ?lhs vs"
    using H(5) by (auto simp: reservoir_def lens_dist_reservoir_len_def optics_dist_samples_def min_def)
  obtain dst y where M: "lens_dist_merge rdtsc x stack ?lhs (length vs) (dist_samples v1) (length ws) = Some (?n, dst, y)"
      "y \<noteq> 0" "length dst = 200" "reservoir dst (vs @ ws)"
    using lens_dist_merge_total [OF lhs V(2) assms(5,6,8,9), of rdtsc] by blast
  have "set (take ?n dst) \<subseteq> set vs \<union> set ws"
    using M(4) by (simp add: reservoir_def optics_dist_samples_def)
  then have "cmp_orders lens_dist_value_cmp (set (take ?n dst))" using cmp_orders_subset [OF assms(7)] by blast
  then obtain ys where ys: "qsort lens_dist_value_cmp (take ?n dst) = Some ys" "mset ys = mset (take ?n dst)"
      "sorted_wrt (cmp_le lens_dist_value_cmp) ys"
    using assms(4) by (auto simp: qsort_ok_def)
  have len: "length ys = ?n" using mset_eq_length [OF ys(2)] M(3) by simp
  have p: "lens_dist_p k ?n = length ys * k div 100" if "k \<le> 100" for k
  proof -
    have "?n * k \<le> 200 * 100" using that by (intro mult_le_mono) simp_all
    then show ?thesis unfolding lens_dist_p_def len by (subst umul_small) simp_all
  qed
  define v' where "v' = v1\<lparr>dist_samples := dst, dist_n := uadd (dist_n v1) (length vs),
    p50 := ys ! lens_dist_p 50 ?n, p90 := ys ! lens_dist_p 90 ?n, p99 := ys ! lens_dist_p 99 ?n\<rparr>"
  have "lens_dist_read qsort stack rdtsc x o' lens e v = Some (optics_ok, v', y, ?o)"
    using H(1-3) assms(2) M(1) ys(1) V(1)
    by (simp add: lens_dist_read_def lens_sub_ptr_def sizeof_lens_def Let_def v'_def flip: v1_def)
  moreover have "value_holds v' (vs @ ws)"
    using V M(4) assms(8) by (simp add: value_holds_def v'_def uadd_small)
  moreover have "bytes ?o z = ?m z" if "z < ?d \<or> ?d + 1624 \<le> z" for z
    using dist_clear(4) [of z ?d ?m] that by auto
  ultimately show thesis
    using that [of v' y ?o ys] M(2,3) ys(2,3) p dist_holds_clear [OF H(1)] by (simp add: v'_def)
qed

section \<open>Properties\<close>

text \<open>Values in a row.\<close>

fun dist_records :: "u64 \<Rightarrow> rng \<Rightarrow> optics \<Rightarrow> off \<Rightarrow> nat \<Rightarrow> double list \<Rightarrow> (rng \<times> optics) option" where
  "dist_records rdtsc x o' lens e [] = Some (x, o')"
| "dist_records rdtsc x o' lens e (v # vs) =
     Option.bind (lens_dist_record rdtsc x o' lens e v) (\<lambda>(_, y, o1). dist_records rdtsc y o1 lens e vs)"

text \<open>
  C13: Recording into a distribution always returns, whatever the generator draws, and the epoch
  then stands for the old and the new values: their number is right, the maximum is the
  largest of them and zero, and the reservoir holds only values that were recorded, all
  of them while they are at most 200.
\<close>

theorem dist_records_reservoir:
  assumes "dist_holds o' lens e us" "x \<noteq> 0" "length us + length vs < 18446744073709551616"
  shows "\<exists>y o1. dist_records rdtsc x o' lens e vs = Some (y, o1) \<and> y \<noteq> 0 \<and> dist_holds o1 lens e (us @ vs)"
  using assms
proof (induction vs arbitrary: us x o')
  case Nil
  then show ?case by simp
next
  case (Cons v vs)
  then have "length us < 18446744073709551615" by simp
  with Cons.prems(1) obtain y o1 where r: "lens_dist_record rdtsc x o' lens e v = Some (True, y, o1)" "y \<noteq> 0"
      "dist_holds o1 lens e (us @ [v])"
    using lens_dist_record_total Cons.prems(2) by metis
  show ?case using Cons.IH [OF r(3,2)] Cons.prems(3) r(1) by simp
qed

definition dist_store :: optics where
  "dist_store = set_bytes two_block_store (lens_init (\<lambda>_. 0) 704 optics_dist 3248 4 ''time'')"

lemma dist_store_holds: "dist_holds dist_store 704 0 []"
proof -
  have "lens_type (bytes dist_store) 704 = type_code optics_dist"
    by (simp add: dist_store_def lens_type_def lens_init_def Let_def lens_name_ptr_def lens_lens_len_def
        load_store_disjoint load_memcpy_disjoint sizeof_lens_def)
  moreover have "load64 (bytes dist_store) (768 + k) = 0" if "k + 8 \<le> 3248" for k
    using that by (simp add: dist_store_def lens_init_def Let_def lens_name_ptr_def lens_lens_len_def
        load_store_disjoint load_memcpy_disjoint sizeof_lens_def load_zero)
  from this [of 0] this [of 8] this [of 16]
  have "load64 (bytes dist_store) 768 = 0" "load64 (bytes dist_store) 776 = 0" "load64 (bytes dist_store) 784 = 0"
    by simp_all
  ultimately show ?thesis
    using max_of_Nil by (simp add: dist_holds_def dist_epoch_def reservoir_Nil d_zero_def)
qed

theorem dist_records_reservoir_witness:
  "\<exists>y o1. dist_records 7 1 dist_store 704 0 [0x3ff0000000000000, 0x4000000000000000] = Some (y, o1) \<and> y \<noteq> 0 \<and>
     dist_holds o1 704 0 [0x3ff0000000000000, 0x4000000000000000]"
  using dist_records_reservoir [OF dist_store_holds, of 1 "[0x3ff0000000000000, 0x4000000000000000]" 7] by simp


text \<open>A \<^verbatim>\<open>qsort\<close>: insertion.\<close>

fun insert_by :: "('a \<Rightarrow> 'a \<Rightarrow> int option) \<Rightarrow> 'a \<Rightarrow> 'a list \<Rightarrow> 'a list" where
  "insert_by cmp a [] = [a]"
| "insert_by cmp a (b # bs) = (if cmp_le cmp a b then a # b # bs else b # insert_by cmp a bs)"

definition isort :: "'a qsort" where
  "isort cmp xs = Some (foldr (insert_by cmp) xs [])"

lemma mset_insert_by [simp]: "mset (insert_by cmp a bs) = add_mset a (mset bs)"
  by (induction bs) auto

lemma set_insert_by [simp]: "set (insert_by cmp a bs) = insert a (set bs)"
  using mset_insert_by [of cmp a bs] by (metis set_mset_add_mset_insert set_mset_mset)

lemma cmp_orders_le:
  assumes "cmp_orders cmp S"
  shows "a \<in> S \<Longrightarrow> b \<in> S \<Longrightarrow> cmp_le cmp a b \<or> cmp_le cmp b a"
    and "a \<in> S \<Longrightarrow> b \<in> S \<Longrightarrow> c \<in> S \<Longrightarrow> cmp_le cmp a b \<Longrightarrow> cmp_le cmp b c \<Longrightarrow> cmp_le cmp a c"
proof -
  have d: "\<exists>i j. cmp p q = Some i \<and> cmp q p = Some j \<and> (i < 0 \<longleftrightarrow> 0 < j)" if "p \<in> S" "q \<in> S" for p q
    using assms that unfolding cmp_orders_def by blast
  have le: "cmp_le cmp p q \<longleftrightarrow> the (cmp p q) \<le> 0" if "p \<in> S" "q \<in> S" for p q
    using d [OF that] by (auto simp: cmp_le_def)
  show "cmp_le cmp a b \<or> cmp_le cmp b a" if "a \<in> S" "b \<in> S"
    using d [OF that] d [OF that(2,1)] by (auto simp: cmp_le_def)
  show "cmp_le cmp a c" if "a \<in> S" "b \<in> S" "c \<in> S" "cmp_le cmp a b" "cmp_le cmp b c"
    using that le assms unfolding cmp_orders_def by metis
qed

lemma sorted_insert_by:
  assumes "cmp_orders cmp (insert a (set bs))" "sorted_wrt (cmp_le cmp) bs"
  shows "sorted_wrt (cmp_le cmp) (insert_by cmp a bs)"
  using assms
proof (induction bs)
  case (Cons b bs)
  let ?S = "insert a (set (b # bs))"
  note L = cmp_orders_le [OF Cons.prems(1)]
  have total: "cmp_le cmp a b \<or> cmp_le cmp b a" by (rule L(1)) simp_all
  have trans: "cmp_le cmp a c" if "cmp_le cmp a b" "cmp_le cmp b c" "c \<in> set bs" for c
    by (rule L(2) [OF _ _ _ that(1,2)]) (use that(3) in simp_all)
  have "cmp_orders cmp (insert a (set bs))" using cmp_orders_subset [OF Cons.prems(1)] by auto
  then have IH: "sorted_wrt (cmp_le cmp) (insert_by cmp a bs)" using Cons.IH Cons.prems(2) by simp
  have b: "\<forall>c \<in> set bs. cmp_le cmp b c" "sorted_wrt (cmp_le cmp) bs" using Cons.prems(2) by simp_all
  show ?case
  proof (cases "cmp_le cmp a b")
    case True
    then show ?thesis using b trans by simp
  next
    case False
    then show ?thesis using b(1) IH total by simp
  qed
qed simp

lemma isort_ok: "qsort_ok (isort :: 'a qsort)"
proof -
  have "mset (foldr (insert_by cmp) xs []) = mset xs \<and> sorted_wrt (cmp_le cmp) (foldr (insert_by cmp) xs [])"
    if "cmp_orders cmp (set xs)" for cmp :: "'a \<Rightarrow> 'a \<Rightarrow> int option" and xs
    using that
  proof (induction xs)
    case (Cons x xs)
    have "cmp_orders cmp (set xs)" using cmp_orders_subset [OF Cons.prems] by auto
    then have IH: "mset (foldr (insert_by cmp) xs []) = mset xs" "sorted_wrt (cmp_le cmp) (foldr (insert_by cmp) xs [])"
      using Cons.IH by auto
    then have "set (foldr (insert_by cmp) xs []) = set xs" by (metis mset_eq_setD)
    then show ?case using IH sorted_insert_by [of cmp x "foldr (insert_by cmp) xs []"] Cons.prems by simp
  qed simp
  then show ?thesis by (simp add: qsort_ok_def isort_def)
qed

lemma cmp_one: "lens_dist_value_cmp d_one d_one = Some 0"
  by (simp add: lens_dist_value_cmp_def dsub_def dneg_def dadd_def fixed_def to_i32_def to_int_def dtrunc_def
      d_one_def double_defs)

lemma cmp_orders_one: "cmp_orders lens_dist_value_cmp {d_one}"
  by (simp add: cmp_orders_def cmp_one)


text \<open>
  The comparison that sorts the samples is not an order. It converts the difference to an
  integer, so that 0.0, 0.75 and 1.5 compare equal step by step while 0.0 is below 1.5; values
  further apart than an \<^verbatim>\<open>int\<close> can hold, or a NaN, have no comparison at all.
\<close>

theorem dist_cmp_not_an_order:
  "lens_dist_value_cmp 0 0x3fe8000000000000 = Some 0 \<and>
   lens_dist_value_cmp 0x3fe8000000000000 0x3ff8000000000000 = Some 0 \<and>
   lens_dist_value_cmp 0 0x3ff8000000000000 = Some (- 1) \<and>
   lens_dist_value_cmp 0x41f0000000000000 0 = None \<and> lens_dist_value_cmp d_nan 0 = None \<and>
   \<not> cmp_orders lens_dist_value_cmp {0, 0x3fe8000000000000, 0x3ff8000000000000}"
proof -
  note D = lens_dist_value_cmp_def dsub_def dneg_def fixed_def to_i32_def to_int_def dtrunc_def d_nan_def double_defs
  have c: "lens_dist_value_cmp 0 0x3fe8000000000000 = Some 0" "lens_dist_value_cmp 0x3fe8000000000000 0 = Some 0"
     "lens_dist_value_cmp 0x3fe8000000000000 0x3ff8000000000000 = Some 0"
     "lens_dist_value_cmp 0x3ff8000000000000 0x3fe8000000000000 = Some 0"
    by (simp_all add: D dadd_exact [where m = 6755399441055744 and j = 1021])
  have d: "lens_dist_value_cmp 0 0x3ff8000000000000 = Some (- 1)" "lens_dist_value_cmp 0x3ff8000000000000 0 = Some 1"
    by (simp_all add: D dadd_exact [where m = 6755399441055744 and j = 1022])
  have u: "lens_dist_value_cmp 0x41f0000000000000 0 = None" "lens_dist_value_cmp d_nan 0 = None"
    by (simp add: D dadd_exact [where m = 4503599627370496 and j = 1054], simp add: D dadd_def)
  have "\<not> cmp_orders lens_dist_value_cmp {0, 0x3fe8000000000000, 0x3ff8000000000000}"
  proof
    assume "cmp_orders lens_dist_value_cmp {0, 0x3fe8000000000000, 0x3ff8000000000000}"
    then have "the (lens_dist_value_cmp 0x3ff8000000000000 0x3fe8000000000000) \<le> 0 \<longrightarrow>
      the (lens_dist_value_cmp 0x3fe8000000000000 0) \<le> 0 \<longrightarrow> the (lens_dist_value_cmp 0x3ff8000000000000 0) \<le> 0"
      unfolding cmp_orders_def by blast
    then show False using c d by simp
  qed
  then show ?thesis using c d u by simp
qed

end
