(* ===== verification/Quantile.thy ===== *)
theory Quantile
  imports Poll_Value Rng
begin

text \<open>
  The quantile, \<^verbatim>\<open>src/lens_quantile.c\<close>: an estimate that moves by a fixed step, up with the
  probability of the quantile and down with the other one, and a count for each epoch.
\<close>

section \<open>Definitions\<close>

text \<open>\<^verbatim>\<open>struct lens_quantile\<close>: target, first estimate, step, number of steps, two counts.\<close>

definition sizeof_lens_quantile :: nat where
  [layout]: "sizeof_lens_quantile = 48"

definition target_quantile :: "mem \<Rightarrow> off \<Rightarrow> double" where
  "target_quantile m q = of_nat (load64 m q)"

definition original_estimate :: "mem \<Rightarrow> off \<Rightarrow> double" where
  "original_estimate m q = of_nat (load64 m (q + 8))"

definition adjustment_value :: "mem \<Rightarrow> off \<Rightarrow> double" where
  "adjustment_value m q = of_nat (load64 m (q + 16))"

definition multiplier :: "mem \<Rightarrow> off \<Rightarrow> 64 word" where
  "multiplier m q = of_nat (load64 m (q + 24))"

definition quantile_count :: "mem \<Rightarrow> off \<Rightarrow> nat \<Rightarrow> nat" where
  "quantile_count m q e = load64 m (q + 32 + 8 * e)"

definition lens_quantile_alloc :: "sys \<Rightarrow> optics \<Rightarrow> string \<Rightarrow> double \<Rightarrow> double \<Rightarrow> double \<Rightarrow> (off option \<times> optics) option" where
  "lens_quantile_alloc sys o' name tgt estimate adjustment =
     (case lens_alloc sys o' optics_quantile sizeof_lens_quantile name of
        None \<Rightarrow> None
      | Some (None, o1) \<Rightarrow> Some (None, o1)
      | Some (Some lens, o1) \<Rightarrow>
          (case lens_sub_ptr (bytes o1) lens optics_quantile of
             None \<Rightarrow> map_option (Pair None) (lens_free o1 lens)
           | Some q \<Rightarrow>
               (let m1 = store64 (bytes o1) q (unat tgt);
                    m2 = store64 m1 (q + 8) (unat estimate);
                    m3 = store64 m2 (q + 16) (unat adjustment)
                in Some (Some lens, set_bytes o1 m3))))"

definition calculate_quantile :: "mem \<Rightarrow> off \<Rightarrow> double" where
  "calculate_quantile m q =
     dadd (original_estimate m q) (dmul (of_i64 (sint (multiplier m q))) (adjustment_value m q))"

text \<open>\<open>None\<close>: the generator cannot draw with the target, or its seed is refused.\<close>

definition lens_quantile_update :: "u64 \<Rightarrow> rng \<Rightarrow> optics \<Rightarrow> off \<Rightarrow> nat \<Rightarrow> double \<Rightarrow> (bool \<times> rng \<times> optics) option" where
  "lens_quantile_update rdtsc x o' lens e v =
     (case lens_sub_ptr (bytes o') lens optics_quantile of
        None \<Rightarrow> Some (False, x, o')
      | Some q \<Rightarrow>
          (let m = bytes o'; current_estimate = calculate_quantile m q in
           case global_prob rdtsc x (target_quantile m q) of
             None \<Rightarrow> None
           | Some (probability_check, y) \<Rightarrow>
               (let m1 =
                      (if dlt v current_estimate then
                         (if \<not> probability_check then store64 m (q + 24) (unat (multiplier m q - 1)) else m)
                       else
                         (if probability_check then store64 m (q + 24) (unat (multiplier m q + 1)) else m));
                    m2 = store64 m1 (q + 32 + 8 * e) (uadd (quantile_count m1 q e) 1)
                in Some (True, y, set_bytes o' m2))))"

definition lens_quantile_read ::
  "u64 \<Rightarrow> rng \<Rightarrow> optics \<Rightarrow> off \<Rightarrow> nat \<Rightarrow> optics_quantile \<Rightarrow> (optics_ret \<times> optics_quantile \<times> rng \<times> optics) option" where
  "lens_quantile_read rdtsc x o' lens e v =
     (case lens_sub_ptr (bytes o') lens optics_quantile of
        None \<Rightarrow> Some (optics_err, v, x, o')
      | Some q \<Rightarrow>
          (let m = bytes o';
               s = calculate_quantile m q;
               n = quantile_count m q e;
               o1 = set_bytes o' (store64 m (q + 32 + 8 * e) 0);
               tgt = target_quantile m q
           in if deq (quantile v) d_zero then
                Some (optics_ok, \<lparr>quantile = tgt, sample = s, sample_count = n, qcount = n\<rparr>, x, o1)
              else if \<not> deq (quantile v) tgt then Some (optics_err, v, x, o1)
              else
                (let delta = of_u64 (if n > sample_count v then n - sample_count v else sample_count v - n) in
                 Option.bind (global_prob rdtsc x (ddiv delta (of_u64 (uadd n (sample_count v))))) (\<lambda>(larger, y).
                   Option.bind
                     (if larger then Some (n \<ge> sample_count v, y)
                      else if dlt (sample v) s then global_prob rdtsc y tgt
                      else global_prob rdtsc y (dsub d_one tgt)) (\<lambda>(pick, z).
                     (let v1 = (if pick then v\<lparr>sample := s, sample_count := n\<rparr> else v) in
                      Some (optics_ok, v1\<lparr>qcount := uadd (qcount v) n\<rparr>, z, o1)))))))"

definition lens_quantile_normalize :: "optics_poll \<Rightarrow> optics_quantile \<Rightarrow> 'c normalize_cb \<Rightarrow> 'c \<Rightarrow> bool \<times> 'c" where
  "lens_quantile_normalize poll v cb ctx = cb ctx (pts poll) (pkey poll) (sample v)"

section \<open>Drawing with a probability\<close>

text \<open>Neither 1.0 nor NaN can be drawn with: the thresholds are two to the 64, and not a number.\<close>

lemma not_drawable: "\<not> drawable d_one" "\<not> drawable d_nan"
proof -
  have "dmul d_one 0x43f0000000000000 = 0x43f0000000000000"
    by (simp add: dmul_def d_one_def double_defs Let_def)
  then show "\<not> drawable d_one"
    unfolding drawable_def of_u64_rng_max by (simp add: to_u64_def to_int_def dtrunc_def double_defs)
  show "\<not> drawable d_nan"
    by (simp add: drawable_def dmul_def d_nan_def is_nan_def magnitude_def inf_magnitude_def to_u64_def to_int_def)
qed

lemma ratio_not_drawable:
  assumes "n < 18446744073709551616"
  shows "\<not> drawable (ddiv (of_u64 n) (of_u64 n))"
proof (cases "n = 0")
  case True
  have "ddiv (of_u64 0) (of_u64 0) = d_nan"
    using of_u64_finite [of 0] by (simp add: ddiv_def)
  then show ?thesis using True not_drawable(2) by simp
next
  case False
  then show ?thesis using ddiv_same [of "of_u64 n"] of_u64_finite [OF assms] not_drawable(1) by simp
qed

section \<open>Properties\<close>

definition is_quantile :: "optics \<Rightarrow> off \<Rightarrow> bool" where
  "is_quantile o' lens \<longleftrightarrow> lens_type (bytes o') lens = type_code optics_quantile"

lemma quantile_stores:
  fixes m :: mem and q e n :: nat and w :: "64 word" and b :: bool
  assumes "n < 18446744073709551616"
  defines "m1 \<equiv> (if b then store64 m (q + 24) (unat w) else m)"
  defines "m2 \<equiv> store64 m1 (q + 32 + 8 * e) n"
  shows "quantile_count m1 q e = quantile_count m q e" "multiplier m2 q = (if b then w else multiplier m q)"
    "target_quantile m2 q = target_quantile m q" "original_estimate m2 q = original_estimate m q"
    "adjustment_value m2 q = adjustment_value m q" "quantile_count m2 q e = n"
    "d \<noteq> e \<Longrightarrow> quantile_count m2 q d = quantile_count m q d"
proof -
  have w: "unat w < 18446744073709551616" using unsigned_less [of w, where ?'a = nat] by simp
  show "quantile_count m1 q e = quantile_count m q e" "multiplier m2 q = (if b then w else multiplier m q)"
    "target_quantile m2 q = target_quantile m q" "original_estimate m2 q = original_estimate m q"
    "adjustment_value m2 q = adjustment_value m q" "quantile_count m2 q e = n"
    using assms(1) w
    by (simp_all add: m1_def m2_def quantile_count_def multiplier_def target_quantile_def original_estimate_def
        adjustment_value_def load_store_disjoint)
  show "quantile_count m2 q d = quantile_count m q d" if "d \<noteq> e"
  proof -
    have "q + 32 + 8 * d + 8 \<le> q + 32 + 8 * e \<or> q + 32 + 8 * e + 8 \<le> q + 32 + 8 * d" using that by auto
    then show ?thesis by (simp add: m1_def m2_def quantile_count_def load_store_disjoint)
  qed
qed

text \<open>
  C15: An update of a quantile counts one value in its epoch and moves the estimate by at most
  one step, down only for a value below the estimate and up only for one that is not; the
  target, the step and the other epoch stay. It returns whenever the target is a probability
  that the generator can draw with.
\<close>

theorem quantile_update_moves:
  assumes "is_quantile o' lens" "drawable (target_quantile (bytes o') (lens + 64))" "x \<noteq> 0"
  defines "q \<equiv> lens + 64" and "m \<equiv> bytes o'"
  shows "\<exists>y o1. lens_quantile_update rdtsc x o' lens e v = Some (True, y, o1) \<and> y \<noteq> 0 \<and>
    (multiplier (bytes o1) q = multiplier m q \<or>
     multiplier (bytes o1) q = (if dlt v (calculate_quantile m q) then multiplier m q - 1 else multiplier m q + 1)) \<and>
    target_quantile (bytes o1) q = target_quantile m q \<and> original_estimate (bytes o1) q = original_estimate m q \<and>
    adjustment_value (bytes o1) q = adjustment_value m q \<and>
    quantile_count (bytes o1) q e = uadd (quantile_count m q e) 1 \<and>
    (\<forall>d. d \<noteq> e \<longrightarrow> quantile_count (bytes o1) q d = quantile_count m q d)"
proof -
  obtain b y where b: "global_prob rdtsc x (target_quantile m q) = Some (b, y)" "y \<noteq> 0"
    using global_prob_total [OF assms(2,3)] by (auto simp: q_def m_def)
  let ?down = "dlt v (calculate_quantile m q)"
  let ?w = "if ?down then multiplier m q - 1 else multiplier m q + 1"
  have sz: "uadd (quantile_count m q e) 1 < 18446744073709551616" by simp
  note S = quantile_stores [OF sz, where m = m and q = q and b = "?down \<noteq> b" and w = ?w]
  let ?m1 = "if ?down \<noteq> b then store64 m (q + 24) (unat ?w) else m"
  let ?m2 = "store64 ?m1 (q + 32 + 8 * e) (uadd (quantile_count m q e) 1)"
  have "lens_quantile_update rdtsc x o' lens e v = Some (True, y, set_bytes o' ?m2)"
    using assms(1) b(1) S(1)
    by (cases b) (auto simp: lens_quantile_update_def is_quantile_def lens_sub_ptr_def sizeof_lens_def Let_def q_def m_def)
  then show ?thesis using b(2) S by auto
qed

text \<open>A median with the first estimate 1.0 and steps of 1.0, which has counted one value.\<close>

definition quantile_store :: optics where
  "quantile_store = set_bytes two_block_store
     (store64 (store64 (store64 (store64 (lens_init (\<lambda>_. 0) 704 optics_quantile 48 4 ''p50'') 768 0x3fe0000000000000)
       776 0x3ff0000000000000) 784 0x3ff0000000000000) 800 1)"

lemma quantile_store_fields: "is_quantile quantile_store 704"
    "target_quantile (bytes quantile_store) 768 = 0x3fe0000000000000" "quantile_count (bytes quantile_store) 768 0 = 1"
  by (simp_all add: quantile_store_def is_quantile_def target_quantile_def quantile_count_def lens_type_def lens_init_def
      Let_def lens_name_ptr_def lens_lens_len_def load_store_disjoint load_memcpy_disjoint sizeof_lens_def)

lemma drawable_half: "drawable 0x3fe0000000000000"
proof -
  have "dmul 0x3fe0000000000000 0x43f0000000000000 = 0x43e0000000000000"
    by (simp add: dmul_def double_defs Let_def)
  then show ?thesis
    unfolding drawable_def of_u64_rng_max by (simp add: to_u64_def to_int_def dtrunc_def double_defs)
qed

theorem quantile_update_moves_witness:
  "\<exists>y o1. lens_quantile_update 7 1 quantile_store 704 0 0 = Some (True, y, o1) \<and>
     quantile_count (bytes o1) 768 0 = 2"
  using quantile_update_moves [OF quantile_store_fields(1), of 1 7 0 0] quantile_store_fields drawable_half
  by (auto simp: uadd_def)

text \<open>
  C31: Reading a quantile takes the count of the epoch, on every path, errors included. An empty
  result gets the estimate and the count. A result with another target is an error. A result
  with the same target keeps its sample or takes the estimate, each with the count it stands
  for, and the counts add up; this returns if the probabilities can be drawn with.
\<close>

theorem quantile_read_merges:
  fixes e :: nat
  assumes "is_quantile o' lens" "x \<noteq> 0"
  defines "q \<equiv> lens + 64" and "m \<equiv> bytes o'"
  defines "n \<equiv> quantile_count m q e" and "s \<equiv> calculate_quantile m q" and "tgt \<equiv> target_quantile m q"
  defines "o1 \<equiv> set_bytes o' (store64 m (q + 32 + 8 * e) 0)"
  shows "if deq (quantile v) d_zero then
      lens_quantile_read rdtsc x o' lens e v =
        Some (optics_ok, \<lparr>quantile = tgt, sample = s, sample_count = n, qcount = n\<rparr>, x, o1)
    else if \<not> deq (quantile v) tgt then lens_quantile_read rdtsc x o' lens e v = Some (optics_err, v, x, o1)
    else
      drawable tgt \<and> drawable (dsub d_one tgt) \<and>
      drawable (ddiv (of_u64 (if n > sample_count v then n - sample_count v else sample_count v - n))
        (of_u64 (uadd n (sample_count v)))) \<longrightarrow>
      (\<exists>v' y. lens_quantile_read rdtsc x o' lens e v = Some (optics_ok, v', y, o1) \<and> y \<noteq> 0 \<and>
        quantile v' = quantile v \<and> qcount v' = uadd (qcount v) n \<and>
        ((sample v', sample_count v') = (s, n) \<or> (sample v', sample_count v') = (sample v, sample_count v)))"
proof -
  let ?delta = "of_u64 (if n > sample_count v then n - sample_count v else sample_count v - n)"
  let ?ratio = "ddiv ?delta (of_u64 (uadd n (sample_count v)))"
  have eq: "lens_quantile_read rdtsc x o' lens e v =
      (if deq (quantile v) d_zero then
         Some (optics_ok, \<lparr>quantile = tgt, sample = s, sample_count = n, qcount = n\<rparr>, x, o1)
       else if \<not> deq (quantile v) tgt then Some (optics_err, v, x, o1)
       else Option.bind (global_prob rdtsc x ?ratio) (\<lambda>(larger, y).
         Option.bind
           (if larger then Some (n \<ge> sample_count v, y)
            else if dlt (sample v) s then global_prob rdtsc y tgt
            else global_prob rdtsc y (dsub d_one tgt)) (\<lambda>(pick, z).
           (let v1 = (if pick then v\<lparr>sample := s, sample_count := n\<rparr> else v) in
            Some (optics_ok, v1\<lparr>qcount := uadd (qcount v) n\<rparr>, z, o1)))))"
    using assms(1) unfolding n_def s_def tgt_def o1_def q_def m_def
    by (simp add: lens_quantile_read_def is_quantile_def lens_sub_ptr_def sizeof_lens_def Let_def)
  have "\<exists>v' y. lens_quantile_read rdtsc x o' lens e v = Some (optics_ok, v', y, o1) \<and> y \<noteq> 0 \<and>
        quantile v' = quantile v \<and> qcount v' = uadd (qcount v) n \<and>
        ((sample v', sample_count v') = (s, n) \<or> (sample v', sample_count v') = (sample v, sample_count v))"
    if d: "\<not> deq (quantile v) d_zero" "deq (quantile v) tgt" "drawable tgt" "drawable (dsub d_one tgt)" "drawable ?ratio"
  proof -
    obtain larger y where l: "global_prob rdtsc x ?ratio = Some (larger, y)" "y \<noteq> 0"
      using global_prob_total [OF d(5) assms(2)] by blast
    obtain b1 z1 where b1: "global_prob rdtsc y tgt = Some (b1, z1)" "z1 \<noteq> 0"
      using global_prob_total [OF d(3) l(2)] by blast
    obtain b2 z2 where b2: "global_prob rdtsc y (dsub d_one tgt) = Some (b2, z2)" "z2 \<noteq> 0"
      using global_prob_total [OF d(4) l(2)] by blast
    show ?thesis using d(1,2) l b1 b2 unfolding eq by (simp add: Let_def)
  qed
  then show ?thesis unfolding eq by auto
qed

lemma half_ratio: "ddiv (of_u64 2) (of_u64 4) = 0x3fe0000000000000"
  by (simp add: ddiv_def of_u64_def double_defs Let_def)

lemma one_minus_half: "dsub d_one 0x3fe0000000000000 = 0x3fe0000000000000"
  by (simp add: dsub_def dneg_def d_one_def fixed_def double_defs dadd_exact [where m = 4503599627370496 and j = 1021])

theorem quantile_read_merges_witness:
  "\<exists>v' y o1. lens_quantile_read 7 1 quantile_store 704 0
       \<lparr>quantile = 0x3fe0000000000000, sample = d_one, sample_count = 3, qcount = 5\<rparr> = Some (optics_ok, v', y, o1) \<and>
     qcount v' = 6"
proof -
  let ?v = "\<lparr>quantile = 0x3fe0000000000000, sample = d_one, sample_count = 3, qcount = 5\<rparr>"
  have "\<not> deq 0x3fe0000000000000 d_zero" "deq 0x3fe0000000000000 0x3fe0000000000000"
    by (simp_all add: deq_def d_zero_def dkey_def double_defs)
  then show ?thesis
    using quantile_read_merges [OF quantile_store_fields(1), where x = 1 and e = 0 and v = ?v and rdtsc = 7] quantile_store_fields
      drawable_half half_ratio one_minus_half by (auto simp: uadd_def)
qed

text \<open>
  A merge with nothing to merge is undefined. When the result or the lens has counted no value,
  the difference of the counts is their sum, and the generator is asked to draw with 1.0, or
  with 0.0 divided by 0.0 if both counted none: the threshold does not fit the integer type
  that it is converted to.
\<close>

theorem quantile_read_undefined:
  assumes "is_quantile o' lens" "x \<noteq> 0" "sample_count v < 18446744073709551616"
    and "\<not> deq (quantile v) d_zero" "deq (quantile v) (target_quantile (bytes o') (lens + 64))"
    and "quantile_count (bytes o') (lens + 64) e = 0 \<or> sample_count v = 0"
  shows "lens_quantile_read rdtsc x o' lens e v = None"
proof -
  let ?n = "quantile_count (bytes o') (lens + 64) e"
  have n: "?n < 18446744073709551616" by (simp add: quantile_count_def)
  have "\<not> drawable (ddiv (of_u64 (if ?n > sample_count v then ?n - sample_count v else sample_count v - ?n))
      (of_u64 (uadd ?n (sample_count v))))"
    using assms(6) ratio_not_drawable [OF assms(3)] ratio_not_drawable [OF n] assms(3) n by (auto simp: uadd_def)
  from global_prob_undefined [OF this assms(2), of rdtsc] show ?thesis
    using assms(1,4,5) by (simp add: lens_quantile_read_def is_quantile_def lens_sub_ptr_def sizeof_lens_def Let_def)
qed

theorem quantile_read_undefined_witness:
  "lens_quantile_read 7 1 quantile_store 704 0
     \<lparr>quantile = 0x3fe0000000000000, sample = d_one, sample_count = 0, qcount = 0\<rparr> = None"
  by (rule quantile_read_undefined [OF quantile_store_fields(1)])
    (simp_all add: quantile_store_fields deq_def d_zero_def dkey_def double_defs)

end
