(* ===== verification/Api.thy ===== *)
theory Api
  imports Optics Counter Histo Dist Quantile
begin

text \<open>
  The public operations on lenses, \<^verbatim>\<open>src/optics.c\<close>: each type of lens has an operation that
  makes a new lens or refuses a name that is taken, one that makes a lens or returns the one
  that has the name, and its record and read operations. The lens types share one contract,
  the locale \<open>lens_maker\<close>, from which all ten operations that make a lens are correct.
\<close>

section \<open>Definitions\<close>

text \<open>The two ways to register the lens \<open>made\<close> that an allocation returned.\<close>

definition lens_register :: "(off option \<times> optics) option \<Rightarrow> (off option \<times> optics) option" where
  "lens_register made =
     Option.bind made (\<lambda>(lens, o1).
       case lens of
         None \<Rightarrow> Some (None, o1)
       | Some l \<Rightarrow>
           Option.bind (optics_lens_alloc o1 l) (\<lambda>(ol, o2).
             case ol of
               Some l' \<Rightarrow> Some (Some l', o2)
             | None \<Rightarrow> map_option (Pair None) (lens_free o2 l)))"

text \<open>The lens of the returned structure can be null, the inner option.\<close>

definition lens_register_get :: "(off option \<times> optics) option \<Rightarrow> (off option option \<times> optics) option" where
  "lens_register_get made =
     Option.bind made (\<lambda>(lens, o1).
       case lens of
         None \<Rightarrow> Some (None, o1)
       | Some l \<Rightarrow>
           Option.bind (optics_lens_alloc_get o1 l) (\<lambda>(ol, o2).
             if ol \<noteq> Some l then map_option (Pair (Some ol)) (lens_free o2 l) else Some (Some ol, o2)))"

definition optics_counter_alloc :: "sys \<Rightarrow> optics \<Rightarrow> string \<Rightarrow> (off option \<times> optics) option" where
  "optics_counter_alloc sys o' name = lens_register (lens_counter_alloc sys o' name)"

definition optics_counter_alloc_get :: "sys \<Rightarrow> optics \<Rightarrow> string \<Rightarrow> (off option option \<times> optics) option" where
  "optics_counter_alloc_get sys o' name = lens_register_get (lens_counter_alloc sys o' name)"

definition optics_counter_inc :: "optics \<Rightarrow> off \<Rightarrow> 64 word \<Rightarrow> bool \<times> optics" where
  "optics_counter_inc o' lens v = lens_counter_inc o' lens (optics_epoch o') v"

definition optics_counter_read :: "optics \<Rightarrow> off \<Rightarrow> nat \<Rightarrow> 64 word \<Rightarrow> optics_ret \<times> 64 word \<times> optics" where
  "optics_counter_read o' lens e v = lens_counter_read o' lens e v"

definition optics_quantile_alloc :: "sys \<Rightarrow> optics \<Rightarrow> string \<Rightarrow> double \<Rightarrow> double \<Rightarrow> double \<Rightarrow> (off option \<times> optics) option" where
  "optics_quantile_alloc sys o' name tgt estimate adjustment =
     lens_register (lens_quantile_alloc sys o' name tgt estimate adjustment)"

definition optics_quantile_alloc_get ::
  "sys \<Rightarrow> optics \<Rightarrow> string \<Rightarrow> double \<Rightarrow> double \<Rightarrow> double \<Rightarrow> (off option option \<times> optics) option" where
  "optics_quantile_alloc_get sys o' name tgt estimate adjustment =
     lens_register_get (lens_quantile_alloc sys o' name tgt estimate adjustment)"

definition optics_quantile_update :: "u64 \<Rightarrow> rng \<Rightarrow> optics \<Rightarrow> off \<Rightarrow> double \<Rightarrow> (bool \<times> rng \<times> optics) option" where
  "optics_quantile_update rdtsc x o' lens v = lens_quantile_update rdtsc x o' lens (optics_epoch o') v"

definition optics_quantile_read ::
  "u64 \<Rightarrow> rng \<Rightarrow> optics \<Rightarrow> off \<Rightarrow> nat \<Rightarrow> optics_quantile \<Rightarrow> (optics_ret \<times> optics_quantile \<times> rng \<times> optics) option" where
  "optics_quantile_read rdtsc x o' lens e v = lens_quantile_read rdtsc x o' lens e v"

definition optics_gauge_alloc :: "sys \<Rightarrow> optics \<Rightarrow> string \<Rightarrow> (off option \<times> optics) option" where
  "optics_gauge_alloc sys o' name = lens_register (lens_gauge_alloc sys o' name)"

definition optics_gauge_alloc_get :: "sys \<Rightarrow> optics \<Rightarrow> string \<Rightarrow> (off option option \<times> optics) option" where
  "optics_gauge_alloc_get sys o' name = lens_register_get (lens_gauge_alloc sys o' name)"

definition optics_gauge_set :: "optics \<Rightarrow> off \<Rightarrow> double \<Rightarrow> bool \<times> optics" where
  "optics_gauge_set o' lens v = lens_gauge_set o' lens (optics_epoch o') v"

definition optics_gauge_read :: "optics \<Rightarrow> off \<Rightarrow> nat \<Rightarrow> double \<Rightarrow> optics_ret \<times> double" where
  "optics_gauge_read o' lens e v = lens_gauge_read o' lens e v"

definition optics_dist_alloc :: "sys \<Rightarrow> optics \<Rightarrow> string \<Rightarrow> (off option \<times> optics) option" where
  "optics_dist_alloc sys o' name = lens_register (lens_dist_alloc sys o' name)"

definition optics_dist_alloc_get :: "sys \<Rightarrow> optics \<Rightarrow> string \<Rightarrow> (off option option \<times> optics) option" where
  "optics_dist_alloc_get sys o' name = lens_register_get (lens_dist_alloc sys o' name)"

definition optics_dist_record :: "u64 \<Rightarrow> rng \<Rightarrow> optics \<Rightarrow> off \<Rightarrow> double \<Rightarrow> (bool \<times> rng \<times> optics) option" where
  "optics_dist_record rdtsc x o' lens v = lens_dist_record rdtsc x o' lens (optics_epoch o') v"

definition optics_dist_read ::
  "double qsort \<Rightarrow> double list \<Rightarrow> u64 \<Rightarrow> rng \<Rightarrow> optics \<Rightarrow> off \<Rightarrow> nat \<Rightarrow> optics_dist \<Rightarrow>
     (optics_ret \<times> optics_dist \<times> rng \<times> optics) option" where
  "optics_dist_read qsort stack rdtsc x o' lens e v = lens_dist_read qsort stack rdtsc x o' lens e v"

definition optics_histo_alloc :: "sys \<Rightarrow> optics \<Rightarrow> string \<Rightarrow> nat list \<Rightarrow> (off option \<times> optics) option" where
  "optics_histo_alloc sys o' name bs = lens_register (lens_histo_alloc sys o' name bs)"

definition optics_histo_alloc_get :: "sys \<Rightarrow> optics \<Rightarrow> string \<Rightarrow> nat list \<Rightarrow> (off option option \<times> optics) option" where
  "optics_histo_alloc_get sys o' name bs = lens_register_get (lens_histo_alloc sys o' name bs)"

definition optics_histo_inc :: "optics \<Rightarrow> off \<Rightarrow> double \<Rightarrow> (bool \<times> optics) option" where
  "optics_histo_inc o' lens v = lens_histo_inc o' lens (optics_epoch o') v"

definition optics_histo_read :: "optics \<Rightarrow> off \<Rightarrow> nat \<Rightarrow> optics_histo \<Rightarrow> optics_ret \<times> optics_histo \<times> optics" where
  "optics_histo_read o' lens e v = lens_histo_read o' lens e v"

definition optics_poll_normalize :: "optics_poll \<Rightarrow> 'c normalize_cb \<Rightarrow> 'c \<Rightarrow> (bool \<times> 'c) option" where
  "optics_poll_normalize poll cb ctx =
     (case pvalue poll of
        Counter_value v \<Rightarrow> Some (lens_counter_normalize poll v cb ctx)
      | Gauge_value v \<Rightarrow> Some (lens_gauge_normalize poll v cb ctx)
      | Dist_value v \<Rightarrow> lens_dist_normalize poll v cb ctx
      | Histo_value v \<Rightarrow> lens_histo_normalize poll v cb ctx
      | Quantile_value v \<Rightarrow> Some (lens_quantile_normalize poll v cb ctx)
      | Unknown_value _ \<Rightarrow> Some (False, ctx))"

section \<open>Changing the heap under the lenses\<close>

lemma optics_rel_heap:
  assumes "optics_rel o' xs D X" "heap_inv h (set (dblocks (D 0 @ D 1)) \<union> (lens_block (bytes o') ` set xs \<union> X'))"
    and "\<forall>b \<in> set (dblocks (D 0 @ D 1)) \<union> lens_block (bytes o') ` set xs. \<forall>y \<in> block_bytes b. hm h y = bytes o' y"
    and "X' \<inter> (set (dblocks (D 0 @ D 1)) \<union> lens_block (bytes o') ` set xs) = {}"
  shows "optics_rel (o'\<lparr>oheap := h\<rparr>) xs D X'" "same_lenses (set xs) o' (o'\<lparr>oheap := h\<rparr>)"
proof -
  have R: "olock o' = 0" "keys_rel o' (set xs)" "core_rel o' xs D X"
    using assms(1) by (simp_all add: optics_rel_def)
  note S = store_relD [OF core_relD(5) [OF R(3)]]
  have "dchain (hm h) (epoch_defers (header o') ! e) (D e)" if "e < 2" for e
  proof (rule dchain_frame [OF S(2) [OF that]])
    fix n y assume n: "node_block n \<in> set (dblocks (D e))" "n \<le> y" "y < n + 32"
    then have "node_block n \<in> set (dblocks (D 0 @ D 1))" using that by (auto simp: less_2_cases_iff)
    moreover have "y \<in> block_bytes (node_block n)" using n(2,3) by (simp add: node_bytes)
    ultimately show "hm h y = bytes o' y" using assms(3) by blast
  qed
  then have st: "store_rel (o'\<lparr>oheap := h\<rparr>) D (lens_block (bytes o') ` set xs \<union> X')"
    using S(1,3,4) assms(2,4) by (auto simp: store_rel_def)
  have kept: "\<forall>x \<in> set xs. \<forall>y \<in> block_bytes (lens_block (bytes o') x). bytes (o'\<lparr>oheap := h\<rparr>) y = bytes o' y"
    using assms(3) by auto
  have head: "lens_head (header (o'\<lparr>oheap := h\<rparr>)) = lens_head (header o')" by simp
  have dj: "lens_block (bytes o') ` set xs \<inter> X' = {}" using assms(4) by blast
  note K = core_rel_keep [OF R(3) kept head st dj]
  show "same_lenses (set xs) o' (o'\<lparr>oheap := h\<rparr>)" by (rule K(2))
  then have "keys_rel (o'\<lparr>oheap := h\<rparr>) (set xs)" by (rule keys_rel_same [OF R(2)]) simp
  then show "optics_rel (o'\<lparr>oheap := h\<rparr>) xs D X'" using K(1) R(1) by (simp add: optics_rel_def)
qed

section \<open>What the lens types promise\<close>

text \<open>
  An allocation returns no lens, and leaves the blocks as they were, only if its arguments
  are not \<open>valid\<close>, the name has 255 characters or the region cannot give a page run; or it
  returns a lens of its type in a new block.
\<close>

definition made_none :: "bool \<Rightarrow> optics \<Rightarrow> string \<Rightarrow> (off \<times> nat) set \<Rightarrow> heap \<Rightarrow> bool" where
  "made_none valid o' name L h \<longleftrightarrow> heap_inv h L \<and> hm h = bytes o' \<and>
     (\<not> valid \<or> length name = 255 \<or> vma_len (rg (oheap o')) < pos (rg (oheap o')) + 65536)"

definition made_lens :: "optics_lens_type \<Rightarrow> optics \<Rightarrow> string \<Rightarrow> (off \<times> nat) set \<Rightarrow> off \<Rightarrow> heap \<Rightarrow> bool" where
  "made_lens kind o' name L x h \<longleftrightarrow> heap_inv h (insert (lens_block (hm h) x) L) \<and> lens_block (hm h) x \<notin> L \<and>
     lens_ok (hm h) x \<and> lens_name (hm h) x = take 256 name \<and> lens_type (hm h) x = type_code kind \<and>
     lens_prev (hm h) x = 0 \<and> (\<forall>b \<in> L. \<forall>y \<in> block_bytes b. hm h y = bytes o' y)"

text \<open>The table of the store can take the name.\<close>

definition can_put :: "optics \<Rightarrow> string \<Rightarrow> bool" where
  "can_put o' name \<longleftrightarrow> (\<forall>x. htable_put (okeys o') (take 256 name) x \<noteq> None)"

text \<open>
  What the two operations that register a lens return (\<open>r\<close> and \<open>g\<close>) and leave behind. A refusal
  has a reason, and the lenses are as they were; a name that is taken is a refusal of one
  and the lens of that name for the other; otherwise the new lens, with its name and type,
  is in front of the others.
\<close>

definition registered :: "optics_lens_type \<Rightarrow> bool \<Rightarrow> optics \<Rightarrow> off list \<Rightarrow> (nat \<Rightarrow> deferred list) \<Rightarrow> (off \<times> nat) set \<Rightarrow>
    string \<Rightarrow> off option \<Rightarrow> off option option \<Rightarrow> optics \<Rightarrow> bool" where
  "registered kind valid o' xs D X name r g o1 \<longleftrightarrow>
     (r = None \<and> g = None \<and> optics_rel o1 xs D X \<and>
        (\<not> valid \<or> length name = 255 \<or> vma_len (rg (oheap o')) < pos (rg (oheap o')) + 65536)) \<or>
     (\<exists>z \<in> set xs. r = None \<and> g = Some (Some z) \<and> lens_name (bytes o') z = take 256 name \<and> optics_rel o1 xs D X) \<or>
     (\<exists>x. r = Some x \<and> g = Some (Some x) \<and> optics_rel o1 (x # xs) D X \<and>
        take 256 name \<notin> lens_name (bytes o') ` set xs \<and>
        lens_name (bytes o1) x = take 256 name \<and> lens_type (bytes o1) x = type_code kind)"

locale lens_maker =
  fixes make :: "sys \<Rightarrow> optics \<Rightarrow> string \<Rightarrow> (off option \<times> optics) option"
    and kind :: optics_lens_type and valid :: bool
  assumes make: "heap_inv (oheap o') L \<Longrightarrow> sys_amd64 sys \<Longrightarrow> cstring name \<Longrightarrow>
      (\<exists>h. make sys o' name = Some (None, o'\<lparr>oheap := h\<rparr>) \<and> made_none valid o' name L h) \<or>
      (\<exists>x h. make sys o' name = Some (Some x, o'\<lparr>oheap := h\<rparr>) \<and> made_lens kind o' name L x h)"
begin

lemma make_rel:
  assumes "optics_rel o' xs D X" "sys_amd64 sys" "cstring name" "can_put o' name"
  obtains
    (none) o1 where "make sys o' name = Some (None, o1)" "optics_rel o1 xs D X" "same_lenses (set xs) o' o1"
      "\<not> valid \<or> length name = 255 \<or> vma_len (rg (oheap o')) < pos (rg (oheap o')) + 65536"
  | (some) x b o1 r ht where "make sys o' name = Some (Some x, o1)" "optics_rel o1 xs D (insert b X)"
      "new_lens o1 (insert b X) x" "b = lens_block (bytes o1) x" "b \<notin> X"
      "same_lenses (set xs) o' o1" "lens_name (bytes o1) x = take 256 name" "lens_type (bytes o1) x = type_code kind"
      "htable_put (okeys o1) (lens_name (bytes o1) x) (of_nat x) = Some (r, ht)"
proof -
  have core: "core_rel o' xs D X" using assms(1) by (simp add: optics_rel_def)
  let ?L = "set (dblocks (D 0 @ D 1)) \<union> (lens_block (bytes o') ` set xs \<union> X)"
  note S = store_relD [OF core_relD(5) [OF core]]
  from make [OF S(5) assms(2,3)] show thesis
  proof (elim disjE exE conjE)
    fix h assume m: "make sys o' name = Some (None, o'\<lparr>oheap := h\<rparr>)" "made_none valid o' name ?L h"
    then have h: "heap_inv h ?L" "hm h = bytes o'" by (simp_all add: made_none_def)
    have "X \<inter> (set (dblocks (D 0 @ D 1)) \<union> lens_block (bytes o') ` set xs) = {}"
      using S(4) core_relD(4) [OF core] by blast
    note O = optics_rel_heap [OF assms(1) h(1) _ this]
    show thesis using none [OF m(1)] O h(2) m(2) by (simp add: made_none_def)
  next
    fix x h assume m: "make sys o' name = Some (Some x, o'\<lparr>oheap := h\<rparr>)" "made_lens kind o' name ?L x h"
    let ?b = "lens_block (hm h) x" and ?o = "o'\<lparr>oheap := h\<rparr>"
    have h: "heap_inv h (insert ?b ?L)" "?b \<notin> ?L" "lens_ok (hm h) x" "lens_name (hm h) x = take 256 name"
        "lens_type (hm h) x = type_code kind" "lens_prev (hm h) x = 0"
        "\<forall>b \<in> ?L. \<forall>y \<in> block_bytes b. hm h y = bytes o' y"
      using m(2) by (simp_all add: made_lens_def)
    have L: "insert ?b ?L = set (dblocks (D 0 @ D 1)) \<union> (lens_block (bytes o') ` set xs \<union> insert ?b X)" by blast
    have dj: "insert ?b X \<inter> (set (dblocks (D 0 @ D 1)) \<union> lens_block (bytes o') ` set xs) = {}"
      using S(4) core_relD(4) [OF core] h(2) by blast
    have kept: "\<forall>b \<in> set (dblocks (D 0 @ D 1)) \<union> lens_block (bytes o') ` set xs. \<forall>y \<in> block_bytes b. hm h y = bytes o' y"
      using h(7) by blast
    note O = optics_rel_heap [OF assms(1) h(1) [unfolded L] kept dj]
    have new: "new_lens ?o (insert ?b X) x" using h by (simp add: new_lens_def)
    have "htable_put (okeys o') (take 256 name) (of_nat x) \<noteq> None"
      using assms(4) unfolding can_put_def by blast
    then obtain r ht where "htable_put (okeys o') (take 256 name) (of_nat x) = Some (r, ht)" by auto
    then have put: "htable_put (okeys ?o) (lens_name (bytes ?o) x) (of_nat x) = Some (r, ht)" using h(4) by simp
    show thesis
      by (rule some [OF m(1) O(1) new _ _ O(2) _ _ put]) (use h(2,4,5) in simp_all)
  qed
qed

text \<open>Giving the block of a lens back that is in no list.\<close>

lemma unmake_rel:
  assumes "optics_rel o1 xs D (insert b X)" "lens_ok (bytes o1) x" "b = lens_block (bytes o1) x" "b \<notin> X"
  obtains o2 where "lens_free o1 x = Some o2" "optics_rel o2 xs D X" "same_lenses (set xs) o1 o2"
proof -
  have core: "core_rel o1 xs D (insert b X)" using assms(1) by (simp add: optics_rel_def)
  note S = store_relD [OF core_relD(5) [OF core]]
  have l: "lens_off (bytes o1) x = x" "lens_total_len (bytes o1) x \<le> 4096" using assms(2) by (simp_all add: lens_ok_def)
  let ?L = "set (dblocks (D 0 @ D 1)) \<union> (lens_block (bytes o1) ` set xs \<union> insert b X)"
  have b: "b = (x, class_of (lens_total_len (bytes o1) x))" using assms(3) by (simp add: lens_block_def)
  have "(x, class_of (lens_total_len (bytes o1) x)) \<in> ?L" using b by blast
  from S(5) this l(2) show thesis
  proof (cases rule: optics_free_total)
    case (1 h)
    have out: "b \<notin> set (dblocks (D 0 @ D 1)) \<union> lens_block (bytes o1) ` set xs" using S(4) core_relD(4) [OF core] by blast
    then have "?L - {b} = set (dblocks (D 0 @ D 1)) \<union> (lens_block (bytes o1) ` set xs \<union> X)" using assms(4) by blast
    then have inv: "heap_inv h (set (dblocks (D 0 @ D 1)) \<union> (lens_block (bytes o1) ` set xs \<union> X))" using 1(2) b by simp
    have kept: "\<forall>c \<in> set (dblocks (D 0 @ D 1)) \<union> lens_block (bytes o1) ` set xs. \<forall>y \<in> block_bytes c. hm h y = bytes o1 y"
    proof (intro ballI)
      fix c y assume c: "c \<in> set (dblocks (D 0 @ D 1)) \<union> lens_block (bytes o1) ` set xs" "y \<in> block_bytes c"
      have "c \<in> ?L" "b \<in> ?L" "c \<noteq> b" using c(1) out by auto
      then have "y \<notin> block_bytes b" using heap_inv_apart [OF S(5), of c b] c(2) by auto
      then show "hm h y = bytes o1 y" using 1(4) b by simp
    qed
    have dj: "X \<inter> (set (dblocks (D 0 @ D 1)) \<union> lens_block (bytes o1) ` set xs) = {}"
      using S(4) core_relD(4) [OF core] by blast
    show thesis
      using that [of "o1\<lparr>oheap := h\<rparr>"] optics_rel_heap [OF assms(1) inv kept dj] 1(1) l(1) by (simp add: lens_free_def)
  qed
qed

text \<open>
  What registering a new lens amounts to: it is refused, and its block given back, or it is the
  new head of the list.
\<close>

lemma register_rel:
  assumes "optics_rel o' xs D X" "sys_amd64 sys" "cstring name" "can_put o' name"
  shows "\<exists>r g o1. lens_register (make sys o' name) = Some (r, o1) \<and>
    lens_register_get (make sys o' name) = Some (g, o1) \<and> same_lenses (set xs) o' o1 \<and>
    registered kind valid o' xs D X name r g o1"
  using assms
proof (cases rule: make_rel)
  case (none o1)
  then show ?thesis by (simp add: lens_register_def lens_register_get_def registered_def)
next
  case (some x b o1 r ht)
  have okx: "lens_ok (bytes o1) x" using some(3) by (simp add: new_lens_def)
  from some(2,3,9) show ?thesis
  proof (cases rule: optics_lens_alloc_cases)
    case (old z o2)
    have zx: "z \<noteq> x"
    proof
      assume "z = x"
      then have "b \<in> lens_block (bytes o1) ` set xs" using old(3) some(4) by simp
      then show False using some(2) by (auto simp: optics_rel_def core_rel_def)
    qed
    have sz: "lens_name (bytes o') z = take 256 name"
      using old(3,4) some(6,7) by (auto simp: same_lenses_def)
    have "lens_ok (bytes o2) x" "b = lens_block (bytes o2) x" using okx some(4) old(5) by simp_all
    from old(6) this some(5) show ?thesis
    proof (cases rule: unmake_rel)
      case (1 o3)
      have "same_lenses (set xs) o1 o2" using old(5) core_relD(2) [of o1 xs D "insert b X"] some(2)
        by (simp add: same_lenses_def lens_ok_def optics_rel_def)
      then have "same_lenses (set xs) o' o3" using same_lenses_trans some(6) 1(3) by blast
      then show ?thesis
        using some(1) old(1-3) 1(1,2) zx sz
        by (simp add: lens_register_def lens_register_get_def registered_def)
    qed
  next
    case (new o2)
    have "insert b X - {lens_block (bytes o1) x} = X" using some(4,5) by auto
    then have rel: "optics_rel o2 (x # xs) D X" using new(4) by simp
    have same: "same_lenses (set xs) o' o2"
      using new(5) some(6) by (auto simp: same_lenses_def)
    have x2: "lens_name (bytes o2) x = take 256 name" "lens_type (bytes o2) x = type_code kind"
      using new(5) some(7,8) by (auto simp: same_lenses_def)
    have "take 256 name \<notin> lens_name (bytes o') ` set xs"
      using new(3) some(6,7) by (force simp: same_lenses_def)
    then show ?thesis
      using some(1) new(1,2) rel same x2
      by (simp add: lens_register_def lens_register_get_def registered_def)
  qed
qed

end

section \<open>The lens types keep the promise\<close>

text \<open>An allocation that is nothing but \<open>lens_alloc\<close>.\<close>

lemma lens_alloc_made:
  assumes "heap_inv (oheap o') L" "sys_amd64 sys" "cstring name" "len \<le> 3775"
  shows "(\<exists>h. lens_alloc sys o' kind len name = Some (None, o'\<lparr>oheap := h\<rparr>) \<and> made_none True o' name L h) \<or>
    (\<exists>x h. lens_alloc sys o' kind len name = Some (Some x, o'\<lparr>oheap := h\<rparr>) \<and> made_lens kind o' name L x h \<and>
      lens_lens_len (hm h) x = len)"
  using assms by (cases rule: lens_alloc_cases [where type = kind]) (auto simp: made_none_def made_lens_def)

text \<open>Filling in the data of a new lens.\<close>

lemma made_lens_write:
  assumes "made_lens kind o' name L x h" "\<And>y. y < x + 64 \<or> x + 64 + lens_lens_len (hm h) x \<le> y \<Longrightarrow> m y = hm h y"
  shows "made_lens kind o' name L x (h\<lparr>hm := m\<rparr>)"
proof -
  have M: "heap_inv h (insert (lens_block (hm h) x) L)" "lens_block (hm h) x \<notin> L" "lens_ok (hm h) x"
      "\<forall>b \<in> L. \<forall>y \<in> block_bytes b. hm h y = bytes o' y"
    using assms(1) by (simp_all add: made_lens_def)
  note W = lens_data_write [OF M(3) assms(2)]
  have data: "y \<in> block_bytes (lens_block (hm h) x)" if "x + 64 \<le> y" "y < x + 64 + lens_lens_len (hm h) x" for y
    using that by (intro lens_bytes [OF M(3)]) (simp_all add: lens_total_len_def sizeof_lens_def)
  have out: "m y = hm h y" if "y \<notin> block_bytes (lens_block (hm h) x)" for y
    using data [of y] that assms(2) [of y] by linarith
  have "heap_inv (h\<lparr>hm := m\<rparr>) (insert (lens_block (hm h) x) L)"
    by (rule heap_inv_write [OF M(1) insertI1 out])
  moreover have "m y = bytes o' y" if "b \<in> L" "y \<in> block_bytes b" for b y
  proof -
    have "b \<noteq> lens_block (hm h) x" using that(1) M(2) by auto
    then have "y \<notin> block_bytes (lens_block (hm h) x)"
      using heap_inv_apart [OF M(1), of b "lens_block (hm h) x"] that by auto
    then show ?thesis using out M(4) that by simp
  qed
  ultimately show ?thesis using assms(1) W by (simp add: made_lens_def)
qed

lemma lens_alloc_maker:
  assumes "len \<le> 3775" "\<And>sys o' name. f sys o' name = lens_alloc sys o' kind len name"
  shows "lens_maker f kind True"
proof
  fix o' :: optics and L sys name assume a: "heap_inv (oheap o') L" "sys_amd64 sys" "cstring name"
  show "(\<exists>h. f sys o' name = Some (None, o'\<lparr>oheap := h\<rparr>) \<and> made_none True o' name L h) \<or>
    (\<exists>x h. f sys o' name = Some (Some x, o'\<lparr>oheap := h\<rparr>) \<and> made_lens kind o' name L x h)"
    unfolding assms(2) using lens_alloc_made [OF a assms(1), of kind] by blast
qed

interpretation counter_maker: lens_maker lens_counter_alloc optics_counter True
  by (rule lens_alloc_maker [OF _ lens_counter_alloc_def]) (simp add: sizeof_lens_counter_def)

interpretation gauge_maker: lens_maker lens_gauge_alloc optics_gauge True
  by (rule lens_alloc_maker [OF _ lens_gauge_alloc_def]) (simp add: sizeof_lens_gauge_def)

interpretation dist_maker: lens_maker lens_dist_alloc optics_dist True
  by (rule lens_alloc_maker [OF _ lens_dist_alloc_def]) (simp add: sizeof_lens_dist_def)

text \<open>An allocation that then fills in the data of the lens.\<close>

lemma lens_alloc_fill:
  assumes a: "heap_inv (oheap o') L" "sys_amd64 sys" "cstring name" "len \<le> 3775"
    and f: "\<And>x o1. lens_alloc sys o' kind len name = Some (Some x, o1) \<Longrightarrow> lens_type (bytes o1) x = type_code kind \<Longrightarrow>
      f = Some (Some x, set_bytes o1 (fill (bytes o1) x))"
    and none: "\<And>o1. lens_alloc sys o' kind len name = Some (None, o1) \<Longrightarrow> f = Some (None, o1)"
    and fill: "\<And>m x y. y < x + 64 \<or> x + 64 + len \<le> y \<Longrightarrow> fill m x y = m y"
  shows "(\<exists>h. f = Some (None, o'\<lparr>oheap := h\<rparr>) \<and> made_none True o' name L h) \<or>
    (\<exists>x h. f = Some (Some x, o'\<lparr>oheap := h\<rparr>) \<and> made_lens kind o' name L x h)"
  using lens_alloc_made [OF a, of kind]
proof (elim disjE exE conjE)
  fix h assume "lens_alloc sys o' kind len name = Some (None, o'\<lparr>oheap := h\<rparr>)" "made_none True o' name L h"
  then show ?thesis using none by blast
next
  fix x h assume m: "lens_alloc sys o' kind len name = Some (Some x, o'\<lparr>oheap := h\<rparr>)" "made_lens kind o' name L x h"
    "lens_lens_len (hm h) x = len"
  have "made_lens kind o' name L x (h\<lparr>hm := fill (hm h) x\<rparr>)"
    by (rule made_lens_write [OF m(2)]) (use m(3) fill in simp)
  moreover have "f = Some (Some x, o'\<lparr>oheap := h\<lparr>hm := fill (hm h) x\<rparr>\<rparr>)"
    using f [OF m(1)] m(2) by (simp add: made_lens_def set_bytes_def)
  ultimately show ?thesis by blast
qed

lemma store_words_frame: "y < a \<or> a + 8 * length vs \<le> y \<Longrightarrow> store_words m a vs y = m y"
  by (induction vs arbitrary: m a) (auto simp: store_frame)

definition histo_valid :: "nat list \<Rightarrow> bool" where
  "histo_valid bs \<longleftrightarrow> 2 \<le> length bs \<and> length bs \<le> 9 \<and> buckets_increasing bs"

interpretation histo_maker: lens_maker "\<lambda>sys o' name. lens_histo_alloc sys o' name bs" optics_histo "histo_valid bs" for bs
proof
  fix o' :: optics and L sys name assume a: "heap_inv (oheap o') L" "sys_amd64 sys" "cstring name"
  let ?fill = "\<lambda>m x. store_words (store64 m (x + 64 + 232) (length bs)) (x + 64 + 160) bs"
  show "(\<exists>h. lens_histo_alloc sys o' name bs = Some (None, o'\<lparr>oheap := h\<rparr>) \<and> made_none (histo_valid bs) o' name L h) \<or>
    (\<exists>x h. lens_histo_alloc sys o' name bs = Some (Some x, o'\<lparr>oheap := h\<rparr>) \<and> made_lens optics_histo o' name L x h)"
  proof (cases "histo_valid bs")
    case False
    then have "lens_histo_alloc sys o' name bs = Some (None, o'\<lparr>oheap := oheap o'\<rparr>)"
      by (auto simp: lens_histo_alloc_def histo_valid_def optics_histo_buckets_max_def)
    then show ?thesis using False a(1) unfolding made_none_def by blast
  next
    case True
    then have v: "\<not> length bs < 2" "\<not> 9 < length bs" "buckets_increasing bs" by (auto simp: histo_valid_def)
    have fill: "?fill m x y = m y" if "y < x + 64 \<or> x + 64 + sizeof_lens_histo \<le> y" for m x y
    proof -
      have "y < x + 64 + 160 \<or> x + 64 + 160 + 8 * length bs \<le> y" "y < x + 64 + 232 \<or> x + 64 + 232 + 8 \<le> y"
        using that v by (auto simp: sizeof_lens_histo_def)
      then show ?thesis by (simp only: store_words_frame store_frame)
    qed
    have "made_none (histo_valid bs) = made_none True" using True by simp
    then show ?thesis
      by (simp only:, intro lens_alloc_fill [OF a, of sizeof_lens_histo optics_histo _ ?fill, OF _ _ _ fill])
        (use v in \<open>simp_all add: lens_histo_alloc_def lens_sub_ptr_def sizeof_lens_def Let_def optics_histo_buckets_max_def
          sizeof_lens_histo_def\<close>)
  qed
qed

interpretation quantile_maker: lens_maker "\<lambda>sys o' name. lens_quantile_alloc sys o' name tgt estimate adjustment"
  optics_quantile True for tgt estimate adjustment
proof
  fix o' :: optics and L sys name assume a: "heap_inv (oheap o') L" "sys_amd64 sys" "cstring name"
  let ?f = "lens_quantile_alloc sys o' name tgt estimate adjustment"
  let ?fill = "\<lambda>m x. store64 (store64 (store64 m (x + 64) (unat tgt)) (x + 64 + 8) (unat estimate)) (x + 64 + 16) (unat adjustment)"
  have fill: "?fill m x y = m y" if "y < x + 64 \<or> x + 64 + sizeof_lens_quantile \<le> y" for m x y
    using that by (auto simp: store_frame sizeof_lens_quantile_def)
  show "(\<exists>h. ?f = Some (None, o'\<lparr>oheap := h\<rparr>) \<and> made_none True o' name L h) \<or>
    (\<exists>x h. ?f = Some (Some x, o'\<lparr>oheap := h\<rparr>) \<and> made_lens optics_quantile o' name L x h)"
    by (rule lens_alloc_fill [OF a, of sizeof_lens_quantile optics_quantile ?f ?fill, OF _ _ _ fill])
      (simp_all add: lens_quantile_alloc_def lens_sub_ptr_def sizeof_lens_def Let_def store_frame sizeof_lens_quantile_def)
qed

section \<open>Properties\<close>

text \<open>
  C1: Making a lens, for every type. On a well-formed store whose table can take the name, both
  operations return, and what they do is one of three things. The lens is refused, with a
  reason (bad bounds of a histogram, a name of 255 characters, no memory). A lens with that
  name exists: then one operation refuses, the other returns that lens, and the new block is
  given back. Or the new lens, with the name and the type, is the new head of the list, and
  no other lens has its name. The store is well formed after it and the other lenses keep
  their names, types and places.
\<close>

theorem optics_alloc_registers:
  assumes "optics_rel o' xs D X" "sys_amd64 sys" "cstring name" "can_put o' name"
    and "(kind, valid, alloc, alloc_get) \<in> set
      [(optics_counter, True, optics_counter_alloc sys o' name, optics_counter_alloc_get sys o' name),
       (optics_gauge, True, optics_gauge_alloc sys o' name, optics_gauge_alloc_get sys o' name),
       (optics_dist, True, optics_dist_alloc sys o' name, optics_dist_alloc_get sys o' name),
       (optics_histo, histo_valid bs, optics_histo_alloc sys o' name bs, optics_histo_alloc_get sys o' name bs),
       (optics_quantile, True, optics_quantile_alloc sys o' name tgt est adj, optics_quantile_alloc_get sys o' name tgt est adj)]"
  shows "\<exists>r g o1. alloc = Some (r, o1) \<and> alloc_get = Some (g, o1) \<and> same_lenses (set xs) o' o1 \<and>
    registered kind valid o' xs D X name r g o1"
proof -
  note R = counter_maker.register_rel [OF assms(1-4)] gauge_maker.register_rel [OF assms(1-4)]
    dist_maker.register_rel [OF assms(1-4)] histo_maker.register_rel [OF assms(1-4), of bs]
    quantile_maker.register_rel [OF assms(1-4), of tgt est adj]
  note D = optics_counter_alloc_def optics_counter_alloc_get_def optics_gauge_alloc_def optics_gauge_alloc_get_def
    optics_dist_alloc_def optics_dist_alloc_get_def optics_histo_alloc_def optics_histo_alloc_get_def
    optics_quantile_alloc_def optics_quantile_alloc_get_def
  from assms(5) consider
      "kind = optics_counter" "valid = True" "alloc = optics_counter_alloc sys o' name" "alloc_get = optics_counter_alloc_get sys o' name"
    | "kind = optics_gauge" "valid = True" "alloc = optics_gauge_alloc sys o' name" "alloc_get = optics_gauge_alloc_get sys o' name"
    | "kind = optics_dist" "valid = True" "alloc = optics_dist_alloc sys o' name" "alloc_get = optics_dist_alloc_get sys o' name"
    | "kind = optics_histo" "valid = histo_valid bs" "alloc = optics_histo_alloc sys o' name bs"
      "alloc_get = optics_histo_alloc_get sys o' name bs"
    | "kind = optics_quantile" "valid = True" "alloc = optics_quantile_alloc sys o' name tgt est adj"
      "alloc_get = optics_quantile_alloc_get sys o' name tgt est adj" by auto
  then show ?thesis by cases (use R in \<open>simp_all only: D\<close>)
qed

text \<open>A store with no lens.\<close>

lemma no_lens_store: "optics_rel two_block_store [] (\<lambda>_. []) {(704, class_of 100), (1000, class_of 40)}"
proof -
  have "keys_rel two_block_store {}"
    by (simp add: keys_rel_def two_block_store_def ht_inv_empty ht_abs_empty)
  moreover have "lens_head (header two_block_store) = 0" "olock two_block_store = 0"
    by (simp_all add: two_block_store_def zero_header_def)
  ultimately show ?thesis using two_block_store_rel by (simp add: optics_rel_def core_rel_def)
qed

lemma two_block_store_can_put: "can_put two_block_store name"
proof -
  have "htable_put empty_htable k v \<noteq> None" for k v
    using htable_put_first [OF ht_inv_empty, of k v] by (auto simp: empty_htable_def)
  then show ?thesis by (simp only: can_put_def two_block_store_def optics.simps simp_thms)
qed

lemma two_block_store_room: "\<not> vma_len (rg (oheap two_block_store)) < pos (rg (oheap two_block_store)) + 65536"
  by (simp add: two_block_store_def two_block_heap_def fresh_region_def zero_region_def region_default_len_def)

theorem optics_alloc_registers_witness:
  "\<exists>x o1. optics_counter_alloc sys_ok two_block_store ''hits'' = Some (Some x, o1) \<and>
     optics_rel o1 [x] (\<lambda>_. []) {(704, class_of 100), (1000, class_of 40)} \<and> lens_name (bytes o1) x = ''hits''"
proof -
  have "cstring ''hits''" by (simp add: cstring_def nil_char_def)
  from optics_alloc_registers [OF no_lens_store sys_ok_amd64 this two_block_store_can_put,
      where kind = optics_counter and valid = True and alloc = "optics_counter_alloc sys_ok two_block_store ''hits''"
        and alloc_get = "optics_counter_alloc_get sys_ok two_block_store ''hits''" and bs = "[]" and tgt = 0 and est = 0 and adj = 0]
  obtain r g o1 where "optics_counter_alloc sys_ok two_block_store ''hits'' = Some (r, o1)"
      "registered optics_counter True two_block_store [] (\<lambda>_. []) {(704, class_of 100), (1000, class_of 40)} ''hits'' r g o1"
    by auto
  then show ?thesis using two_block_store_room by (auto simp: registered_def)
qed

subsection \<open>A store with one lens\<close>

lemma one_lens_store:
  obtains x o1 where "optics_counter_alloc sys_ok two_block_store ''hits'' = Some (Some x, o1)"
    "optics_rel o1 [x] (\<lambda>_. []) {(704, class_of 100), (1000, class_of 40)}" "lens_name (bytes o1) x = ''hits''"
    "lens_type (bytes o1) x = type_code optics_counter"
proof -
  have "cstring ''hits''" by (simp add: cstring_def nil_char_def)
  from counter_maker.register_rel [OF no_lens_store sys_ok_amd64 this two_block_store_can_put] show thesis
    using that two_block_store_room by (auto simp: registered_def optics_counter_alloc_def)
qed

theorem optics_foreach_lens_visits_witness:
  "\<exists>x o1. optics_counter_alloc sys_ok two_block_store ''hits'' = Some (Some x, o1) \<and>
     optics_foreach_lens o1 [] (\<lambda>seen o' l. Some (optics_ok, lens_name (bytes o') l # seen, o')) =
       Some (optics_ok, [''hits''], o1)"
proof (rule one_lens_store)
  fix x o1 assume o1: "optics_counter_alloc sys_ok two_block_store ''hits'' = Some (Some x, o1)"
    "optics_rel o1 [x] (\<lambda>_. []) {(704, class_of 100), (1000, class_of 40)}" "lens_name (bytes o1) x = ''hits''"
  let ?cb = "\<lambda>seen o' l. Some (optics_ok, lens_name (bytes o') l # seen, o')"
  have "optics_foreach_lens o1 [] ?cb = visit ?cb [x] [] o1"
    by (rule optics_foreach_lens_visits [OF o1(2)]) auto
  then show ?thesis using o1(1,3) by auto
qed

theorem optics_lens_get_finds_witness:
  "\<exists>x o1 o2 o3. optics_counter_alloc sys_ok two_block_store ''hits'' = Some (Some x, o1) \<and>
     optics_lens_get o1 ''hits'' = Some (Some (Some x), o2) \<and> optics_lens_get o1 ''misses'' = Some (None, o3)"
proof (rule one_lens_store)
  fix x o1 assume o1: "optics_counter_alloc sys_ok two_block_store ''hits'' = Some (Some x, o1)"
    "optics_rel o1 [x] (\<lambda>_. []) {(704, class_of 100), (1000, class_of 40)}" "lens_name (bytes o1) x = ''hits''"
  have "\<exists>o2. optics_lens_get o1 ''hits'' = Some (Some (Some x), o2)"
    using optics_lens_get_finds [OF o1(2), of "''hits''"] o1(3) by (auto split: option.splits)
  moreover have "\<exists>o3. optics_lens_get o1 ''misses'' = Some (None, o3)"
    using optics_lens_get_finds [OF o1(2), of "''misses''"] o1(3) by (auto split: option.splits)
  ultimately show ?thesis using o1(1) by blast
qed

theorem optics_lens_free_grace_period_witness:
  "\<exists>x o1 r o2. optics_counter_alloc sys_ok two_block_store ''hits'' = Some (Some x, o1) \<and>
     optics_lens_free sys_ok o1 x = Some (r, o2) \<and> same_lenses {x} o1 o2"
proof (rule one_lens_store)
  fix x o1 assume o1: "optics_counter_alloc sys_ok two_block_store ''hits'' = Some (Some x, o1)"
    "optics_rel o1 [x] (\<lambda>_. []) {(704, class_of 100), (1000, class_of 40)}"
  have "x \<in> set [x]" by simp
  from optics_lens_free_grace_period [OF o1(2) this sys_ok_amd64] show ?thesis using o1(1) by auto
qed

section \<open>Types\<close>

text \<open>
  C26: Types are checked at run time. Recording into a lens and reading from it with an operation of another
  type is refused with an error, and neither the store, nor the value read into, nor the random generator changes.
\<close>

theorem lens_ops_check_type:
  "(lens_type (bytes o') lens \<noteq> type_code optics_counter \<longrightarrow>
      optics_counter_inc o' lens c = (False, o') \<and> optics_counter_read o' lens e c = (optics_err, c, o')) \<and>
   (lens_type (bytes o') lens \<noteq> type_code optics_gauge \<longrightarrow>
      optics_gauge_set o' lens g = (False, o') \<and> optics_gauge_read o' lens e g = (optics_err, g)) \<and>
   (lens_type (bytes o') lens \<noteq> type_code optics_dist \<longrightarrow>
      optics_dist_record rdtsc x o' lens g = Some (False, x, o') \<and>
      optics_dist_read qsort stack rdtsc x o' lens e d = Some (optics_err, d, x, o')) \<and>
   (lens_type (bytes o') lens \<noteq> type_code optics_histo \<longrightarrow>
      optics_histo_inc o' lens g = Some (False, o') \<and> optics_histo_read o' lens e h = (optics_err, h, o')) \<and>
   (lens_type (bytes o') lens \<noteq> type_code optics_quantile \<longrightarrow>
      optics_quantile_update rdtsc x o' lens g = Some (False, x, o') \<and>
      optics_quantile_read rdtsc x o' lens e q = Some (optics_err, q, x, o'))"
  by (simp add: lens_sub_ptr_def
      optics_counter_inc_def lens_counter_inc_def optics_counter_read_def lens_counter_read_def
      optics_gauge_set_def lens_gauge_set_def optics_gauge_read_def lens_gauge_read_def
      optics_dist_record_def lens_dist_record_def optics_dist_read_def lens_dist_read_def
      optics_histo_inc_def lens_histo_inc_def optics_histo_read_def lens_histo_read_def
      optics_quantile_update_def lens_quantile_update_def optics_quantile_read_def lens_quantile_read_def)

theorem lens_ops_check_type_witness:
  "\<exists>x o1. optics_counter_alloc sys_ok two_block_store ''hits'' = Some (Some x, o1) \<and>
     optics_gauge_set o1 x d_zero = (False, o1) \<and> optics_histo_inc o1 x d_zero = Some (False, o1)"
proof (rule one_lens_store)
  fix x o1 assume o1: "optics_counter_alloc sys_ok two_block_store ''hits'' = Some (Some x, o1)"
    "lens_type (bytes o1) x = type_code optics_counter"
  then show ?thesis using lens_ops_check_type [of o1 x _ _ d_zero] by simp
qed

end
