(* ===== verification/Poller.thy ===== *)
theory Poller
  imports Api
begin

text \<open>
  The poller, \<^verbatim>\<open>src/poller.c\<close> and \<^verbatim>\<open>src/poller_poll.c\<close>: it opens every region of the machine,
  ends the epoch of each, reads the lenses of the ended epochs into one table keyed by prefix,
  host and name, and hands every entry of the table to its backends.

  Polls are allocated one by one and the table holds their addresses; the model keeps them in
  a list (\<open>polls\<close>) and the table holds their index. The random generator of the polling
  thread is a field of the context, since reading distributions and quantiles draws from it.
\<close>

section \<open>Definitions\<close>

definition poller_max_backends :: nat where
  "poller_max_backends = 8"

definition poller_max_optics :: nat where
  "poller_max_optics = 128"

datatype optics_poll_type = optics_poll_begin | optics_poll_metric | optics_poll_done

text \<open>\<open>None\<close> for the poll is the null pointer that comes with the first and the last call.\<close>

type_synonym 'b backend_cb = "'b \<Rightarrow> optics_poll_type \<Rightarrow> optics_poll option \<Rightarrow> 'b"

record 'b backend =
  bctx :: 'b
  bcb :: "'b backend_cb"
  bfree :: "('b \<Rightarrow> 'b) option"

record 'b optics_poller =
  host :: string
  backends :: "'b backend list"

text \<open>\<open>gethostname\<close> is what the system call returns, if it does.\<close>

definition optics_poller_alloc :: "string option \<Rightarrow> 'b optics_poller option" where
  "optics_poller_alloc gethostname =
     (case gethostname of None \<Rightarrow> None | Some h \<Rightarrow> Some \<lparr>host = h, backends = []\<rparr>)"

definition optics_poller_free :: "'b optics_poller \<Rightarrow> 'b list" where
  "optics_poller_free poller =
     map (\<lambda>b. case bfree b of None \<Rightarrow> bctx b | Some f \<Rightarrow> f (bctx b)) (backends poller)"

definition optics_poller_get_host :: "'b optics_poller \<Rightarrow> string" where
  "optics_poller_get_host poller = host poller"

definition optics_poller_set_host :: "'b optics_poller \<Rightarrow> string \<Rightarrow> bool \<times> 'b optics_poller" where
  "optics_poller_set_host poller h =
     (if strnlen h optics_name_max_len = optics_name_max_len then (False, poller)
      else (True, poller\<lparr>host := take (optics_name_max_len - 1) h\<rparr>))"

definition optics_poller_backend :: "'b optics_poller \<Rightarrow> 'b \<Rightarrow> 'b backend_cb \<Rightarrow> ('b \<Rightarrow> 'b) option \<Rightarrow> bool \<times> 'b optics_poller" where
  "optics_poller_backend poller ctx cb free =
     (if length (backends poller) \<ge> poller_max_backends then (False, poller)
      else (True, poller\<lparr>backends := backends poller @ [\<lparr>bctx = ctx, bcb = cb, bfree = free\<rparr>]\<rparr>))"

definition poller_backend_record :: "'b optics_poller \<Rightarrow> optics_poll_type \<Rightarrow> optics_poll option \<Rightarrow> 'b optics_poller" where
  "poller_backend_record poller type poll =
     poller\<lparr>backends := map (\<lambda>b. b\<lparr>bctx := bcb b (bctx b) type poll\<rparr>) (backends poller)\<rparr>"

text \<open>\<^verbatim>\<open>struct poller_poll_ctx\<close>, with the polls that the table refers to and the generator.\<close>

record poll_ctx =
  cts :: nat
  celapsed :: nat
  chost :: string
  cprefix :: string
  cepoch :: nat
  cvalues :: htable
  polls :: "optics_poll list"
  crng :: rng

text \<open>The index of the poll for a key; \<open>None\<close>: the table cannot take the key.\<close>

definition poller_get_value :: "poll_ctx \<Rightarrow> optics \<Rightarrow> off \<Rightarrow> string \<Rightarrow> (nat \<times> poll_ctx) option" where
  "poller_get_value ctx o' lens key =
     (case htable_get (cvalues ctx) key of
        None \<Rightarrow> None
      | Some (ret, ht) \<Rightarrow>
          if ok ret then
            (let i = unat (rvalue ret);
                 poll = polls ctx ! i;
                 poll' = (if celapsed ctx > pelapsed poll then poll\<lparr>pelapsed := celapsed ctx\<rparr> else poll)
             in Some (i, ctx\<lparr>cvalues := ht, polls := (polls ctx)[i := poll']\<rparr>))
          else
            (let i = length (polls ctx);
                 poll = \<lparr>phost = chost ctx, pprefix = cprefix ctx, pkey = optics_lens_name o' lens,
                   pvalue = zero_value (optics_lens_type_of o' lens), pts = cts ctx, pelapsed = celapsed ctx\<rparr>
             in case htable_put ht key (of_nat i) of
                  None \<Rightarrow> None
                | Some (ret', ht') \<Rightarrow>
                    if \<not> ok ret' then None
                    else Some (i, ctx\<lparr>cvalues := ht', polls := polls ctx @ [poll]\<rparr>)))"

text \<open>
  The switch of \<^verbatim>\<open>poller_poll_lens\<close>: reading a lens into a value. \<open>env\<close> is what the reads of
  distributions and quantiles depend on: \<^verbatim>\<open>qsort\<close>, the stack and the seed.
\<close>

type_synonym read_env = "double qsort \<times> double list \<times> u64"

definition poller_read ::
  "read_env \<Rightarrow> rng \<Rightarrow> optics \<Rightarrow> off \<Rightarrow> nat \<Rightarrow> optics_poll_value \<Rightarrow>
     (optics_ret \<times> optics_poll_value \<times> rng \<times> optics) option" where
  "poller_read env x o' lens e v =
     (case env of (qsort, stack, rdtsc) \<Rightarrow>
        (case v of
           Counter_value c \<Rightarrow>
             (case optics_counter_read o' lens e c of (ret, c', o1) \<Rightarrow> Some (ret, Counter_value c', x, o1))
         | Gauge_value g \<Rightarrow> (case optics_gauge_read o' lens e g of (ret, g') \<Rightarrow> Some (ret, Gauge_value g', x, o'))
         | Dist_value d \<Rightarrow>
             map_option (\<lambda>(ret, d', y, o1). (ret, Dist_value d', y, o1)) (optics_dist_read qsort stack rdtsc x o' lens e d)
         | Histo_value h \<Rightarrow>
             (case optics_histo_read o' lens e h of (ret, h', o1) \<Rightarrow> Some (ret, Histo_value h', x, o1))
         | Quantile_value q \<Rightarrow>
             map_option (\<lambda>(ret, q', y, o1). (ret, Quantile_value q', y, o1)) (optics_quantile_read rdtsc x o' lens e q)
         | Unknown_value t \<Rightarrow> Some (optics_err, Unknown_value t, x, o')))"

text \<open>The key of a lens; \<open>None\<close>: an assertion on the key fails.\<close>

definition poller_key :: "string \<Rightarrow> string \<Rightarrow> string \<Rightarrow> optics_key option" where
  "poller_key p h name =
     Option.bind (optics_key_push zero_key p) (\<lambda>(_, k1).
       Option.bind (optics_key_push k1 h) (\<lambda>(_, k2).
         Option.bind (optics_key_push k2 name) (\<lambda>(_, k3). Some k3)))"

text \<open>A lens that is busy or cannot be read is skipped with a warning.\<close>

definition poller_poll_lens :: "read_env \<Rightarrow> poll_ctx foreach_cb" where
  "poller_poll_lens env ctx o' lens =
     Option.bind (poller_key (cprefix ctx) (chost ctx) (optics_lens_name o' lens)) (\<lambda>key.
       Option.bind (poller_get_value ctx o' lens (key_str key)) (\<lambda>(i, ctx1).
         Option.bind (poller_read env (crng ctx1) o' lens (cepoch ctx1) (pvalue (polls ctx1 ! i))) (\<lambda>(ret, v, y, o1).
           Some (optics_ok, ctx1\<lparr>polls := (polls ctx1)[i := (polls ctx1 ! i)\<lparr>pvalue := v\<rparr>], crng := y\<rparr>, o1))))"

record poller_list_item =
  iopt :: optics
  last_poll :: nat
  iepoch :: nat

definition poller_elapsed :: "nat \<Rightarrow> nat \<Rightarrow> nat" where
  "poller_elapsed ts prev = (if ts > prev then ts - prev else 1)"

definition poller_poll_optics ::
  "read_env \<Rightarrow> 'b optics_poller \<Rightarrow> poller_list_item \<Rightarrow> nat \<Rightarrow> htable \<times> optics_poll list \<times> rng \<Rightarrow>
     ((htable \<times> optics_poll list \<times> rng) \<times> poller_list_item) option" where
  "poller_poll_optics env poller item ts tab =
     (case tab of (vals, ps, x) \<Rightarrow>
        (let ctx = \<lparr>cts = ts, celapsed = poller_elapsed ts (last_poll item), chost = optics_poller_get_host poller,
               cprefix = optics_get_prefix (iopt item), cepoch = iepoch item, cvalues = vals, polls = ps, crng = x\<rparr>
         in map_option (\<lambda>(_, ctx', o1). ((cvalues ctx', polls ctx', crng ctx'), item\<lparr>iopt := o1\<rparr>))
              (optics_foreach_lens (iopt item) ctx (poller_poll_lens env))))"

text \<open>
  The callback that opens a region, on the list of those opened so far; opening may not return.
\<close>

definition poller_shm_cb :: "sys \<Rightarrow> (nat \<Rightarrow> optics_header \<times> alloc \<times> mem) \<Rightarrow>
    (optics list \<times> os) option \<Rightarrow> string \<Rightarrow> shm_ret \<times> (optics list \<times> os) option" where
  "poller_shm_cb sys files ctx name =
     (case ctx of
        None \<Rightarrow> (shm_break, None)
      | Some (list, os) \<Rightarrow>
          (case optics_open sys os files name of
             None \<Rightarrow> (shm_break, None)
           | Some (None, os1) \<Rightarrow> (shm_ok, Some (list, os1))
           | Some (Some o', os1) \<Rightarrow>
               (let list1 = list @ [o'] in
                (if length list1 \<ge> poller_max_optics then shm_break else shm_ok, Some (list1, os1)))))"

text \<open>A loop that threads a state through a list of regions.\<close>

fun each_item :: "('a \<Rightarrow> 's \<Rightarrow> ('s \<times> 'i) option) \<Rightarrow> 'a list \<Rightarrow> 's \<Rightarrow> ('s \<times> 'i list) option" where
  "each_item f [] st = Some (st, [])"
| "each_item f (i # is) st =
     Option.bind (f i st) (\<lambda>(st1, i1). Option.bind (each_item f is st1) (\<lambda>(st2, is1). Some (st2, i1 # is1)))"

definition poller_epoch_inc :: "nat \<Rightarrow> optics \<Rightarrow> unit \<Rightarrow> (unit \<times> poller_list_item) option" where
  "poller_epoch_inc ts o' st =
     map_option (\<lambda>(e, prev, o1). ((), \<lparr>iopt = o1, last_poll = prev, iepoch = e\<rparr>)) (optics_epoch_inc_at o' ts)"

text \<open>The three parts of a report to the backends.\<close>

definition poller_report :: "'b optics_poller \<Rightarrow> htable \<Rightarrow> optics_poll list \<Rightarrow> 'b optics_poller" where
  "poller_report poller vals ps =
     (let p1 = poller_backend_record poller optics_poll_begin None;
          p2 = foldl (\<lambda>p i. poller_backend_record p optics_poll_metric
                 (Some (ps ! unat (bvalue (ht_table vals ! i))))) p1 (htable_walk vals None)
      in poller_backend_record p2 optics_poll_done None)"

fun close_all :: "sys \<Rightarrow> poller_list_item list \<Rightarrow> unit option" where
  "close_all sys [] = Some ()"
| "close_all sys (item # items) = Option.bind (optics_close sys (iopt item)) (\<lambda>_. close_all sys items)"

text \<open>
  \<open>junk\<close> is the result of \<^verbatim>\<open>shm_foreach\<close> when there is no region, which is a variable without value. Between the change of the epochs and the
  reads the code sleeps for a millisecond; nothing else runs in this function, so the sleep is no step here. What threads
  do meanwhile is in \<open>Epochs\<close>.
\<close>

definition optics_poller_poll_at ::
  "read_env \<Rightarrow> sys \<Rightarrow> os \<Rightarrow> (nat \<Rightarrow> optics_header \<times> alloc \<times> mem) \<Rightarrow> shm_ret \<Rightarrow> rng \<Rightarrow>
     'b optics_poller \<Rightarrow> nat \<Rightarrow> (bool \<times> 'b optics_poller \<times> rng \<times> poller_list_item list) option" where
  "optics_poller_poll_at env sys os files junk x poller ts =
     (case shm_foreach os (Some ([], os)) (poller_shm_cb sys files) of
        (ret, None) \<Rightarrow> None
      | (ret, Some (to_poll, os1)) \<Rightarrow>
          if (case ret of None \<Rightarrow> junk | Some r \<Rightarrow> r) = shm_err then Some (False, poller, x, [])
          else if to_poll = [] then Some (True, poller, x, [])
          else
            Option.bind (each_item (poller_epoch_inc ts) to_poll ()) (\<lambda>(_, items).
              Option.bind (each_item (\<lambda>item. poller_poll_optics env poller item ts) items (empty_htable, [], x))
                (\<lambda>((vals, ps, y), items1).
                  let poller1 = poller_report poller vals ps
                  in Option.bind (close_all sys items1) (\<lambda>_. Some (True, poller1, y, items1)))))"

definition optics_poller_poll ::
  "read_env \<Rightarrow> sys \<Rightarrow> os \<Rightarrow> (nat \<Rightarrow> optics_header \<times> alloc \<times> mem) \<Rightarrow> shm_ret \<Rightarrow> rng \<Rightarrow>
     'b optics_poller \<Rightarrow> nat option \<Rightarrow> (bool \<times> 'b optics_poller \<times> rng \<times> poller_list_item list) option" where
  "optics_poller_poll env sys os files junk x poller tv_sec =
     optics_poller_poll_at env sys os files junk x poller (clock_wall tv_sec)"

section \<open>Reading changes the data of one lens\<close>

text \<open>The data of a lens is large enough for its type.\<close>

definition lens_sized :: "mem \<Rightarrow> off \<Rightarrow> bool" where
  "lens_sized m x \<longleftrightarrow>
     (lens_type m x = type_code optics_counter \<longrightarrow> sizeof_lens_counter \<le> lens_lens_len m x) \<and>
     (lens_type m x = type_code optics_dist \<longrightarrow> sizeof_lens_dist \<le> lens_lens_len m x) \<and>
     (lens_type m x = type_code optics_histo \<longrightarrow>
        sizeof_lens_histo \<le> lens_lens_len m x \<and> histo_buckets_len m (x + 64) \<le> 9) \<and>
     (lens_type m x = type_code optics_quantile \<longrightarrow> sizeof_lens_quantile \<le> lens_lens_len m x)"

text \<open>\<open>o1\<close> differs from \<open>o'\<close> in the first \<open>n\<close> bytes of the data of \<open>x\<close> only.\<close>

definition data_only :: "nat \<Rightarrow> off \<Rightarrow> optics \<Rightarrow> optics \<Rightarrow> bool" where
  "data_only n x o' o1 \<longleftrightarrow> o1 = set_bytes o' (bytes o1) \<and>
     (\<forall>y. y < x + 64 \<or> x + 64 + n \<le> y \<longrightarrow> bytes o1 y = bytes o' y)"

lemma data_only_refl [simp]: "data_only n x o' o'"
  by (simp add: data_only_def set_bytes_def)

lemma data_only_mono: "data_only n x o' o1 \<Longrightarrow> n \<le> k \<Longrightarrow> data_only k x o' o1"
  by (auto simp: data_only_def)

lemma data_onlyD:
  assumes "data_only n x o' o1"
  shows "o1 = set_bytes o' (bytes o1)" "\<And>y. y < x + 64 \<or> x + 64 + n \<le> y \<Longrightarrow> bytes o1 y = bytes o' y"
  using assms unfolding data_only_def by blast+

lemma data_onlyI: "(\<And>y. y < x + 64 \<or> x + 64 + n \<le> y \<Longrightarrow> m y = bytes o' y) \<Longrightarrow> data_only n x o' (set_bytes o' m)"
  by (simp add: data_only_def set_bytes_def)

lemma histo_take_counts_frame:
  assumes "histo_take_counts k m h e cs = (cs', m')" "y < h + 80 * e + 16 \<or> h + 80 * e + 16 + 8 * k \<le> y"
  shows "m' y = m y"
  using assms
proof (induction k arbitrary: cs' m')
  case (Suc k)
  obtain c1 m1 where c: "histo_take_counts k m h e cs = (c1, m1)" by (cases "histo_take_counts k m h e cs")
  have "m1 y = m y" using Suc.IH [OF c] Suc.prems(2) by auto
  moreover have "m' = store64 m1 (h + hcell_off e (Count k)) 0" using Suc.prems(1) c by (simp add: histo_take_def)
  ultimately show ?case using Suc.prems(2) by (auto simp: store_frame)
qed simp

lemma counter_read_data: "e < 2 \<Longrightarrow> lens_counter_read o' x e v = (ret, v', o1) \<Longrightarrow>
    (if lens_type (bytes o') x = type_code optics_counter then data_only 16 x o' o1 else o1 = o')"
  by (auto simp: lens_counter_read_def lens_sub_ptr_def sizeof_lens_def counter_cell_def store_frame Let_def
      intro!: data_onlyI split: if_splits)

lemma dist_read_data:
  assumes "e < 2" "lens_dist_read qsort stack rdtsc z o' x e v = Some (ret, v', w, o1)"
  shows "if lens_type (bytes o') x = type_code optics_dist then data_only 3248 x o' o1 else o1 = o'"
proof -
  let ?d = "dist_epoch (x + 64) e"
  let ?o = "set_bytes o' (store64 (store64 (store64 (bytes o') (?d + 16) 0) (?d + 8) 0) ?d 0)"
  have "o1 = o' \<or> lens_type (bytes o') x = type_code optics_dist \<and> o1 = ?o"
    using assms(2) by (auto simp: lens_dist_read_def lens_sub_ptr_def sizeof_lens_def Let_def split: if_splits prod.splits)
  moreover have "data_only 3248 x o' ?o"
    using assms(1) by (intro data_onlyI dist_clear(4)) (auto simp: dist_epoch_def)
  moreover have "o1 = o'" if "lens_type (bytes o') x \<noteq> type_code optics_dist"
    using that assms(2) by (auto simp: lens_dist_read_def lens_sub_ptr_def)
  ultimately show ?thesis by auto
qed

lemma quantile_read_data:
  assumes "e < 2" "lens_quantile_read rdtsc z o' x e v = Some (ret, v', w, o1)"
  shows "if lens_type (bytes o') x = type_code optics_quantile then data_only 48 x o' o1 else o1 = o'"
proof (cases "lens_type (bytes o') x = type_code optics_quantile")
  case True
  have "o1 = set_bytes o' (store64 (bytes o') (x + 64 + 32 + 8 * e) 0)"
    using assms(2) True by (auto simp: lens_quantile_read_def lens_sub_ptr_def sizeof_lens_def Let_def split: if_splits prod.splits)
  moreover have "data_only 48 x o' (set_bytes o' (store64 (bytes o') (x + 64 + 32 + 8 * e) 0))"
    using assms(1) by (intro data_onlyI) (auto simp: store_frame)
  ultimately show ?thesis using True by simp
next
  case False
  then show ?thesis using assms(2) by (simp add: lens_quantile_read_def lens_sub_ptr_def)
qed

lemma histo_read_data:
  assumes "e < 2" "lens_histo_read o' x e v = (ret, v', o1)"
    "lens_type (bytes o') x = type_code optics_histo \<longrightarrow> histo_buckets_len (bytes o') (x + 64) \<le> 9"
  shows "if lens_type (bytes o') x = type_code optics_histo then data_only 160 x o' o1 else o1 = o'"
proof (cases "lens_type (bytes o') x = type_code optics_histo")
  case True
  let ?m = "bytes o'" and ?h = "x + 64"
  let ?n = "histo_buckets_len ?m ?h"
  let ?m2 = "store64 (store64 ?m (?h + hcell_off e Below) 0) (?h + hcell_off e Above) 0"
  obtain cs m3 where t: "histo_take_counts (?n - 1) ?m2 ?h e (counts v) = (cs, m3)"
    by (cases "histo_take_counts (?n - 1) ?m2 ?h e (counts v)")
  have "o1 = o' \<or> o1 = set_bytes o' m3"
    using assms(2) True t by (auto simp: lens_histo_read_def lens_sub_ptr_def sizeof_lens_def Let_def histo_take_def split: if_splits)
  moreover have "data_only 160 x o' (set_bytes o' m3)"
  proof (rule data_onlyI)
    fix y assume y: "y < x + 64 \<or> x + 64 + 160 \<le> y"
    then have "m3 y = ?m2 y"
      using assms(1,3) True by (intro histo_take_counts_frame [OF t]) (auto simp: less_2_cases_iff)
    also have "\<dots> = ?m y" using y assms(1) by (auto simp: store_frame)
    finally show "m3 y = ?m y" .
  qed
  ultimately show ?thesis using True by auto
next
  case False
  then show ?thesis using assms(2) by (simp add: lens_histo_read_def lens_sub_ptr_def)
qed

lemma poller_read_frame:
  assumes "poller_read env z o' x e v = Some (ret, v', w, o1)" "e < 2" "lens_sized (bytes o') x"
  shows "o1 = o' \<or>
    lens_type (bytes o') x = type_code optics_counter \<and> data_only 16 x o' o1 \<or>
    lens_type (bytes o') x = type_code optics_dist \<and> data_only 3248 x o' o1 \<or>
    lens_type (bytes o') x = type_code optics_histo \<and> data_only 160 x o' o1 \<or>
    lens_type (bytes o') x = type_code optics_quantile \<and> data_only 48 x o' o1"
proof -
  obtain qsort stack rdtsc where env: "env = (qsort, stack, rdtsc)" by (cases env)
  have b: "lens_type (bytes o') x = type_code optics_histo \<longrightarrow> histo_buckets_len (bytes o') (x + 64) \<le> 9"
    using assms(3) by (simp add: lens_sized_def)
  show ?thesis
  proof (cases v)
    case (Counter_value c)
    then obtain c' where "lens_counter_read o' x e c = (ret, c', o1)"
      using assms(1) by (auto simp: poller_read_def env optics_counter_read_def split: prod.splits)
    from counter_read_data [OF assms(2) this] show ?thesis by (auto split: if_splits)
  next
    case (Gauge_value g)
    then show ?thesis using assms(1) by (auto simp: poller_read_def env split: prod.splits)
  next
    case (Dist_value d)
    then obtain d' where "lens_dist_read qsort stack rdtsc z o' x e d = Some (ret, d', w, o1)"
      using assms(1) by (auto simp: poller_read_def env optics_dist_read_def)
    from dist_read_data [OF assms(2) this] show ?thesis by (auto split: if_splits)
  next
    case (Histo_value h)
    then obtain h' where "lens_histo_read o' x e h = (ret, h', o1)"
      using assms(1) by (auto simp: poller_read_def env optics_histo_read_def split: prod.splits)
    from histo_read_data [OF assms(2) this b] show ?thesis by (auto split: if_splits)
  next
    case (Quantile_value q)
    then obtain q' where "lens_quantile_read rdtsc z o' x e q = Some (ret, q', w, o1)"
      using assms(1) by (auto simp: poller_read_def env optics_quantile_read_def)
    from quantile_read_data [OF assms(2) this] show ?thesis by (auto split: if_splits)
  next
    case (Unknown_value t)
    then show ?thesis using assms(1) by (simp add: poller_read_def env)
  qed
qed

text \<open>Any read leaves the lens and its neighbours as they are.\<close>

lemma poller_read_data:
  assumes "poller_read env z o' x e v = Some (ret, v', w, o1)" "e < 2" "lens_sized (bytes o') x" "lens_ok (bytes o') x"
  shows "data_only (lens_lens_len (bytes o') x) x o' o1" "lens_sized (bytes o1) x"
proof -
  note F = poller_read_frame [OF assms(1-3)]
  show d: "data_only (lens_lens_len (bytes o') x) x o' o1"
    using F assms(3) by (auto simp: lens_sized_def sizeof_lens_counter_def sizeof_lens_dist_def sizeof_lens_histo_def
        sizeof_lens_quantile_def elim: data_only_mono)
  have W: "lens_type (bytes o1) x = lens_type (bytes o') x" "lens_lens_len (bytes o1) x = lens_lens_len (bytes o') x"
    using lens_data_write [OF assms(4) data_onlyD(2) [OF d]] by simp_all
  have "histo_buckets_len (bytes o1) (x + 64) = histo_buckets_len (bytes o') (x + 64)"
    if "lens_type (bytes o') x = type_code optics_histo"
    unfolding histo_buckets_len_def by (rule load_cong) (use F that in \<open>auto simp: data_only_def\<close>)
  then show "lens_sized (bytes o1) x" using assms(3) W by (auto simp: lens_sized_def)
qed

section \<open>The store after a read\<close>

lemma data_only_rel:
  assumes "optics_rel o' xs D X" "x \<in> set xs" "data_only (lens_lens_len (bytes o') x) x o' o1"
  shows "optics_rel o1 xs D X" "same_lenses (set xs) o' o1"
    and "\<And>z. z \<in> set xs \<Longrightarrow> lens_next (bytes o1) z = lens_next (bytes o') z"
    and "\<And>z y. z \<in> set xs \<Longrightarrow> z \<noteq> x \<Longrightarrow> y \<in> block_bytes (lens_block (bytes o') z) \<Longrightarrow> bytes o1 y = bytes o' y"
proof -
  have R: "olock o' = 0" "keys_rel o' (set xs)" "core_rel o' xs D X"
    using assms(1) by (simp_all add: optics_rel_def)
  note C = core_relD [OF R(3)] and S = core_rel_set [OF R(3)]
  note only = data_onlyD [OF assms(3)]
  have fields: "header o1 = header o'" "okeys o1 = okeys o'" "olock o1 = olock o'"
    using arg_cong [OF only(1), of header] arg_cong [OF only(1), of okeys] arg_cong [OF only(1), of olock] by simp_all
  have len: "lens_total_len (bytes o') x \<ge> 64 + lens_lens_len (bytes o') x"
    by (simp add: lens_total_len_def sizeof_lens_def)
  have out: "bytes o1 y = bytes o' y" if "b \<in> all_blocks o' xs D X" "b \<noteq> lens_block (bytes o') x" "y \<in> block_bytes b" for b y
    using lens_set_apart [OF S assms(2) that] len by (intro only(2)) auto
  have inb: "lens_block (bytes o') z \<in> all_blocks o' xs D X" if "z \<in> set xs" for z
    using that by (simp add: all_blocks_def)
  show other: "bytes o1 y = bytes o' y"
    if "z \<in> set xs" "z \<noteq> x" "y \<in> block_bytes (lens_block (bytes o') z)" for z y
    using out [OF inb [OF that(1)] _ that(3)] that(2) by (simp add: lens_block_def)
  have each: "lens_ok (bytes o1) z \<and> lens_name (bytes o1) z = lens_name (bytes o') z \<and>
      lens_block (bytes o1) z = lens_block (bytes o') z \<and> lens_type (bytes o1) z = lens_type (bytes o') z \<and>
      lens_total_len (bytes o1) z = lens_total_len (bytes o') z \<and>
      lens_next (bytes o1) z = lens_next (bytes o') z \<and> lens_prev (bytes o1) z = lens_prev (bytes o') z"
    if "z \<in> set xs" for z
  proof (cases "z = x")
    case True
    then show ?thesis using lens_data_write [OF C(2) [OF assms(2)] only(2)] by simp
  next
    case False
    then show ?thesis using lens_same [OF C(2) [OF that] other [OF that False]] by simp
  qed
  then show "lens_next (bytes o1) z = lens_next (bytes o') z" if "z \<in> set xs" for z using that by simp
  show same: "same_lenses (set xs) o' o1" using each C(2) by (simp add: same_lenses_def lens_ok_def)
  have img: "lens_block (bytes o1) ` set xs = lens_block (bytes o') ` set xs" using each by simp
  have heap: "heap_inv (oheap o1) (all_blocks o' xs D X)"
  proof (subst only(1), rule heap_inv_set_bytes [OF _ inb [OF assms(2)]])
    show "heap_inv (oheap o') (all_blocks o' xs D X)" using store_relD(5) [OF C(5)] by (simp add: all_blocks_def)
    fix y assume "y \<notin> block_bytes (lens_block (bytes o') x)"
    then show "bytes o1 y = bytes o' y"
      using lens_bytes [OF C(2) [OF assms(2)], of y] len by (intro only(2)) linarith
  qed
  have "dchain (bytes o1) (epoch_defers (header o') ! e) (D e)" if "e < 2" for e
  proof (rule dchain_frame [OF store_relD(2) [OF C(5) that]])
    fix n y assume b: "node_block n \<in> set (dblocks (D e))" "n \<le> y" "y < n + 32"
    then have in': "node_block n \<in> set (dblocks (D 0 @ D 1))" using that by (auto simp: less_2_cases_iff)
    then have "node_block n \<noteq> lens_block (bytes o') x" using store_relD(4) [OF C(5)] assms(2) by blast
    then show "bytes o1 y = bytes o' y"
      using out [of "node_block n" y] in' b(2,3) by (auto simp: all_blocks_def node_bytes)
  qed
  then have "store_rel o1 D (lens_block (bytes o1) ` set xs \<union> X)"
    using store_relD [OF C(5)] heap fields by (simp add: store_rel_def img all_blocks_def)
  moreover have "dlist (lens_next (bytes o1)) (lens_prev (bytes o1)) 0 (lens_head (header o1)) xs"
    unfolding fields by (rule dlist_cong [OF C(3)]) (use each in simp)
  ultimately have "core_rel o1 xs D X" using C each img by (simp add: core_rel_def)
  then show "optics_rel o1 xs D X"
    using R(1) keys_rel_same [OF R(2) same] fields by (simp add: optics_rel_def)
qed

section \<open>The table of polls\<close>

text \<open>
  The table of polls as a map from keys to polls. Every entry of the hash table is the index
  of a poll of its own.
\<close>

definition poll_table :: "poll_ctx \<Rightarrow> string \<Rightarrow> optics_poll option" where
  "poll_table ctx k = map_option (\<lambda>w. polls ctx ! unat w) (ht_abs (cvalues ctx) k)"

definition table_ok :: "poll_ctx \<Rightarrow> bool" where
  "table_ok ctx \<longleftrightarrow> ht_inv (cvalues ctx) \<and> length (polls ctx) = ht_len (cvalues ctx) \<and>
     (\<forall>k w. ht_abs (cvalues ctx) k = Some w \<longrightarrow> unat w < length (polls ctx)) \<and>
     (\<forall>k j w. ht_abs (cvalues ctx) k = Some w \<longrightarrow> ht_abs (cvalues ctx) j = Some w \<longrightarrow> cut_key j = cut_key k)"

text \<open>The poll that a lens is read into: the one of its key, with the longer of the two times, or a new one.\<close>

definition poll_for :: "poll_ctx \<Rightarrow> optics \<Rightarrow> off \<Rightarrow> optics_poll option \<Rightarrow> optics_poll" where
  "poll_for ctx o' x found =
     (case found of
        None \<Rightarrow> \<lparr>phost = chost ctx, pprefix = cprefix ctx, pkey = optics_lens_name o' x,
          pvalue = zero_value (optics_lens_type_of o' x), pts = cts ctx, pelapsed = celapsed ctx\<rparr>
      | Some p \<Rightarrow> p\<lparr>pelapsed := max (pelapsed p) (celapsed ctx)\<rparr>)"

definition same_poll_env :: "poll_ctx \<Rightarrow> poll_ctx \<Rightarrow> bool" where
  "same_poll_env ctx ctx' \<longleftrightarrow> cts ctx' = cts ctx \<and> celapsed ctx' = celapsed ctx \<and> chost ctx' = chost ctx \<and>
     cprefix ctx' = cprefix ctx \<and> cepoch ctx' = cepoch ctx"

lemma longer_elapsed:
  "(if c > pelapsed p then p\<lparr>pelapsed := c\<rparr> else p) = p\<lparr>pelapsed := max (pelapsed p) c\<rparr>"
  by (cases p) (simp add: max_def)

lemma table_set:
  assumes "table_ok ctx" "ht_abs (cvalues ctx) k = Some w"
  shows "poll_table (ctx\<lparr>polls := (polls ctx)[unat w := p]\<rparr>) j = (if cut_key j = cut_key k then Some p else poll_table ctx j)"
proof -
  have w: "unat w < length (polls ctx)" using assms unfolding table_ok_def by blast
  show ?thesis
  proof (cases "cut_key j = cut_key k")
    case True
    then have "ht_abs (cvalues ctx) j = Some w" using assms(2) by (simp add: ht_abs_def)
    then show ?thesis using w True by (simp add: poll_table_def)
  next
    case False
    have "unat v \<noteq> unat w" if "ht_abs (cvalues ctx) j = Some v" for v
      using assms that False unfolding table_ok_def word_unat_eq_iff [symmetric] by blast
    then show ?thesis using False by (cases "ht_abs (cvalues ctx) j") (auto simp: poll_table_def)
  qed
qed

lemma poller_get_value_spec:
  assumes "table_ok ctx" "poller_get_value ctx o' x key = Some (i, ctx1)"
  shows "table_ok ctx1" "same_poll_env ctx ctx1" "crng ctx1 = crng ctx"
    "ht_abs (cvalues ctx1) key = Some (of_nat i)" "unat (of_nat i :: u64) = i"
    "polls ctx1 ! i = poll_for ctx o' x (poll_table ctx key)"
    "\<And>j. cut_key j \<noteq> cut_key key \<Longrightarrow> poll_table ctx1 j = poll_table ctx j"
proof -
  have T: "ht_inv (cvalues ctx)" "length (polls ctx) = ht_len (cvalues ctx)"
      "\<And>k w. ht_abs (cvalues ctx) k = Some w \<Longrightarrow> unat w < length (polls ctx)"
      "\<And>k j w. ht_abs (cvalues ctx) k = Some w \<Longrightarrow> ht_abs (cvalues ctx) j = Some w \<Longrightarrow> cut_key j = cut_key k"
    using assms(1) unfolding table_ok_def by blast+
  obtain r ht where g: "htable_get (cvalues ctx) key = Some (r, ht)" "ht_inv ht" "ht_abs ht = ht_abs (cvalues ctx)"
      "ok r = (ht_abs (cvalues ctx) key \<noteq> None)" "ok r \<longrightarrow> ht_abs (cvalues ctx) key = Some (rvalue r)"
    using htable_get_spec [OF T(1), of key] by blast
  have gl: "ht_len ht = ht_len (cvalues ctx)" using htable_get_len [OF T(1) g(1)] .
  have "table_ok ctx1 \<and> same_poll_env ctx ctx1 \<and> crng ctx1 = crng ctx \<and> ht_abs (cvalues ctx1) key = Some (of_nat i) \<and>
      unat (of_nat i :: u64) = i \<and> polls ctx1 ! i = poll_for ctx o' x (poll_table ctx key) \<and>
      (\<forall>j. cut_key j \<noteq> cut_key key \<longrightarrow> poll_table ctx1 j = poll_table ctx j)"
  proof (cases "ok r")
    case True
    let ?p = "poll_for ctx o' x (poll_table ctx key)"
    have k: "ht_abs (cvalues ctx) key = Some (rvalue r)" using True g(5) by simp
    have e: "i = unat (rvalue r)" "ctx1 = ctx\<lparr>cvalues := ht, polls := (polls ctx)[unat (rvalue r) := ?p]\<rparr>"
      using assms(2) g(1) True k
      by (auto simp: poller_get_value_def Let_def poll_for_def poll_table_def longer_elapsed)
    have t: "poll_table ctx1 j = poll_table (ctx\<lparr>polls := (polls ctx)[unat (rvalue r) := ?p]\<rparr>) j" for j
      using g(3) e(2) by (simp add: poll_table_def)
    have cv: "cvalues ctx1 = ht" "length (polls ctx1) = length (polls ctx)" by (simp_all add: e(2))
    have ok: "table_ok ctx1"
      using assms(1) g(2) unfolding table_ok_def cv g(3) gl by blast
    show ?thesis
      using ok table_set [OF assms(1) k] T(3) [OF k] g(3) k t
      by (simp add: same_poll_env_def e)
  next
    case False
    let ?i = "length (polls ctx)" and ?p = "poll_for ctx o' x (poll_table ctx key)"
    have k: "ht_abs (cvalues ctx) key = None" "ht_abs ht key = None" using False g(3,4) by auto
    obtain r2 ht2 where put: "htable_put ht key (of_nat ?i) = Some (r2, ht2)" "ok r2" "i = ?i"
        "ctx1 = ctx\<lparr>cvalues := ht2, polls := polls ctx @ [?p]\<rparr>"
      using assms(2) g(1) False k
      by (auto simp: poller_get_value_def Let_def poll_for_def poll_table_def split: if_splits option.splits prod.splits)
    have P: "ht_inv ht2" "ht_abs ht2 = key_upd (ht_abs (cvalues ctx)) key (Some (of_nat ?i))"
        "ht_len ht2 = Suc (ht_len ht)"
      using htable_put_spec [OF put(1) g(2)] k(2) g(3) by simp_all
    have small: "unat (of_nat ?i :: u64) = ?i"
      using ht_len_small [OF g(2)] gl T(2) by (simp add: unat_of_nat take_bit_nat_eq_self)
    have ok: "table_ok ctx1"
      unfolding table_ok_def put(4)
    proof (intro conjI allI impI)
      fix k w assume w: "ht_abs (cvalues (ctx\<lparr>cvalues := ht2, polls := polls ctx @ [?p]\<rparr>)) k = Some w"
      then show "unat w < length (polls (ctx\<lparr>cvalues := ht2, polls := polls ctx @ [?p]\<rparr>))"
        using P(2) small T(3) [of k w] by (auto simp: key_upd_def split: if_splits)
      fix j assume "ht_abs (cvalues (ctx\<lparr>cvalues := ht2, polls := polls ctx @ [?p]\<rparr>)) j = Some w"
      then show "cut_key j = cut_key k"
        using w P(2) small T(3) [of k w] T(3) [of j w] T(4) [of k w j] by (auto simp: key_upd_def split: if_splits)
    qed (use P T(2) gl in simp_all)
    have "poll_table ctx1 j = poll_table ctx j" if "cut_key j \<noteq> cut_key key" for j
      using that P(2) T(3) [of j] by (cases "ht_abs (cvalues ctx) j") (auto simp: poll_table_def put(4) key_upd_def nth_append)
    then show ?thesis
      using ok P(2) small put(3) by (simp add: same_poll_env_def put(4) key_upd_def)
  qed
  then show "table_ok ctx1" "same_poll_env ctx ctx1" "crng ctx1 = crng ctx"
    "ht_abs (cvalues ctx1) key = Some (of_nat i)" "unat (of_nat i :: u64) = i"
    "polls ctx1 ! i = poll_for ctx o' x (poll_table ctx key)"
    "\<And>j. cut_key j \<noteq> cut_key key \<Longrightarrow> poll_table ctx1 j = poll_table ctx j" by blast+
qed

section \<open>Polling a lens\<close>

lemma char_of_byte_nil: "char_of_byte b = nil_char \<Longrightarrow> b = 0"
proof -
  assume "char_of_byte b = nil_char"
  then have "of_char (char_of_byte b) = (of_char nil_char :: nat)" by simp
  then have "unat b mod 256 = 0" by (simp add: char_of_byte_def nil_char_def)
  moreover have "unat b < 256" using unsigned_less [of b] by simp
  ultimately show "b = 0" by (simp add: unsigned_eq_0_iff)
qed

lemma cstring_lens_name: "cstring (lens_name m x)"
  by (auto simp: lens_name_def read_cstr_def cstring_def dest!: char_of_byte_nil [OF sym] set_takeWhileD)

text \<open>The key of a lens: prefix, host and name with dots between them, cut to 255 characters.\<close>

definition poll_key :: "string \<Rightarrow> string \<Rightarrow> string \<Rightarrow> string" where
  "poll_key p h name = take 255 (dotted (take 255 (dotted (take 255 p) h)) name)"

lemma poll_key_cut [simp]: "cut_key (poll_key p h name) = poll_key p h name"
  by (simp add: poll_key_def cut_key_def htable_key_max_len_def)

lemma poller_key_str:
  assumes "cstring p" "cstring h" "cstring name"
  obtains key where "poller_key p h name = Some key" "key_str key = poll_key p h name"
proof (rule optics_key_push_spec [OF key_inv_zero(1) assms(1)])
  fix k1 assume k1: "optics_key_push zero_key p = Some (klen zero_key, k1)" "key_inv k1"
    "key_str k1 = take 255 (dotted (key_str zero_key) p)"
  show thesis
  proof (rule optics_key_push_spec [OF k1(2) assms(2)])
    fix k2 assume k2: "optics_key_push k1 h = Some (klen k1, k2)" "key_inv k2" "key_str k2 = take 255 (dotted (key_str k1) h)"
    show thesis
    proof (rule optics_key_push_spec [OF k2(2) assms(3)])
      fix k3 assume k3: "optics_key_push k2 name = Some (klen k2, k3)" "key_str k3 = take 255 (dotted (key_str k2) name)"
      show thesis
        using k1 k2 k3 by (intro that [of k3]) (simp_all add: poller_key_def poll_key_def dotted_def)
    qed
  qed
qed

lemma poller_poll_lens_spec:
  assumes "poller_poll_lens env ctx o' x = Some (ret, ctx', o1)" "table_ok ctx" "cstring (cprefix ctx)" "cstring (chost ctx)"
  defines "k \<equiv> poll_key (cprefix ctx) (chost ctx) (lens_name (bytes o') x)"
  defines "p \<equiv> poll_for ctx o' x (poll_table ctx k)"
  obtains rd v where "poller_read env (crng ctx) o' x (cepoch ctx) (pvalue p) = Some (rd, v, crng ctx', o1)" "ret = optics_ok"
    "table_ok ctx'" "same_poll_env ctx ctx'"
    "\<forall>j. poll_table ctx' j = (if cut_key j = k then Some (p\<lparr>pvalue := v\<rparr>) else poll_table ctx j)"
proof -
  obtain key where key: "poller_key (cprefix ctx) (chost ctx) (lens_name (bytes o') x) = Some key" "key_str key = k"
    using poller_key_str [OF assms(3,4) cstring_lens_name] unfolding k_def by metis
  obtain i ctx1 rd v y where c: "poller_get_value ctx o' x k = Some (i, ctx1)"
      "poller_read env (crng ctx1) o' x (cepoch ctx1) (pvalue (polls ctx1 ! i)) = Some (rd, v, y, o1)" "ret = optics_ok"
      "ctx' = ctx1\<lparr>polls := (polls ctx1)[i := (polls ctx1 ! i)\<lparr>pvalue := v\<rparr>], crng := y\<rparr>"
    using assms(1) key by (auto simp: poller_poll_lens_def optics_lens_name_def bind_eq_Some_conv)
  note G = poller_get_value_spec [OF assms(2) c(1)]
  have P: "polls ctx1 ! i = p" using G(6) by (simp add: p_def)
  have e: "cepoch ctx1 = cepoch ctx" using G(2) by (simp add: same_poll_env_def)
  have cv: "cvalues ctx' = cvalues ctx1" "length (polls ctx') = length (polls ctx1)" by (simp_all add: c(4))
  have kk: "cut_key k = k" by (simp add: k_def)
  show thesis
  proof (rule that)
    show "poller_read env (crng ctx) o' x (cepoch ctx) (pvalue p) = Some (rd, v, crng ctx', o1)"
      using c(2) G(3) P e by (simp add: c(4))
    show "table_ok ctx'" using G(1) unfolding table_ok_def cv .
    show "same_poll_env ctx ctx'" using G(2) by (simp add: same_poll_env_def c(4))
    have "poll_table ctx' j = poll_table (ctx1\<lparr>polls := (polls ctx1)[i := p\<lparr>pvalue := v\<rparr>]\<rparr>) j" for j
      by (simp add: poll_table_def c(4) P)
    then show "\<forall>j. poll_table ctx' j = (if cut_key j = k then Some (p\<lparr>pvalue := v\<rparr>) else poll_table ctx j)"
      using table_set [OF G(1,4)] G(5,7) kk by simp
  qed (rule c(3))
qed

section \<open>Polling a region\<close>

definition poll_inv :: "off list \<Rightarrow> (nat \<Rightarrow> deferred list) \<Rightarrow> (off \<times> nat) set \<Rightarrow> (off \<Rightarrow> off) \<Rightarrow> poll_ctx \<Rightarrow> optics \<Rightarrow> bool" where
  "poll_inv xs D X nx ctx o' \<longleftrightarrow> optics_rel o' xs D X \<and>
     (\<forall>z \<in> set xs. lens_sized (bytes o') z \<and> lens_next (bytes o') z = nx z) \<and>
     table_ok ctx \<and> cepoch ctx < 2 \<and> cstring (cprefix ctx) \<and> cstring (chost ctx)"

lemma lens_sized_same:
  assumes "lens_ok m z" "\<And>y. y \<in> block_bytes (lens_block m z) \<Longrightarrow> m' y = m y" "lens_sized m z"
  shows "lens_sized m' z"
proof -
  have len: "lens_total_len m z \<ge> 64 + lens_lens_len m z" by (simp add: lens_total_len_def sizeof_lens_def)
  have "histo_buckets_len m' (z + 64) = histo_buckets_len m (z + 64)" if "sizeof_lens_histo \<le> lens_lens_len m z"
    unfolding histo_buckets_len_def
    by (rule load_cong, rule assms(2), rule lens_bytes [OF assms(1)]) (use that len in \<open>auto simp: sizeof_lens_histo_def\<close>)
  then show ?thesis using lens_same [OF assms(1,2)] assms(3) by (auto simp: lens_sized_def)
qed

lemma poll_lens_step:
  assumes "poll_inv xs D X nx ctx o'" "x \<in> set xs" "poller_poll_lens env ctx o' x = Some (ret, ctx', o1)"
  shows "poll_inv xs D X nx ctx' o1" "same_lenses (set xs) o' o1" "ret = optics_ok"
    "\<And>z y. z \<in> set xs \<Longrightarrow> z \<noteq> x \<Longrightarrow> y \<in> block_bytes (lens_block (bytes o') z) \<Longrightarrow> bytes o1 y = bytes o' y"
proof -
  have I: "optics_rel o' xs D X" "\<And>z. z \<in> set xs \<Longrightarrow> lens_sized (bytes o') z" "\<And>z. z \<in> set xs \<Longrightarrow> lens_next (bytes o') z = nx z"
      "table_ok ctx" "cepoch ctx < 2" "cstring (cprefix ctx)" "cstring (chost ctx)"
    using assms(1) by (simp_all add: poll_inv_def)
  have ok: "lens_ok (bytes o') z" if "z \<in> set xs" for z
    using core_relD(2) [of o' xs D X z] I(1) that by (simp add: optics_rel_def)
  from assms(3) I(4,6,7) obtain rd v p where s:
      "poller_read env (crng ctx) o' x (cepoch ctx) p = Some (rd, v, crng ctx', o1)" "ret = optics_ok"
      "table_ok ctx'" "same_poll_env ctx ctx'"
    by (rule poller_poll_lens_spec) blast
  note R = poller_read_data [OF s(1) I(5) I(2) [OF assms(2)] ok [OF assms(2)]]
  note W = data_only_rel [OF I(1) assms(2) R(1)]
  have "lens_sized (bytes o1) z" if "z \<in> set xs" for z
    using R(2) lens_sized_same [OF ok [OF that] W(4) [OF that] I(2) [OF that]] by (cases "z = x") auto
  then show "poll_inv xs D X nx ctx' o1"
    using W(1,3) I s(3,4) by (simp add: poll_inv_def same_poll_env_def)
  show "same_lenses (set xs) o' o1" "ret = optics_ok" by (fact W(2) s(2))+
  show "bytes o1 y = bytes o' y" if "z \<in> set xs" "z \<noteq> x" "y \<in> block_bytes (lens_block (bytes o') z)" for z y
    using W(4) [OF that] .
qed

lemma poll_inv_list: "poll_inv xs D X nx ctx o' \<Longrightarrow> list_kept xs nx o'"
  using core_rel_kept [of o' xs D X] by (auto simp: poll_inv_def optics_rel_def list_kept_def)

text \<open>The walk over a region is a visit of all its lenses.\<close>

lemma poll_walk:
  assumes "poll_inv xs D X (lens_next (bytes o')) ctx o'"
  shows "optics_foreach_lens o' ctx (poller_poll_lens env) = visit (poller_poll_lens env) xs ctx o'"
    and "visit (poller_poll_lens env) xs ctx o' = Some (r, ctx', o1) \<Longrightarrow> poll_inv xs D X (lens_next (bytes o')) ctx' o1"
proof -
  have "dlist (lens_next (bytes o')) (lens_prev (bytes o')) 0 (lens_head (header o')) xs"
    using assms core_relD(3) [of o' xs D X] by (simp add: poll_inv_def optics_rel_def)
  have F: "foreach_loop (poller_poll_lens env) ctx o' (lens_head (header o')) = visit (poller_poll_lens env) xs ctx o' \<and>
      (\<forall>r ctx' o1. visit (poller_poll_lens env) xs ctx o' = Some (r, ctx', o1) \<longrightarrow>
        poll_inv xs D X (lens_next (bytes o')) ctx' o1)"
    by (rule foreach_loop_visit [where I = "poll_inv xs D X (lens_next (bytes o'))", OF \<open>dlist _ _ _ _ _\<close> order_refl assms])
      (fact poll_inv_list, rule poll_lens_step(1))
  show "optics_foreach_lens o' ctx (poller_poll_lens env) = visit (poller_poll_lens env) xs ctx o'"
    and "visit (poller_poll_lens env) xs ctx o' = Some (r, ctx', o1) \<Longrightarrow> poll_inv xs D X (lens_next (bytes o')) ctx' o1"
    unfolding optics_foreach_lens_def using F by blast+
qed

text \<open>Polling other lenses leaves a lens and the poll of its key alone.\<close>

definition lens_key :: "poll_ctx \<Rightarrow> optics \<Rightarrow> off \<Rightarrow> string" where
  "lens_key ctx o' x = poll_key (cprefix ctx) (chost ctx) (lens_name (bytes o') x)"

lemma poll_lens_other:
  assumes "poll_inv xs D X nx ctx o'" "z \<in> set xs" "poller_poll_lens env ctx o' z = Some (ret, ctx', o1)"
    and "x \<in> set xs" "z \<noteq> x" "lens_key ctx o' z \<noteq> lens_key ctx o' x"
  shows "poll_table ctx' (lens_key ctx o' x) = poll_table ctx (lens_key ctx o' x)"
    "\<forall>y \<in> block_bytes (lens_block (bytes o') x). bytes o1 y = bytes o' y"
    "same_poll_env ctx ctx'"
proof -
  have I: "table_ok ctx" "cstring (cprefix ctx)" "cstring (chost ctx)" using assms(1) by (simp_all add: poll_inv_def)
  from assms(3) I obtain v where
      s: "\<forall>j. poll_table ctx' j = (if cut_key j = lens_key ctx o' z then Some v else poll_table ctx j)" "same_poll_env ctx ctx'"
    by (rule poller_poll_lens_spec) (auto simp: lens_key_def)
  have "cut_key (lens_key ctx o' x) = lens_key ctx o' x" by (simp add: lens_key_def)
  then show "poll_table ctx' (lens_key ctx o' x) = poll_table ctx (lens_key ctx o' x)" using s(1) assms(6) by simp
  show "\<forall>y \<in> block_bytes (lens_block (bytes o') x). bytes o1 y = bytes o' y"
    using poll_lens_step(4) [OF assms(1-3)] assms(4,5) by blast
  show "same_poll_env ctx ctx'" by (rule s(2))
qed

lemma lens_key_same:
  assumes "same_lenses (set xs) o' o1" "x \<in> set xs" "same_poll_env ctx ctx'"
  shows "lens_key ctx' o1 x = lens_key ctx o' x"
  using assms by (simp add: lens_key_def same_lenses_def same_poll_env_def)

lemma visit_other:
  assumes "poll_inv xs D X nx ctx o'" "set zs \<subseteq> set xs" "x \<in> set xs" "x \<notin> set zs"
    and "\<forall>z \<in> set xs. z \<noteq> x \<longrightarrow> lens_key ctx o' z \<noteq> lens_key ctx o' x"
    and "visit (poller_poll_lens env) zs ctx o' = Some (ret, ctx', o1)"
  shows "ret = optics_ok \<and> poll_table ctx' (lens_key ctx o' x) = poll_table ctx (lens_key ctx o' x) \<and>
    (\<forall>y \<in> block_bytes (lens_block (bytes o') x). bytes o1 y = bytes o' y)"
  using assms
proof (induction zs arbitrary: ctx o')
  case (Cons z zs)
  let ?k = "lens_key ctx o' x"
  have z: "z \<in> set xs" "z \<noteq> x" using Cons.prems(2,4) by auto
  obtain r ctx1 o2 where s: "poller_poll_lens env ctx o' z = Some (r, ctx1, o2)"
    using Cons.prems(6) by (auto simp: bind_eq_Some_conv)
  note S = poll_lens_step [OF Cons.prems(1) z(1) s]
  note O = poll_lens_other [OF Cons.prems(1) z(1) s Cons.prems(3) z(2)]
  have O': "poll_table ctx1 ?k = poll_table ctx ?k" "\<forall>y \<in> block_bytes (lens_block (bytes o') x). bytes o2 y = bytes o' y"
      "same_poll_env ctx ctx1"
    using O Cons.prems(5) z by blast+
  have key: "lens_key ctx1 o2 w = lens_key ctx o' w" if "w \<in> set xs" for w
    using lens_key_same [OF S(2) that O'(3)] .
  have blk: "lens_block (bytes o2) x = lens_block (bytes o') x" using S(2) Cons.prems(3) by (simp add: same_lenses_def)
  have v: "visit (poller_poll_lens env) zs ctx1 o2 = Some (ret, ctx', o1)" using Cons.prems(6) s S(3) by simp
  have "\<forall>w \<in> set xs. w \<noteq> x \<longrightarrow> lens_key ctx1 o2 w \<noteq> lens_key ctx1 o2 x" using Cons.prems(3,5) key by simp
  from Cons.IH [OF S(1) _ Cons.prems(3) _ this v] Cons.prems(2,4)
  show ?case using O'(1,2) blk key [OF Cons.prems(3)] by auto
qed simp

text \<open>What polling a region does to one of its lenses, whose key is its own and not in the table yet.\<close>

lemma visit_reads:
  assumes "poll_inv xs D X nx ctx o'" "set zs \<subseteq> set xs" "distinct zs" "x \<in> set zs"
    and "\<forall>z \<in> set xs. z \<noteq> x \<longrightarrow> lens_key ctx o' z \<noteq> lens_key ctx o' x"
    and "poll_table ctx (lens_key ctx o' x) = None"
    and "visit (poller_poll_lens env) zs ctx o' = Some (ret, ctx', o1)"
  shows "ret = optics_ok \<and> (\<exists>oa y rd v y' ob. (\<forall>b \<in> block_bytes (lens_block (bytes o') x). bytes oa b = bytes o' b) \<and>
    poller_read env y oa x (cepoch ctx) (zero_value (lens_type (bytes o') x)) = Some (rd, v, y', ob) \<and>
    poll_table ctx' (lens_key ctx o' x) = Some ((poll_for ctx o' x None)\<lparr>pvalue := v\<rparr>) \<and>
    (\<forall>b \<in> block_bytes (lens_block (bytes o') x). bytes o1 b = bytes ob b))"
  using assms
proof (induction zs arbitrary: ctx o')
  case (Cons z zs)
  let ?k = "lens_key ctx o' x"
  have x: "x \<in> set xs" "z \<in> set xs" using Cons.prems(2,4) by auto
  have I: "table_ok ctx" "cstring (cprefix ctx)" "cstring (chost ctx)" using Cons.prems(1) by (simp_all add: poll_inv_def)
  obtain r ctx1 o2 where s: "poller_poll_lens env ctx o' z = Some (r, ctx1, o2)"
    using Cons.prems(7) by (auto simp: bind_eq_Some_conv)
  note S = poll_lens_step [OF Cons.prems(1) x(2) s]
  have blk: "lens_block (bytes o2) x = lens_block (bytes o') x" "lens_type (bytes o2) x = lens_type (bytes o') x"
      "lens_name (bytes o2) x = lens_name (bytes o') x"
    using S(2) x(1) by (simp_all add: same_lenses_def)
  have v: "visit (poller_poll_lens env) zs ctx1 o2 = Some (ret, ctx', o1)" using Cons.prems(7) s S(3) by simp
  show ?case
  proof (cases "z = x")
    case True
    from s I obtain rd v where p: "poller_read env (crng ctx) o' x (cepoch ctx) (zero_value (lens_type (bytes o') x)) =
        Some (rd, v, crng ctx1, o2)" "poll_table ctx1 ?k = Some ((poll_for ctx o' x None)\<lparr>pvalue := v\<rparr>)" "same_poll_env ctx ctx1"
      by (rule poller_poll_lens_spec)
        (use Cons.prems(6) True in \<open>auto simp: lens_key_def poll_for_def optics_lens_type_of_def\<close>)
    have key: "lens_key ctx1 o2 w = lens_key ctx o' w" if "w \<in> set xs" for w
      using lens_key_same [OF S(2) that p(3)] .
    have "\<forall>w \<in> set xs. w \<noteq> x \<longrightarrow> lens_key ctx1 o2 w \<noteq> lens_key ctx1 o2 x" using Cons.prems(5) x(1) key by simp
    from visit_other [OF S(1) _ x(1) _ this v] Cons.prems(2,3) True
    have "ret = optics_ok" "poll_table ctx' ?k = poll_table ctx1 ?k"
        "\<forall>y \<in> block_bytes (lens_block (bytes o') x). bytes o1 y = bytes o2 y"
      using key [OF x(1)] blk(1) by auto
    then show ?thesis
      using p(1,2) by - (rule conjI, assumption, rule exI [of _ o'], rule exI [of _ "crng ctx"], rule exI [of _ rd],
        rule exI [of _ v], rule exI [of _ "crng ctx1"], rule exI [of _ o2], simp)
  next
    case False
    note O = poll_lens_other [OF Cons.prems(1) x(2) s x(1) False]
    have O': "poll_table ctx1 ?k = None" "\<forall>y \<in> block_bytes (lens_block (bytes o') x). bytes o2 y = bytes o' y"
        "same_poll_env ctx ctx1"
      using O Cons.prems(5,6) x False by simp_all
    have key: "lens_key ctx1 o2 w = lens_key ctx o' w" if "w \<in> set xs" for w
      using lens_key_same [OF S(2) that O'(3)] .
    have "\<forall>w \<in> set xs. w \<noteq> x \<longrightarrow> lens_key ctx1 o2 w \<noteq> lens_key ctx1 o2 x" using Cons.prems(5) x(1) key by simp
    note IH = Cons.IH [OF S(1) _ _ _ this _ v]
    have pf: "poll_for ctx1 o2 x None = poll_for ctx o' x None" "cepoch ctx1 = cepoch ctx"
      using O'(3) blk by (simp_all add: poll_for_def same_poll_env_def optics_lens_name_def optics_lens_type_of_def)
    have "set zs \<subseteq> set xs" "distinct zs" "x \<in> set zs" "poll_table ctx1 (lens_key ctx1 o2 x) = None"
      using Cons.prems(2-4) False O'(1) key [OF x(1)] by auto
    from IH [OF this] obtain oa y rd v y' ob where i: "ret = optics_ok"
        "\<forall>b \<in> block_bytes (lens_block (bytes o') x). bytes oa b = bytes o2 b"
        "poller_read env y oa x (cepoch ctx) (zero_value (lens_type (bytes o') x)) = Some (rd, v, y', ob)"
        "poll_table ctx' ?k = Some ((poll_for ctx o' x None)\<lparr>pvalue := v\<rparr>)"
        "\<forall>b \<in> block_bytes (lens_block (bytes o') x). bytes o1 b = bytes ob b"
      unfolding blk pf key [OF x(1)] by blast
    have "\<forall>b \<in> block_bytes (lens_block (bytes o') x). bytes oa b = bytes o' b" using i(2) O'(2) by simp
    then show ?thesis using i by blast
  qed
qed simp

section \<open>Properties\<close>

lemma lens_names_differ:
  assumes "optics_rel o' xs D X" "x \<in> set xs" "z \<in> set xs" "lens_name (bytes o') z = lens_name (bytes o') x"
  shows "z = x"
proof -
  have R: "keys_rel o' (set xs)" "core_rel o' xs D X" using assms(1) by (simp_all add: optics_rel_def)
  let ?n = "lens_name (bytes o') x"
  have cut: "cut_key ?n = ?n" using R(1) assms(2) by (intro cut_short) (simp add: keys_rel_def)
  have "ht_abs (okeys o') ?n = Some (of_nat x)" "ht_abs (okeys o') ?n = Some (of_nat z)"
    using keys_rel_lookup [OF R(1)] assms(2-4) cut by metis+
  then have "(of_nat x :: u64) = of_nat z" by simp
  moreover have "x < 18446744073709551616" "z < 18446744073709551616"
    using lens_set_ptr(2) [OF core_rel_set [OF R(2)]] assms(2,3) by auto
  ultimately show "z = x" by (simp add: word_unat_eq_iff unat_of_nat take_bit_nat_eq_self)
qed

text \<open>Keys that are not cut are different for different names.\<close>

lemma poll_key_fits:
  assumes "length p + length h + length name + 2 \<le> 255"
  shows "poll_key p h name = dotted (dotted p h) name"
  using assms by (auto simp: poll_key_def dotted_def)

lemma dotted_inj: "dotted a b = dotted a c \<Longrightarrow> b = c"
  by (simp add: dotted_def split: if_splits)


text \<open>What a report does to the backends.\<close>

lemma poller_report_backends:
  assumes "ht_inv vals"
  shows "poller_report poller vals ps = poller\<lparr>backends := map (\<lambda>b. b\<lparr>bctx :=
    foldl (\<lambda>c (type, poll). bcb b c type poll) (bctx b)
      ((optics_poll_begin, None) # map (\<lambda>(_, w). (optics_poll_metric, Some (ps ! unat w))) (entries (ht_table vals))
        @ [(optics_poll_done, None)])\<rparr>) (backends poller)\<rparr>"
proof -
  have many: "foldl (\<lambda>p (type, poll). poller_backend_record p type poll) q calls =
      q\<lparr>backends := map (\<lambda>b. b\<lparr>bctx := foldl (\<lambda>c (type, poll). bcb b c type poll) (bctx b) calls\<rparr>) (backends q)\<rparr>"
    for q :: "'b optics_poller" and calls
    by (induction calls arbitrary: q) (auto simp: poller_backend_record_def)
  let ?w = "\<lambda>i. bvalue (ht_table vals ! i)"
  have e: "map ?w (htable_walk vals None) = map snd (entries (ht_table vals))"
    using arg_cong [OF conjunct1 [OF htable_walk_all [OF assms]], of "map snd"] by (simp add: comp_def)
  have ws: "map (\<lambda>i. (optics_poll_metric, Some (ps ! unat (?w i)))) (htable_walk vals None) =
      map (\<lambda>(_, w). (optics_poll_metric, Some (ps ! unat w))) (entries (ht_table vals))"
    using arg_cong [OF e, of "map (\<lambda>w. (optics_poll_metric, Some (ps ! unat w)))"] by (simp add: comp_def split_def)
  have "poller_report poller vals ps = foldl (\<lambda>p (type, poll). poller_backend_record p type poll) poller
      ((optics_poll_begin, None) # map (\<lambda>i. (optics_poll_metric, Some (ps ! unat (?w i)))) (htable_walk vals None)
        @ [(optics_poll_done, None)])"
    by (simp add: poller_report_def Let_def foldl_map)
  then show ?thesis unfolding ws many .
qed

text \<open>
  Reporting to the backends. Every backend gets the same calls, on its own state: one that
  begins, one for every entry of the table (each entry once, in the order of the table), and one
  that ends; nothing else of the poller changes.
\<close>

theorem poller_report_calls:
  assumes "ht_inv vals"
  shows "poller_report poller vals ps = poller\<lparr>backends := map (\<lambda>b. b\<lparr>bctx :=
    foldl (\<lambda>c (type, poll). bcb b c type poll) (bctx b)
      ((optics_poll_begin, None) # map (\<lambda>(_, w). (optics_poll_metric, Some (ps ! unat w))) (entries (ht_table vals))
        @ [(optics_poll_done, None)])\<rparr>) (backends poller)\<rparr>"
  by (rule poller_report_backends [OF assms])

theorem poller_report_calls_witness:
  "map bctx (backends (poller_report \<lparr>host = ''node1'', backends = [\<lparr>bctx = [], bcb = \<lambda>c type poll. c @ [type], bfree = None\<rparr>]\<rparr>
     empty_htable [])) = [[optics_poll_begin, optics_poll_done]]"
  by (subst poller_report_calls [OF ht_inv_empty]) (simp add: empty_htable_def)

text \<open>
  The regions of a poll. The list of opened regions never outgrows its array of 128 items, so
  that no write of the callback is past its end; regions found after that are not polled.
\<close>

theorem poller_list_bounded:
  "case snd (shm_foreach os (Some ([], os)) (poller_shm_cb sys files)) of
     None \<Rightarrow> True
   | Some (list, _) \<Rightarrow> length list \<le> poller_max_optics"
proof -
  define room where "room n ctx \<longleftrightarrow> (case ctx of None \<Rightarrow> True | Some (list :: optics list, _ :: os) \<Rightarrow> length list \<le> n)" for n ctx
  let ?cb = "poller_shm_cb sys files"
  have step: "room 128 ctx' \<and> (r = shm_ok \<longrightarrow> room 127 ctx')" if "room 127 ctx" "?cb ctx name = (r, ctx')" for ctx name r ctx'
    using that by (auto simp: room_def poller_shm_cb_def poller_max_optics_def Let_def split: option.splits prod.splits if_splits)
  have "room 128 (snd (shm_loop names ?cb ret ctx))" if "room 127 ctx" for names ret ctx
    using that
  proof (induction names arbitrary: ret ctx)
    case Nil
    then show ?case by (auto simp: room_def split: option.splits)
  next
    case (Cons name names)
    obtain r ctx' where c: "?cb ctx (drop 7 name) = (r, ctx')" by (cases "?cb ctx (drop 7 name)")
    show ?case using Cons.IH [OF Cons.prems, of ret] Cons.IH [of ctx' "Some r"] step [OF Cons.prems c] by (auto simp: c)
  qed
  from this [of "Some ([], os)"] show ?thesis unfolding room_def shm_foreach_def poller_max_optics_def by simp
qed

subsection \<open>A region with one counter\<close>

definition one_counter_mem :: mem where
  "one_counter_mem = store64 (lens_init (\<lambda>_. 0) 704 optics_counter 16 18 ''requests.accepted'') 768 5"

definition one_counter_store :: "htable \<Rightarrow> optics" where
  "one_counter_store ht = \<lparr>oheap = two_block_heap\<lparr>hm := one_counter_mem\<rparr>, header = zero_header\<lparr>lens_head := 704\<rparr>,
     olock = 0, okeys = ht\<rparr>"

lemma one_counter_lens:
  "lens_ok one_counter_mem 704" "lens_name one_counter_mem 704 = ''requests.accepted''"
  "lens_type one_counter_mem 704 = type_code optics_counter" "lens_lens_len one_counter_mem 704 = 16"
  "lens_block one_counter_mem 704 = (704, 7)" "lens_next one_counter_mem 704 = 0" "lens_prev one_counter_mem 704 = 0"
  "load64 one_counter_mem 768 = 5"
  "\<And>y. y \<notin> block_bytes (704, 7) \<Longrightarrow> one_counter_mem y = 0"
proof -
  let ?m = "lens_init (\<lambda>_. 0) 704 optics_counter 16 18 ''requests.accepted''"
  have n: "cstring ''requests.accepted''" "18 = strnlen ''requests.accepted'' 256 + 1"
    by (simp_all add: cstring_def nil_char_def strnlen_def)
  note L = lens_init_spec [where m = "\<lambda>_. 0" and x = 704 and name_len = 18 and lens_len = 16 and type = optics_counter, OF _ _ _ n]
  have m: "lens_ok ?m 704" "lens_name ?m 704 = ''requests.accepted''" "lens_type ?m 704 = type_code optics_counter"
      "lens_lens_len ?m 704 = 16" "lens_total_len ?m 704 = 98" "lens_next ?m 704 = 0" "lens_prev ?m 704 = 0"
    using L by simp_all
  have W: "one_counter_mem y = ?m y" if "y < 704 + 64 \<or> 704 + 64 + lens_lens_len ?m 704 \<le> y" for y
    using that m(4) by (auto simp: one_counter_mem_def store_frame)
  have "class_of 98 = 7"
    by (simp add: class_of_def alloc_class_of_def alloc_config ceil_div_def uadd_def umul_def)
  then show "lens_ok one_counter_mem 704" "lens_name one_counter_mem 704 = ''requests.accepted''"
    "lens_type one_counter_mem 704 = type_code optics_counter" "lens_lens_len one_counter_mem 704 = 16"
    "lens_block one_counter_mem 704 = (704, 7)" "lens_next one_counter_mem 704 = 0" "lens_prev one_counter_mem 704 = 0"
    using lens_data_write [OF m(1) W] m by (simp_all add: lens_block_def)
  show "load64 one_counter_mem 768 = 5" by (simp add: one_counter_mem_def)
  show "one_counter_mem y = 0" if "y \<notin> block_bytes (704, 7)" for y
    using that W [of y] L(9) [of y] m(4) by (auto simp: block_bytes_def class_len_def)
qed

lemma one_counter_rel:
  assumes "htable_put empty_htable ''requests.accepted'' 704 = Some (r, ht)"
  shows "optics_rel (one_counter_store ht) [704] (\<lambda>_. []) {(1000, class_of 40)}"
    and "lens_sized (bytes (one_counter_store ht)) 704"
proof -
  let ?o = "one_counter_store ht"
  note L = one_counter_lens
  have H: "ht_inv ht" "ht_abs ht = key_upd (ht_abs empty_htable) ''requests.accepted'' (Some 704)"
    using htable_put_spec [OF assms ht_inv_empty] by (simp_all add: ht_abs_empty)
  have keys: "keys_rel ?o (set [704])"
    using H L(2) by (auto simp: keys_rel_def one_counter_store_def key_upd_def ht_abs_empty cut_key_def htable_key_max_len_def)
  have "heap_inv (oheap (set_bytes two_block_store one_counter_mem)) {(704, class_of 100), (1000, class_of 40)}"
  proof (rule heap_inv_set_bytes)
    show "heap_inv (oheap two_block_store) {(704, class_of 100), (1000, class_of 40)}"
      using two_block_heap_inv by (simp add: two_block_store_def)
    show "(704, class_of 100) \<in> {(704, class_of 100), (1000, class_of 40)}" by simp
    show "one_counter_mem y = bytes two_block_store y" if "y \<notin> block_bytes (704, class_of 100)" for y
      using that L(9) by (simp add: two_block_store_def two_block_heap_def fresh_heap_def class_of_100_40)
  qed
  then have "heap_inv (oheap ?o) {(704, 7), (1000, class_of 40)}"
    by (simp add: one_counter_store_def set_bytes_def two_block_store_def class_of_100_40)
  then have "store_rel ?o (\<lambda>_. []) {(704, 7), (1000, class_of 40)}"
    by (simp add: store_rel_def one_counter_store_def zero_header_def less_2_cases_iff)
  then have "core_rel ?o [704] (\<lambda>_. []) {(1000, class_of 40)}"
    using L by (simp add: core_rel_def one_counter_store_def insert_commute)
  then show "optics_rel ?o [704] (\<lambda>_. []) {(1000, class_of 40)}"
    using keys by (simp add: optics_rel_def one_counter_store_def)
  show "lens_sized (bytes ?o) 704"
    using L by (simp add: lens_sized_def one_counter_store_def sizeof_lens_counter_def)
qed

text \<open>The first key of a table always fits.\<close>

lemma poller_get_value_first:
  assumes "table_ok ctx" "cvalues ctx = empty_htable"
  obtains i ctx1 where "poller_get_value ctx o' x key = Some (i, ctx1)"
proof -
  obtain r ht where g: "htable_get empty_htable key = Some (r, ht)" "ht_inv ht" "ht_abs ht = ht_abs empty_htable" "\<not> ok r"
    using htable_get_spec [OF ht_inv_empty, of key] by (auto simp: ht_abs_empty)
  have "ht_len ht = 0" using htable_get_len [OF ht_inv_empty g(1)] by (simp add: empty_htable_def)
  from htable_put_first [OF g(2) this, of key "of_nat (length (polls ctx))"] obtain r2 ht2 where
      p: "htable_put ht key (of_nat (length (polls ctx))) = Some (r2, ht2)" by blast
  have "ok r2" using htable_put_spec [OF p g(2)] g(3) by (simp add: ht_abs_empty)
  then show thesis using that g(1,4) p assms(2) by (simp add: poller_get_value_def Let_def)
qed

definition first_poll :: poll_ctx where
  "first_poll = \<lparr>cts = 1000, celapsed = 10, chost = ''node1'', cprefix = ''web'', cepoch = 0, cvalues = empty_htable,
     polls = [], crng = 1\<rparr>"

lemma first_poll_simps [simp]:
  "cts first_poll = 1000" "celapsed first_poll = 10" "chost first_poll = ''node1''" "cprefix first_poll = ''web''"
  "cepoch first_poll = 0" "cvalues first_poll = empty_htable" "polls first_poll = []"
  by (simp_all add: first_poll_def)

lemma first_poll_ok: "table_ok first_poll" "poll_table first_poll k = None"
  "cstring (cprefix first_poll)" "cstring (chost first_poll)"
  by (simp_all add: table_ok_def ht_inv_empty ht_abs_empty poll_table_def cstring_def nil_char_def, simp add: empty_htable_def)

lemma one_counter_polled:
  assumes "htable_put empty_htable ''requests.accepted'' 704 = Some (r, ht)"
  obtains ret ctx' o1 where "optics_foreach_lens (one_counter_store ht) first_poll (poller_poll_lens (qs, [], 0)) = Some (ret, ctx', o1)"
proof -
  let ?o = "one_counter_store ht"
  have I: "poll_inv [704] (\<lambda>_. []) {(1000, class_of 40)} (lens_next (bytes ?o)) first_poll ?o"
    using one_counter_rel [OF assms] first_poll_ok by (simp add: poll_inv_def)
  obtain key where key: "poller_key (cprefix first_poll) (chost first_poll) (lens_name (bytes ?o) 704) = Some key"
    using poller_key_str [OF first_poll_ok(3,4) cstring_lens_name] by metis
  from first_poll_ok(1) first_poll_simps(6) obtain i ctx1 where
      g: "poller_get_value first_poll ?o 704 (key_str key) = Some (i, ctx1)"
    by (rule poller_get_value_first)
  note G = poller_get_value_spec [OF first_poll_ok(1) g]
  have "pvalue (polls ctx1 ! i) = Counter_value 0"
    using G(6) one_counter_lens(3) by (simp add: first_poll_ok(2) poll_for_def zero_value_def optics_lens_type_of_def one_counter_store_def)
  then obtain rd v y o1 where "poller_read (qs, [], 0) (crng ctx1) ?o 704 (cepoch ctx1) (pvalue (polls ctx1 ! i)) = Some (rd, v, y, o1)"
    by (cases "optics_counter_read ?o 704 (cepoch ctx1) 0") (simp add: poller_read_def)
  then show thesis
    using that poll_walk(1) [OF I] key g by (simp add: poller_poll_lens_def optics_lens_name_def)
qed


end
