(* ===== verification/Router.thy ===== *)
theory Router
  imports Prelude
begin

text \<open>
  Paths and routes of the REST server, \<^verbatim>\<open>src/utils/crest/path.c\<close> and \<^verbatim>\<open>src/utils/crest/router.c\<close>. A path
  is cut at its slashes into tokens; a router is a tree with a branch for every constant token,
  one for a wildcard (\<^verbatim>\<open>:name\<close>), a resource for the path that ends here and one for all paths
  that go on (\<^verbatim>\<open>*\<close>).
\<close>

section \<open>Paths\<close>

datatype token_type = token_star | token_wildcard | token_const

record path =
  pi :: nat
  pn :: nat
  pitems :: "string list"

definition max_path_len :: nat where
  "max_path_len = 1024"

text \<open>The first loop counts the tokens from position \<open>i\<close> on.\<close>

function path_count :: "string \<Rightarrow> nat \<Rightarrow> nat" where
  "path_count raw i =
     (if i \<ge> length raw then 0
      else if raw ! i = CHR ''?'' then 0
      else if raw ! i = CHR ''/'' then path_count raw (i + 1)
      else if i \<noteq> 0 \<and> raw ! (i - 1) \<noteq> CHR ''/'' then path_count raw (i + 1)
      else Suc (path_count raw (i + 1)))"
  by pat_completeness auto
termination by (relation "measure (\<lambda>(raw, i). length raw - i)") auto

text \<open>
  The second loop writes nils into the copy \<open>data\<close> of the path and collects where the tokens
  start; it looks at the unchanged \<open>raw\<close>.
\<close>

function path_fill :: "string \<Rightarrow> nat \<Rightarrow> string \<Rightarrow> nat list \<Rightarrow> string \<times> nat list" where
  "path_fill raw i data offs =
     (if i \<ge> length raw then (data, offs)
      else if raw ! i = CHR ''?'' then (data[i := nil_char], offs)
      else if raw ! i = CHR ''/'' then path_fill raw (i + 1) (data[i := nil_char]) offs
      else if i \<noteq> 0 \<and> raw ! (i - 1) \<noteq> CHR ''/'' then path_fill raw (i + 1) data offs
      else path_fill raw (i + 1) data (offs @ [i]))"
  by pat_completeness auto
termination by (relation "measure (\<lambda>(raw, i, data, offs). length raw - i)") auto

text \<open>An item is the C string that starts at its offset.\<close>

definition path_new :: "string \<Rightarrow> path" where
  "path_new raw0 =
     (let raw = take max_path_len raw0;
          (data, offs) = path_fill raw 0 raw []
      in \<lparr>pi = 0, pn = path_count raw 0,
           pitems = map (\<lambda>i. takeWhile (\<lambda>c. c \<noteq> nil_char) (drop i data)) offs\<rparr>)"

definition path_empty :: "path \<Rightarrow> bool" where
  "path_empty path \<longleftrightarrow> pi path = pn path"

definition path_head :: "path \<Rightarrow> string option" where
  "path_head path = (if pi path = pn path then None else Some (pitems path ! pi path))"

definition path_tail :: "path \<Rightarrow> path" where
  "path_tail path = path\<lparr>pi := (if pi path < pn path then pi path + 1 else pn path)\<rparr>"

definition path_tokens :: "path \<Rightarrow> nat" where
  "path_tokens path = pn path"

definition path_token :: "path \<Rightarrow> nat \<Rightarrow> string option" where
  "path_token path i = (if i < pn path then Some (pitems path ! i) else None)"

definition path_token_type :: "string \<Rightarrow> token_type" where
  "path_token_type item =
     (case item of
        [] \<Rightarrow> token_const
      | c # _ \<Rightarrow> if c = CHR ''*'' then token_star else if c = CHR '':'' then token_wildcard else token_const)"

section \<open>Routers\<close>

datatype 'r router = Router (star: "'r option") (exact: "'r option") (wildcards: "'r router option")
  (rconsts: "(string \<times> 'r router) list")

definition empty_router :: "'r router" where
  "empty_router = Router None None None []"

text \<open>Adding to the branch of a constant: in place, or at the end of the array.\<close>

definition router_append :: "(string \<times> 'r router) list \<Rightarrow> string \<Rightarrow> (string \<times> 'r router) list" where
  "router_append cs key = cs @ [(key, empty_router)]"

fun find_const :: "(string \<times> 'a) list \<Rightarrow> string \<Rightarrow> nat \<Rightarrow> nat option" where
  "find_const [] key i = None"
| "find_const ((k, r) # cs) key i = (if k = key then Some i else find_const cs key (i + 1))"

function router_add :: "'r router \<Rightarrow> path \<Rightarrow> 'r \<Rightarrow> bool \<times> 'r router" where
  "router_add (Router st ex w cs) path res =
     (let head = the (path_head path) in
      if path_empty path then
        (if ex \<noteq> None then (False, Router st ex w cs) else (True, Router st (Some res) w cs))
      else if path_token_type head = token_star then
        (if st \<noteq> None then (False, Router st ex w cs) else (True, Router (Some res) ex w cs))
      else
        (let tail = path_tail path in
         if path_token_type head = token_wildcard then
           (case router_add (case w of None \<Rightarrow> empty_router | Some sub \<Rightarrow> sub) tail res of
              (ret, sub') \<Rightarrow> (ret, Router st ex (Some sub') cs))
         else
           (case find_const cs head 0 of
              Some i \<Rightarrow>
                (case router_add (snd (cs ! i)) tail res of
                   (ret, sub') \<Rightarrow> (ret, Router st ex w (cs[i := (fst (cs ! i), sub')])))
            | None \<Rightarrow>
                (let cs1 = router_append cs head;
                     i = length cs1 - 1
                 in case router_add (snd (cs1 ! i)) tail res of
                      (ret, sub') \<Rightarrow> (ret, Router st ex w (cs1[i := (fst (cs1 ! i), sub')]))))))"
  by pat_completeness auto

lemma path_tail_less:
  "\<not> path_empty p \<Longrightarrow> (if pi (path_tail p) \<le> pn (path_tail p) then pn (path_tail p) - pi (path_tail p) else 1) <
     (if pi p \<le> pn p then pn p - pi p else 1)"
  by (auto simp: path_tail_def path_empty_def)

termination router_add
  by (relation "measure (\<lambda>(r, p, res). if pi p \<le> pn p then pn p - pi p else 1)") (simp_all add: path_tail_less)

text \<open>The first of two results that is one.\<close>

function router_route :: "'r router \<Rightarrow> path \<Rightarrow> 'r option" where
  "router_route (Router st ex w cs) path =
     (if path_empty path then (if ex \<noteq> None then ex else st)
      else
        (let tail = path_tail path;
             found = (case find_const cs (the (path_head path)) 0 of
                        None \<Rightarrow> None
                      | Some i \<Rightarrow> router_route (snd (cs ! i)) tail)
         in if found \<noteq> None then found
            else
              (let wild = (case w of None \<Rightarrow> None | Some sub \<Rightarrow> router_route sub tail)
               in if wild \<noteq> None then wild else st)))"
  by pat_completeness auto
termination
  by (relation "measure (\<lambda>(r, p). if pi p \<le> pn p then pn p - pi p else 1)") (simp_all add: path_tail_less)

declare path_count.simps [simp del] path_fill.simps [simp del] router_add.simps [simp del] router_route.simps [simp del]

section \<open>The tokens of a path\<close>

text \<open>What a path is cut into: the pieces between slashes that are not empty, up to a question mark.\<close>

fun split_slash :: "string \<Rightarrow> string list" where
  "split_slash [] = [[]]"
| "split_slash (c # cs) = (if c = CHR ''/'' then [] # split_slash cs else (c # hd (split_slash cs)) # tl (split_slash cs))"

definition url_tokens :: "string \<Rightarrow> string list" where
  "url_tokens url = filter (\<lambda>t. t \<noteq> []) (split_slash (takeWhile (\<lambda>c. c \<noteq> CHR ''?'') url))"

text \<open>
  The loops, as recursions over the rest of the path; \<open>p\<close> says that the character before is a
  slash, or that there is none.
\<close>

fun starts :: "bool \<Rightarrow> nat \<Rightarrow> string \<Rightarrow> nat list" where
  "starts p i [] = []"
| "starts p i (c # cs) =
     (if c = CHR ''?'' then [] else if c = CHR ''/'' then starts True (i + 1) cs
      else if p then i # starts False (i + 1) cs else starts False (i + 1) cs)"

fun masked :: "string \<Rightarrow> string" where
  "masked [] = []"
| "masked (c # cs) =
     (if c = CHR ''?'' then nil_char # cs else if c = CHR ''/'' then nil_char # masked cs else c # masked cs)"

fun toks :: "bool \<Rightarrow> string \<Rightarrow> string list" where
  "toks p [] = []"
| "toks p (c # cs) =
     (if c = CHR ''?'' then [] else if c = CHR ''/'' then toks True cs
      else if p then takeWhile (\<lambda>c. c \<noteq> CHR ''/'' \<and> c \<noteq> CHR ''?'') (c # cs) # toks False cs else toks False cs)"

abbreviation fresh_at :: "string \<Rightarrow> nat \<Rightarrow> bool" where
  "fresh_at raw i \<equiv> i = 0 \<or> raw ! (i - 1) = CHR ''/''"

lemma path_count_starts: "path_count raw i = length (starts (fresh_at raw i) i (drop i raw))"
proof (induction raw i rule: path_count.induct)
  case (1 raw i)
  show ?case
  proof (cases "i < length raw")
    case True
    note d = Cons_nth_drop_Suc [OF True, symmetric]
    show ?thesis
      by (subst path_count.simps) (use 1 True in \<open>auto simp: d\<close>)
  qed (subst path_count.simps, simp)
qed

lemma path_fill_starts:
  "drop i data = drop i raw \<Longrightarrow> length data = length raw \<Longrightarrow>
     path_fill raw i data offs = (take i data @ masked (drop i raw), offs @ starts (fresh_at raw i) i (drop i raw))"
proof (induction raw i data offs rule: path_fill.induct)
  case (1 raw i data offs)
  show ?case
  proof (cases "i < length raw")
    case True
    note d = Cons_nth_drop_Suc [OF True, symmetric]
    have dd: "drop (Suc i) data = drop (Suc i) raw" "data ! i = raw ! i"
      using 1(4,5) True d Cons_nth_drop_Suc [of i data, symmetric] by simp_all
    have t: "take (Suc i) data = take i data @ [raw ! i]" using True 1(5) dd(2) by (simp add: take_Suc_conv_app_nth)
    have u: "data[i := x] = take i data @ x # drop (Suc i) raw" for x
      using True 1(5) dd(1) by (simp add: upd_conv_take_nth_drop)
    show ?thesis
      by (subst path_fill.simps) (use 1 True dd in \<open>auto simp: d t u\<close>)
  next
    case False
    then show ?thesis using 1(5) by (subst path_fill.simps) simp
  qed
qed

lemma takeWhile_masked:
  "nil_char \<notin> set s \<Longrightarrow> takeWhile (\<lambda>c. c \<noteq> nil_char) (masked s) = takeWhile (\<lambda>c. c \<noteq> CHR ''/'' \<and> c \<noteq> CHR ''?'') s"
  by (induction s) auto

lemma starts_ge: "j \<in> set (starts p i s) \<Longrightarrow> i \<le> j"
  by (induction p i s rule: starts.induct) (auto split: if_splits)

lemma starts_toks:
  "nil_char \<notin> set s \<Longrightarrow>
     map (\<lambda>j. takeWhile (\<lambda>c. c \<noteq> nil_char) (drop (j - i) (masked s))) (starts p i s) = toks p s"
proof (induction p i s rule: starts.induct)
  case (2 p i c cs)
  have shift: "map (\<lambda>j. takeWhile (\<lambda>c. c \<noteq> nil_char) (drop (j - i) (x # ms))) (starts q (Suc i) cs) =
      map (\<lambda>j. takeWhile (\<lambda>c. c \<noteq> nil_char) (drop (j - Suc i) ms)) (starts q (Suc i) cs)" for x ms q
    by (rule map_cong [OF refl]) (auto dest!: starts_ge simp: drop_Cons' Suc_diff_Suc)
  show ?case
    using 2 takeWhile_masked [of "c # cs"] by (auto simp: shift simp del: takeWhile.simps)
qed simp

lemma split_ne: "split_slash s \<noteq> []"
  by (cases s) auto

lemma split_hd: "hd (split_slash s) = takeWhile (\<lambda>c. c \<noteq> CHR ''/'') s"
  by (induction s) auto

lemma toks_split:
  "toks True s = url_tokens s"
  "toks False s = filter (\<lambda>t. t \<noteq> []) (tl (split_slash (takeWhile (\<lambda>c. c \<noteq> CHR ''?'') s)))"
proof (induction s)
  case (Cons c cs)
  let ?b = "takeWhile (\<lambda>c. c \<noteq> CHR ''?'') cs"
  have tw: "takeWhile (\<lambda>c. c \<noteq> CHR ''/'') (takeWhile (\<lambda>c. c \<noteq> CHR ''?'') cs) =
      takeWhile (\<lambda>c. c \<noteq> CHR ''/'' \<and> c \<noteq> CHR ''?'') cs" for cs :: string
    by (induction cs) auto
  show "toks True (c # cs) = url_tokens (c # cs)"
    using Cons split_hd [of ?b] tw [of cs] by (auto simp: url_tokens_def)
  show "toks False (c # cs) = filter (\<lambda>t. t \<noteq> []) (tl (split_slash (takeWhile (\<lambda>c. c \<noteq> CHR ''?'') (c # cs))))"
    using Cons by (auto simp: url_tokens_def)
qed (simp_all add: url_tokens_def)

lemma path_new_spec:
  assumes "cstring raw"
  shows "pitems (path_new raw) = url_tokens (take 1024 raw) \<and> pn (path_new raw) = length (url_tokens (take 1024 raw)) \<and>
    pi (path_new raw) = 0"
proof -
  let ?r = "take 1024 raw"
  have c: "nil_char \<notin> set ?r" using cstring_take [OF assms, of 1024] by (simp add: cstring_def)
  have "path_fill ?r 0 ?r [] = (masked ?r, starts True 0 ?r)" using path_fill_starts [of 0 ?r ?r "[]"] by simp
  moreover have "map (\<lambda>j. takeWhile (\<lambda>c. c \<noteq> nil_char) (drop j (masked ?r))) (starts True 0 ?r) = toks True ?r"
    using starts_toks [OF c, of 0 True] by simp
  moreover have "length (starts True 0 ?r) = length (toks True ?r)"
    using arg_cong [OF starts_toks [OF c, of 0 True], of length] by simp
  ultimately show ?thesis
    using path_count_starts [of ?r 0] by (simp add: path_new_def max_path_len_def toks_split Let_def)
qed

text \<open>
  C23: Cutting a path. \<open>path_new\<close> finds the tokens of the first 1024 characters: the pieces between
  slashes that are not empty, up to a question mark. The count of its first loop is the
  number of items that its second loop stores, so the array is filled exactly.
\<close>

theorem path_new_tokens:
  assumes "cstring raw"
  shows "pitems (path_new raw) = url_tokens (take 1024 raw) \<and> pn (path_new raw) = length (url_tokens (take 1024 raw)) \<and>
    pi (path_new raw) = 0"
  by (rule path_new_spec [OF assms])

theorem path_new_tokens_witness:
  "pitems (path_new ''/metrics//json?pretty=1'') = [''metrics'', ''json'']"
proof -
  have "cstring ''/metrics//json?pretty=1''" by (simp add: cstring_def nil_char_def)
  from path_new_tokens [OF this] show ?thesis by (simp add: url_tokens_def)
qed

section \<open>The routes of a router\<close>

text \<open>A pattern: constants, wildcards and at the end perhaps a star. What it matches.\<close>

datatype tok = Const string | Wild | Star

fun pattern :: "string list \<Rightarrow> tok list" where
  "pattern [] = []"
| "pattern (t # ts) =
     (case path_token_type t of
        token_star \<Rightarrow> [Star]
      | token_wildcard \<Rightarrow> Wild # pattern ts
      | token_const \<Rightarrow> Const t # pattern ts)"

fun matches :: "tok list \<Rightarrow> string list \<Rightarrow> bool" where
  "matches [] ts = (ts = [])"
| "matches (Star # ps) ts = (ps = [])"
| "matches (Const s # ps) ts = (case ts of [] \<Rightarrow> False | t # ts' \<Rightarrow> s = t \<and> matches ps ts')"
| "matches (Wild # ps) ts = (case ts of [] \<Rightarrow> False | t # ts' \<Rightarrow> matches ps ts')"

text \<open>\<open>before p q\<close>: where two patterns differ first, \<open>p\<close> has a constant or ends, or \<open>q\<close> has a star.\<close>

fun before :: "tok list \<Rightarrow> tok list \<Rightarrow> bool" where
  "before [] q = (q \<noteq> [])"
| "before (Const s # p) (Const t # q) = before p q"
| "before (Const s # p) (x # q) = True"
| "before (Wild # p) (Wild # q) = before p q"
| "before (Wild # p) (Star # q) = True"
| "before _ _ = False"

text \<open>The resource that a router has for a pattern.\<close>

fun routes :: "'r router \<Rightarrow> tok list \<Rightarrow> 'r option" where
  "routes (Router st ex w cs) [] = ex"
| "routes (Router st ex w cs) (Star # ps) = (if ps = [] then st else None)"
| "routes (Router st ex w cs) (Wild # ps) = (case w of None \<Rightarrow> None | Some r \<Rightarrow> routes r ps)"
| "routes (Router st ex w cs) (Const s # ps) = (case map_of cs s of None \<Rightarrow> None | Some r \<Rightarrow> routes r ps)"

definition left :: "path \<Rightarrow> string list" where
  "left p = drop (pi p) (pitems p)"

definition path_ok :: "path \<Rightarrow> bool" where
  "path_ok p \<longleftrightarrow> pi p \<le> pn p \<and> pn p = length (pitems p)"

lemma path_rest:
  assumes "path_ok p"
  shows "path_empty p \<longleftrightarrow> left p = []"
    and "left p = t # ts \<Longrightarrow> path_head p = Some t \<and> left (path_tail p) = ts \<and> path_ok (path_tail p)"
proof -
  show "path_empty p \<longleftrightarrow> left p = []" using assms by (auto simp: path_empty_def left_def path_ok_def)
  assume r: "left p = t # ts"
  then have "pi p < length (pitems p)" using assms by (cases "pi p < length (pitems p)") (simp_all add: left_def)
  then show "path_head p = Some t \<and> left (path_tail p) = ts \<and> path_ok (path_tail p)"
    using r assms Cons_nth_drop_Suc [of "pi p" "pitems p"]
    by (auto simp: path_head_def path_tail_def left_def path_ok_def)
qed

lemma find_const_map:
  "find_const cs k i = None \<longleftrightarrow> map_of cs k = None"
  "find_const cs k i = Some j \<Longrightarrow> i \<le> j \<and> j - i < length cs \<and> map_of cs k = Some (snd (cs ! (j - i))) \<and> fst (cs ! (j - i)) = k \<and>
     map_of (cs[j - i := (k, r)]) = (map_of cs)(k \<mapsto> r)"
proof (induction cs arbitrary: i)
  case (Cons c cs)
  obtain k' r' where c: "c = (k', r')" by (cases c)
  {
    case 1
    then show ?case using Cons.IH(1) by (auto simp: c)
  next
    case 2
    show ?case
    proof (cases "k' = k")
      case True
      then show ?thesis using 2 by (auto simp: c)
    next
      case False
      then have "find_const cs k (i + 1) = Some j" using 2 by (simp add: c)
      note IH = Cons.IH(2) [OF this]
      then have "j - i = Suc (j - (i + 1))" by linarith
      then show ?thesis using IH False by (auto simp: c fun_upd_twist)
    qed
  }
qed simp_all

lemma routes_empty [simp]: "routes empty_router ps = None"
proof (cases ps)
  case (Cons t ts)
  then show ?thesis by (cases t) (simp_all add: empty_router_def)
qed (simp add: empty_router_def)

definition add_route :: "('p \<Rightarrow> 'r option) \<Rightarrow> 'p \<Rightarrow> 'r \<Rightarrow> bool \<Rightarrow> ('p \<Rightarrow> 'r option) \<Rightarrow> bool" where
  "add_route m q res ok m' \<longleftrightarrow> ok = (m q = None) \<and> m' = (if m q = None then m(q \<mapsto> res) else m)"

text \<open>Adding below a branch: the routes of the branch are the routes that start with its token.\<close>

lemma add_route_below:
  assumes "add_route (routes sub) q res ok (routes sub')"
    and "\<And>qs. routes r (t # qs) = routes sub qs" "\<And>qs. routes r' (t # qs) = routes sub' qs"
    and "\<And>ps. \<forall>qs. ps \<noteq> t # qs \<Longrightarrow> routes r' ps = routes r ps"
  shows "add_route (routes r) (t # q) res ok (routes r')"
proof -
  have "routes r' ps = (if routes r (t # q) = None then (routes r)(t # q \<mapsto> res) else routes r) ps" for ps
  proof (cases "\<exists>qs. ps = t # qs")
    case True
    then show ?thesis using assms(1-3) by (auto simp: add_route_def split: if_splits)
  next
    case False
    then show ?thesis using assms(4) [of ps] by auto
  qed
  then have "routes r' = (if routes r (t # q) = None then (routes r)(t # q \<mapsto> res) else routes r)" by (rule ext)
  then show ?thesis using assms(1,2) unfolding add_route_def by simp
qed

lemma router_add_routes:
  assumes "path_ok p" "router_add r p res = (ok, r')"
  shows "add_route (routes r) (pattern (left p)) res ok (routes r')"
  using assms
proof (induction r p res arbitrary: ok r' rule: router_add.induct)
  case (1 st ex w cs p res)
  let ?r = "Router st ex w cs"
  show ?case
  proof (cases "left p")
    case Nil
    have eq: "routes (Router st (Some res) w cs) ps = ((routes ?r)([] \<mapsto> res)) ps" for ps
    proof (cases ps)
      case (Cons t ts)
      then show ?thesis by (cases t) simp_all
    qed simp
    show ?thesis
      using 1(5,4) Nil path_rest(1) [OF 1(4)] eq by (auto simp: router_add.simps [of st] add_route_def split: if_splits)
  next
    case (Cons t ts)
    note P = path_rest(2) [OF 1(4) Cons]
    have ne: "\<not> path_empty p" "the (path_head p) = t" using path_rest(1) [OF 1(4)] Cons P by auto
    show ?thesis
    proof (cases "path_token_type t")
      case token_star
      have eq: "routes (Router (Some res) ex w cs) ps = ((routes ?r)([Star] \<mapsto> res)) ps" for ps
      proof (cases ps)
        case (Cons t ts)
        then show ?thesis by (cases t) simp_all
      qed simp
      show ?thesis
        using 1(5) ne token_star Cons eq by (auto simp: router_add.simps [of st] add_route_def split: if_splits)
    next
      case token_wildcard
      let ?sub = "case w of None \<Rightarrow> empty_router | Some sub \<Rightarrow> sub"
      obtain sub' where a: "router_add ?sub (path_tail p) res = (ok, sub')" "r' = Router st ex (Some sub') cs"
        using 1(5) ne token_wildcard by (auto simp: router_add.simps [of st] Let_def split: prod.splits)
      have "add_route (routes ?sub) (pattern ts) res ok (routes sub')"
        using 1(1) [OF refl ne(1), of "path_tail p" ok sub'] ne P a(1) token_wildcard by auto
      then have "add_route (routes ?r) (Wild # pattern ts) res ok (routes r')"
      proof (rule add_route_below)
        show "routes ?r (Wild # qs) = routes ?sub qs" for qs by (cases w) simp_all
        show "routes r' ps = routes ?r ps" if "\<forall>qs. ps \<noteq> Wild # qs" for ps
        proof (cases ps)
          case (Cons t ts)
          then show ?thesis using that a(2) by (cases t) simp_all
        qed (use a(2) in simp)
      qed (use a(2) in simp)
      then show ?thesis using Cons token_wildcard by simp
    next
      case token_const
      have other: "routes (Router st ex w cs') ps = routes ?r ps"
        if "\<forall>qs. ps \<noteq> Const t # qs" "\<And>k. k \<noteq> t \<Longrightarrow> map_of cs' k = map_of cs k" for cs' ps
      proof (cases ps)
        case (Cons x xs)
        then show ?thesis using that by (cases x) simp_all
      qed simp
      have "add_route (routes ?r) (Const t # pattern ts) res ok (routes r')"
      proof (cases "find_const cs t 0")
        case None
        then have m: "map_of cs t = None" using find_const_map(1) by metis
        obtain sub' where a: "router_add empty_router (path_tail p) res = (ok, sub')" "r' = Router st ex w (cs @ [(t, sub')])"
          using 1(5) ne token_const None by (auto simp: router_add.simps [of st] router_append_def Let_def nth_append split: prod.splits)
        have "add_route (routes empty_router) (pattern ts) res ok (routes sub')"
          using 1(2) [OF refl ne(1) _ refl _ _ refl refl, of ok sub'] ne P a(1) token_const None
          by (simp add: router_append_def nth_append del: routes_empty)
        then show ?thesis
          by (rule add_route_below) (use m a(2) other [of _ "cs @ [(t, sub')]"] in \<open>auto simp: map_add_def split: option.splits\<close>)
      next
        case (Some i)
        have m: "i < length cs" "map_of cs t = Some (snd (cs ! i))" "fst (cs ! i) = t"
            "\<And>r. map_of (cs[i := (t, r)]) = (map_of cs)(t \<mapsto> r)"
          using find_const_map(2) [OF Some] by auto
        obtain sub' where a: "router_add (snd (cs ! i)) (path_tail p) res = (ok, sub')" "r' = Router st ex w (cs[i := (t, sub')])"
          using 1(5) ne token_const Some m(3) by (auto simp: router_add.simps [of st] Let_def split: prod.splits)
        have "add_route (routes (snd (cs ! i))) (pattern ts) res ok (routes sub')"
          using 1(3) [OF refl ne(1)] ne P a(1) token_const Some by auto
        then show ?thesis
          by (rule add_route_below) (use m a(2) other [of _ "cs[i := (t, sub')]"] in auto)
      qed
      then show ?thesis using Cons token_const by simp
    qed
  qed
qed

text \<open>What routing promises: the best route of those that match, if there is one.\<close>

definition best_route :: "(tok list \<Rightarrow> 'r option) \<Rightarrow> string list \<Rightarrow> 'r option \<Rightarrow> bool" where
  "best_route m ts found \<longleftrightarrow>
     (case found of
        None \<Rightarrow> \<forall>q. matches q ts \<longrightarrow> m q = None
      | Some res \<Rightarrow> \<exists>q. matches q ts \<and> m q = Some res \<and> (\<forall>q'. matches q' ts \<longrightarrow> m q' \<noteq> None \<longrightarrow> q' = q \<or> before q q'))"

lemma best_routeI:
  assumes "matches q ts" "m q = Some res" "\<And>q'. matches q' ts \<Longrightarrow> m q' \<noteq> None \<Longrightarrow> q' = q \<or> before q q'"
  shows "best_route m ts (Some res)"
  using assms unfolding best_route_def by auto

lemma matches_Cons:
  "matches q (t # ts) \<longleftrightarrow> q = [Star] \<or> (\<exists>ps. q = Const t # ps \<and> matches ps ts) \<or> (\<exists>ps. q = Wild # ps \<and> matches ps ts)"
proof (cases q)
  case (Cons x xs)
  then show ?thesis by (cases x) auto
qed simp

lemma matches_Nil: "matches q [] \<longleftrightarrow> q = [] \<or> q = [Star]"
proof (cases q)
  case (Cons x xs)
  then show ?thesis by (cases x) auto
qed simp

lemma router_route_best:
  assumes "path_ok p"
  shows "best_route (routes r) (left p) (router_route r p)"
  using assms
proof (induction r p rule: router_route.induct)
  case (1 st ex w cs p)
  let ?r = "Router st ex w cs"
  show ?case
  proof (cases "left p")
    case Nil
    then have eq: "router_route ?r p = (if ex \<noteq> None then ex else st)"
      using path_rest(1) [OF 1(3)] by (simp add: router_route.simps [of st])
    have "best_route (routes ?r) [] (Some x)" if "ex = Some x" for x
      by (rule best_routeI [of "[]"]) (use that in \<open>auto simp: matches_Nil\<close>)
    moreover have "best_route (routes ?r) [] (Some x)" if "ex = None" "st = Some x" for x
      by (rule best_routeI [of "[Star]"]) (use that in \<open>auto simp: matches_Nil\<close>)
    moreover have "best_route (routes ?r) [] None" if "ex = None" "st = None"
      using that by (simp add: best_route_def matches_Nil)
    ultimately show ?thesis unfolding eq Nil by (cases ex; cases st) simp_all
  next
    case (Cons t ts)
    note P = path_rest(2) [OF 1(3) Cons]
    have ne: "\<not> path_empty p" "the (path_head p) = t" using path_rest(1) [OF 1(3)] Cons P by auto
    define C where "C = (case map_of cs t of None \<Rightarrow> None | Some sub \<Rightarrow> router_route sub (path_tail p))"
    define W where "W = (case w of None \<Rightarrow> None | Some sub \<Rightarrow> router_route sub (path_tail p))"
    have fc: "(case find_const cs t 0 of None \<Rightarrow> None | Some i \<Rightarrow> router_route (snd (cs ! i)) (path_tail p)) = C"
    proof (cases "find_const cs t 0")
      case None
      then show ?thesis using find_const_map(1) [of cs t 0] by (simp add: C_def)
    next
      case (Some i)
      then show ?thesis using find_const_map(2) [OF Some] by (simp add: C_def)
    qed
    have eq: "router_route ?r p = (if C \<noteq> None then C else if W \<noteq> None then W else st)"
      unfolding router_route.simps [of st] ne(2) Let_def fc W_def using ne(1) by simp
    have c: "best_route (routes sub) ts (router_route sub (path_tail p))" if m: "map_of cs t = Some sub" for sub
    proof (cases "find_const cs t 0")
      case None
      then show ?thesis using find_const_map(1) [of cs t 0] m by simp
    next
      case (Some i)
      then have "snd (cs ! i) = sub" using find_const_map(2) [OF Some] m by auto
      then show ?thesis using 1(1) [OF ne(1) refl, of i] ne(2) Some P by simp
    qed
    have wd: "best_route (routes sub) ts (router_route sub (path_tail p))" if "C = None" "w = Some sub" for sub
      using 1(2) [OF ne(1) refl refl _ that(2)] unfolding ne(2) fc using that(1) P by blast
    have cn: "routes ?r (Const t # ps) = None" if "C = None" "matches ps ts" for ps
      using that c by (cases "map_of cs t") (simp_all add: best_route_def C_def)
    have wn: "routes ?r (Wild # ps) = None" if "C = None" "W = None" "matches ps ts" for ps
      using that wd by (cases w) (simp_all add: best_route_def W_def)
    consider (const) res where "C = Some res" | (wild) res where "C = None" "W = Some res" | (star) "C = None" "W = None"
      by (cases C; cases W; blast)
    then show ?thesis
    proof cases
      case (const res)
      then obtain sub where m: "map_of cs t = Some sub" "router_route sub (path_tail p) = Some res"
        by (cases "map_of cs t") (simp_all add: C_def)
      obtain q where q: "matches q ts" "routes sub q = Some res"
          "\<forall>q' y. matches q' ts \<longrightarrow> routes sub q' = Some y \<longrightarrow> q' = q \<or> before q q'"
        using c [OF m(1)] m(2) by (auto simp: best_route_def)
      have "best_route (routes ?r) (t # ts) (Some res)"
        by (rule best_routeI [of "Const t # q"]) (use q m(1) in \<open>auto simp: matches_Cons\<close>)
      then show ?thesis unfolding eq Cons const by simp
    next
      case (wild res)
      then obtain sub where m: "w = Some sub" "router_route sub (path_tail p) = Some res" by (cases w) (simp_all add: W_def)
      obtain q where q: "matches q ts" "routes sub q = Some res"
          "\<forall>q' y. matches q' ts \<longrightarrow> routes sub q' = Some y \<longrightarrow> q' = q \<or> before q q'"
        using wd [OF wild(1) m(1)] m(2) by (auto simp: best_route_def)
      have "best_route (routes ?r) (t # ts) (Some res)"
        by (rule best_routeI [of "Wild # q"]) (use q m(1) cn [OF wild(1)] in \<open>auto simp: matches_Cons\<close>)
      then show ?thesis unfolding eq Cons wild by simp
    next
      case star
      have "best_route (routes ?r) (t # ts) st"
      proof (cases st)
        case None
        then show ?thesis using cn [OF star(1)] wn [OF star] by (auto simp: best_route_def matches_Cons simp del: routes.simps(3,4))
      next
        case (Some res)
        then show ?thesis
          using cn [OF star(1)] wn [OF star] by (auto simp: matches_Cons simp del: routes.simps(3,4) intro!: best_routeI [of "[Star]"])
      qed
      then show ?thesis unfolding eq Cons star by simp
    qed
  qed
qed

lemma path_new_ok: "cstring url \<Longrightarrow> path_ok (path_new url) \<and> left (path_new url) = url_tokens (take 1024 url)"
  using path_new_spec [of url] by (simp add: path_ok_def left_def)

section \<open>Properties\<close>

text \<open>
  C11: Adding a route. A router implements a map from patterns to resources: adding a resource
  succeeds exactly when its pattern has none, and then that pattern has it and every other
  pattern has what it had; a refused resource changes no route.
\<close>

theorem router_add_refines:
  assumes "cstring url" "router_add r (path_new url) res = (ok, r')"
  shows "ok = (routes r (pattern (url_tokens (take 1024 url))) = None) \<and>
    routes r' = (if ok then (routes r)(pattern (url_tokens (take 1024 url)) \<mapsto> res) else routes r)"
  using router_add_routes [of "path_new url" r res ok r'] path_new_ok [OF assms(1)] assms(2)
  by (auto simp: add_route_def)

theorem router_add_refines_witness:
  "\<exists>r1. router_add empty_router (path_new ''/metrics/json'') (7 :: nat) = (True, r1) \<and>
     routes r1 [Const ''metrics'', Const ''json''] = Some 7 \<and> fst (router_add r1 (path_new ''/metrics/json'') 8) = False"
proof -
  have c: "cstring ''/metrics/json''" by (simp add: cstring_def nil_char_def)
  have p: "pattern (url_tokens (take 1024 ''/metrics/json'')) = [Const ''metrics'', Const ''json'']"
    by (simp add: url_tokens_def path_token_type_def)
  obtain ok r1 where r1: "router_add empty_router (path_new ''/metrics/json'') (7 :: nat) = (ok, r1)" by (cases "router_add empty_router (path_new ''/metrics/json'') (7 :: nat)")
  obtain ok2 r2 where r2: "router_add r1 (path_new ''/metrics/json'') 8 = (ok2, r2)" by (cases "router_add r1 (path_new ''/metrics/json'') 8")
  have a: "ok" "routes r1 [Const ''metrics'', Const ''json''] = Some 7"
    using router_add_refines [OF c r1] by (simp_all only: p) (simp_all only: routes_empty fun_upd_same if_True simp_thms)
  moreover have "\<not> ok2" using router_add_refines [OF c r2] by (simp only: p a(2)) simp
  ultimately show ?thesis using r1 r2 by simp
qed

text \<open>
  C10: Routing. The resource of a request is that of the best of the registered patterns which match
  its path: constants are preferred to wildcards and wildcards to stars at the first place
  where two patterns differ, and a dead end below a constant is left again for the wildcard
  and the star. If no resource is found then no registered pattern matches.
\<close>

theorem router_route_best_match:
  assumes "cstring url"
  shows "case router_route r (path_new url) of
      None \<Rightarrow> \<forall>q. matches q (url_tokens (take 1024 url)) \<longrightarrow> routes r q = None
    | Some res \<Rightarrow> \<exists>q. matches q (url_tokens (take 1024 url)) \<and> routes r q = Some res \<and>
        (\<forall>q'. matches q' (url_tokens (take 1024 url)) \<longrightarrow> routes r q' \<noteq> None \<longrightarrow> q' = q \<or> before q q')"
  using router_route_best [of "path_new url" r] path_new_ok [OF assms] by (simp add: best_route_def)

theorem router_route_best_match_witness:
  "router_route (Router (Some (3 :: nat)) None None [(''metrics'', Router None (Some 5) None [])]) (path_new ''/metrics/json'') = Some 3"
proof -
  let ?r = "Router (Some (3 :: nat)) None None [(''metrics'', Router None (Some 5) None [])]"
  have "cstring ''/metrics/json''" by (simp add: cstring_def nil_char_def)
  note R = router_route_best_match [OF this, of ?r]
  have t: "url_tokens (take 1024 ''/metrics/json'') = [''metrics'', ''json'']" by (simp add: url_tokens_def)
  have m: "routes ?r q = Some x \<longleftrightarrow> x = 3" if "matches q [''metrics'', ''json'']" "routes ?r q \<noteq> None" for q x
    using that by (auto simp: matches_Cons matches_Nil)
  have star: "matches [Star] [''metrics'', ''json'']" "routes ?r [Star] \<noteq> None" by simp_all
  show ?thesis
  proof (cases "router_route ?r (path_new ''/metrics/json'')")
    case None
    then show ?thesis using R star unfolding t by (simp only: option.case) blast
  next
    case (Some res)
    then obtain q where "matches q [''metrics'', ''json'']" "routes ?r q = Some res"
      using R unfolding t by (simp only: option.case) blast
    then show ?thesis using Some m [of q res] by (simp only: option.distinct not_False_eq_True) simp
  qed
qed

end
