(* ===== verification/Buffer.thy ===== *)
theory Buffer
  imports Mem
begin

text \<open>
  The growing byte buffer of \<^verbatim>\<open>src/utils/buffer.c\<close>. The array is a list as long as the
  capacity; the bytes that an allocation adds are nil in the model, and nothing reads them
  before they are written. \<open>None\<close> means that the call does not return: the loop that doubles
  the capacity runs for ever, or the allocation fails and the program aborts.
\<close>

section \<open>Definitions\<close>

record buffer =
  blen :: nat
  bcap :: nat
  bdata :: "char list"

definition zero_buffer :: buffer where
  "zero_buffer = \<lparr>blen = 0, bcap = 0, bdata = []\<rparr>"

definition buffer_min_cap :: nat where
  "buffer_min_cap = 128"

definition buffer_reset :: "buffer \<Rightarrow> buffer" where
  "buffer_reset buffer = buffer\<lparr>bdata := [], blen := 0, bcap := 0\<rparr>"

text \<open>An allocation larger than half of the address space never succeeds.\<close>

definition malloc_ok :: "nat \<Rightarrow> bool" where
  "malloc_ok n \<longleftrightarrow> n < 2 ^ 63"

text \<open>The loop \<^verbatim>\<open>while (len > cap) cap *= 2\<close>.\<close>

partial_function (option) buffer_grow :: "nat \<Rightarrow> nat \<Rightarrow> nat option" where
  "buffer_grow len cap = (if len > cap then buffer_grow len (umul cap 2) else Some cap)"

declare buffer_grow.simps [code]

definition buffer_reserve :: "buffer \<Rightarrow> nat \<Rightarrow> buffer option" where
  "buffer_reserve buffer len =
     (if len < bcap buffer then Some buffer
      else
        Option.bind (buffer_grow len (if bcap buffer = 0 then buffer_min_cap else bcap buffer)) (\<lambda>cap.
          if malloc_ok cap
          then Some (buffer\<lparr>bcap := cap, bdata := take cap (bdata buffer) @ replicate (cap - length (bdata buffer)) nil_char\<rparr>)
          else None))"

text \<open>Writing characters at a place of the array; \<open>None\<close>: past its end.\<close>

definition put_at :: "char list \<Rightarrow> nat \<Rightarrow> char list \<Rightarrow> char list option" where
  "put_at data i s =
     (if i + length s \<le> length data then Some (take i data @ s @ drop (i + length s) data) else None)"

definition buffer_put :: "buffer \<Rightarrow> char \<Rightarrow> buffer option" where
  "buffer_put buffer c =
     Option.bind (buffer_reserve buffer (uadd (blen buffer) 1)) (\<lambda>b.
       Option.bind (put_at (bdata b) (blen b) [c]) (\<lambda>data.
         Some (b\<lparr>bdata := data, blen := blen b + 1\<rparr>)))"

definition buffer_write :: "buffer \<Rightarrow> char list \<Rightarrow> buffer option" where
  "buffer_write buffer data =
     Option.bind (buffer_reserve buffer (uadd (blen buffer) (length data))) (\<lambda>b.
       Option.bind (put_at (bdata b) (blen b) data) (\<lambda>data'.
         Some (b\<lparr>bdata := data', blen := blen b + length data\<rparr>)))"

text \<open>
  \<^verbatim>\<open>vsnprintf(data + pos, avail, ...)\<close> of a format that expands to \<open>s\<close>: at most \<open>avail - 1\<close>
  characters and a nil, nothing when \<open>avail\<close> is 0. It returns the length of \<open>s\<close>.
\<close>

definition vsnprintf_at :: "char list \<Rightarrow> nat \<Rightarrow> nat \<Rightarrow> string \<Rightarrow> char list option" where
  "vsnprintf_at data pos avail s =
     (if avail = 0 then Some data else put_at data pos (take (avail - 1) s @ [nil_char]))"

text \<open>\<open>s\<close> is what the format and its arguments expand to; the code's \<^verbatim>\<open>int\<close> bounds its length.\<close>

definition buffer_printf :: "buffer \<Rightarrow> string \<Rightarrow> buffer option" where
  "buffer_printf buffer s =
     (let avail = usub (bcap buffer) (blen buffer) in
      Option.bind (vsnprintf_at (bdata buffer) (blen buffer) avail s) (\<lambda>data.
        let b = buffer\<lparr>bdata := data\<rparr> in
        if length s > 0 \<and> length s + 1 > avail then
          Option.bind (buffer_reserve b (uadd (uadd (blen b) (length s)) 1)) (\<lambda>b1.
            Option.bind (vsnprintf_at (bdata b1) (blen b1) (usub (bcap b1) (blen b1)) s) (\<lambda>data1.
              Some (b1\<lparr>bdata := data1, blen := blen b1 + length s\<rparr>)))
        else Some (b\<lparr>blen := blen b + length s\<rparr>)))"

section \<open>The capacity\<close>

text \<open>Capacities are the powers of two from 128 on, until doubling gives zero.\<close>

definition pow2_cap :: "nat \<Rightarrow> bool" where
  "pow2_cap cap \<longleftrightarrow> (\<exists>k. 7 \<le> k \<and> k < 64 \<and> cap = 2 ^ k)"

lemma buffer_grow_zero: "buffer_grow len 0 = Some y \<Longrightarrow> len = 0"
proof -
  have "len \<le> y \<and> (cap = 0 \<longrightarrow> y = 0)" if "buffer_grow len cap = Some y" for len cap y
    using that
  proof (rule buffer_grow.raw_induct [rotated, of len cap y "\<lambda>len cap y. len \<le> y \<and> (cap = 0 \<longrightarrow> y = 0)"])
    fix f :: "nat \<Rightarrow> nat \<Rightarrow> nat option" and len cap y
    assume "\<And>len cap y. f len cap = Some y \<Longrightarrow> len \<le> y \<and> (cap = 0 \<longrightarrow> y = 0)"
      "(if cap < len then f len (umul cap 2) else Some cap) = Some y"
    then show "len \<le> y \<and> (cap = 0 \<longrightarrow> y = 0)" by (cases "cap < len") (auto simp: umul_def)
  qed
  then show "buffer_grow len 0 = Some y \<Longrightarrow> len = 0" by fastforce
qed

lemma buffer_grow_pow2:
  assumes "7 \<le> k" "k < 64" "len \<le> 2 ^ 63"
  shows "\<exists>j. k \<le> j \<and> j < 64 \<and> buffer_grow len (2 ^ k) = Some (2 ^ j) \<and> len \<le> 2 ^ j \<and> (len \<le> 2 ^ 62 \<longrightarrow> k < 63 \<longrightarrow> j < 63) \<and>
    (j = k \<or> 2 ^ j < 2 * len)"
  using assms
proof (induction "63 - k" arbitrary: k)
  case 0
  then have "k = 63" by simp
  then show ?case using 0 by (intro exI [of _ 63]) (simp add: buffer_grow.simps [of len])
next
  case (Suc d)
  show ?case
  proof (cases "len > 2 ^ k")
    case True
    have k: "Suc k < 64" "d = 63 - Suc k" using Suc.hyps(2) Suc.prems by auto
    have "(2 :: nat) ^ Suc k \<le> 2 ^ 63" using k(1) by (intro power_increasing) auto
    then have "umul (2 ^ k) 2 = 2 ^ Suc k" by (simp add: umul_def mult.commute)
    then have step: "buffer_grow len (2 ^ k) = buffer_grow len (2 ^ Suc k)" using True by (simp add: buffer_grow.simps [of len "2 ^ k"])
    obtain j where j: "Suc k \<le> j" "j < 64" "buffer_grow len (2 ^ Suc k) = Some (2 ^ j)" "len \<le> 2 ^ j"
        "len \<le> 2 ^ 62 \<longrightarrow> Suc k < 63 \<longrightarrow> j < 63" "j = Suc k \<or> 2 ^ j < 2 * len"
      using Suc.hyps(1) [OF k(2) _ k(1) Suc.prems(3)] Suc.prems(1) by auto
    have "j < 63" if "len \<le> 2 ^ 62"
    proof -
      have "(2 :: nat) ^ k < 2 ^ 62" using True that by linarith
      then have "k < 62" by (rule power_less_imp_less_exp [rotated]) simp
      then show ?thesis using j(5) that by simp
    qed
    moreover have "2 ^ j < 2 * len" using j(6) True by auto
    ultimately show ?thesis using j step by (intro exI [of _ j]) simp
  next
    case False
    then show ?thesis using Suc.prems by (intro exI [of _ k]) (simp add: buffer_grow.simps [of len])
  qed
qed

lemma double_cap: "k < 64 \<Longrightarrow> umul (2 ^ k) 2 = (if k < 63 then 2 ^ Suc k else 0)"
proof -
  assume "k < 64"
  then consider "k = 63" | "k < 63" by linarith
  then show ?thesis
  proof cases
    case 2
    then have "(2 :: nat) ^ Suc k \<le> 2 ^ 63" by (intro power_increasing) auto
    then show ?thesis using 2 by (simp add: umul_def mult.commute)
  qed (simp add: umul_def)
qed

lemma buffer_grow_diverges:
  assumes "k < 64" "2 ^ 63 < len"
  shows "buffer_grow len (2 ^ k) = None"
proof -
  let ?P = "\<lambda>len cap y. len \<le> y \<and> (cap = 0 \<or> (\<exists>k < 64. cap = 2 ^ k) \<longrightarrow> y \<le> (2 :: nat) ^ 63)"
  have "?P len cap y" if "buffer_grow len cap = Some y" for cap y
    using that
  proof (rule buffer_grow.raw_induct [rotated, of len cap y ?P])
    fix f :: "nat \<Rightarrow> nat \<Rightarrow> nat option" and len cap y
    assume f: "\<And>len cap y. f len cap = Some y \<Longrightarrow> ?P len cap y" "(if cap < len then f len (umul cap 2) else Some cap) = Some y"
    have pow: "umul cap 2 = 0 \<or> (\<exists>k < 64. umul cap 2 = 2 ^ k)" if "cap = 0 \<or> (\<exists>k < 64. cap = 2 ^ k)"
    proof (cases "cap = 0")
      case False
      then obtain k where "k < 64" "cap = 2 ^ k" using \<open>cap = 0 \<or> _\<close> by blast
      then show ?thesis using double_cap [of k] by (cases "k < 63") (auto intro: exI [of _ "Suc k"])
    qed (simp add: umul_def)
    have le: "(2 :: nat) ^ k \<le> 2 ^ 63" if "k < 64" for k using that by (intro power_increasing) auto
    show "?P len cap y"
    proof (cases "cap < len")
      case True
      then have "f len (umul cap 2) = Some y" using f(2) by simp
      from f(1) [OF this] pow show ?thesis by blast
    next
      case False
      then show ?thesis using f(2) le by auto
    qed
  qed
  then show ?thesis using assms by (cases "buffer_grow len (2 ^ k)") fastforce+
qed

section \<open>The contents\<close>

definition buf_ok :: "buffer \<Rightarrow> bool" where
  "buf_ok b \<longleftrightarrow> length (bdata b) = bcap b \<and> blen b \<le> bcap b \<and> (bcap b = 0 \<or> (\<exists>k. 7 \<le> k \<and> k < 63 \<and> bcap b = 2 ^ k))"

definition contents :: "buffer \<Rightarrow> string" where
  "contents b = take (blen b) (bdata b)"

lemma zero_buffer_ok [simp]: "buf_ok zero_buffer" "contents zero_buffer = []" "blen zero_buffer = 0"
  by (simp_all add: buf_ok_def zero_buffer_def contents_def)

lemma buffer_reserve_spec:
  assumes "buf_ok b" "len \<le> 2 ^ 62"
  obtains b' where "buffer_reserve b len = Some b'" "buf_ok b'" "contents b' = contents b" "blen b' = blen b" "len \<le> bcap b'"
    "take (bcap b) (bdata b') = bdata b"
proof (cases "len < bcap b")
  case True
  then show thesis using assms(1) by (intro that [of b]) (simp_all add: buffer_reserve_def buf_ok_def)
next
  case False
  obtain k where k: "7 \<le> k" "k < 63" "(if bcap b = 0 then buffer_min_cap else bcap b) = 2 ^ k"
  proof (cases "bcap b = 0")
    case True
    then show thesis by (intro that [of 7]) (simp_all add: buffer_min_cap_def)
  next
    case False
    then show thesis using assms(1) that by (auto simp: buf_ok_def)
  qed
  have "len \<le> 2 ^ 63" using assms(2) by simp
  from buffer_grow_pow2 [OF k(1) _ this] k(2) assms(2) obtain j where
      j: "k \<le> j" "j < 63" "buffer_grow len (2 ^ k) = Some (2 ^ j)" "len \<le> 2 ^ j" by auto
  have pj: "(2 :: nat) ^ k \<le> 2 ^ j" "(2 :: nat) ^ j < 2 ^ 63"
    using j(1,2) by (simp_all only: power_increasing_iff power_strict_increasing_iff)
  have cap: "bcap b \<le> 2 ^ j" using k(3) pj(1) by (cases "bcap b = 0") auto
  let ?b = "b\<lparr>bcap := 2 ^ j, bdata := take (2 ^ j) (bdata b) @ replicate (2 ^ j - length (bdata b)) nil_char\<rparr>"
  have len: "length (bdata b) = bcap b" "blen b \<le> bcap b" using assms(1) by (simp_all add: buf_ok_def)
  show thesis
  proof (rule that [of ?b])
    show "buffer_reserve b len = Some ?b"
      using False k(3) j(3) pj(2) by (simp add: buffer_reserve_def malloc_ok_def)
    show "buf_ok ?b" using j(1,2) k(1) len cap by (auto simp: buf_ok_def intro!: exI [of _ j])
    show "contents ?b = contents b" using len cap by (simp add: contents_def)
  qed (use j(4) len cap in simp_all)
qed

lemma put_at_end:
  assumes "buf_ok b" "blen b + length s \<le> bcap b"
  obtains data where "put_at (bdata b) (blen b) s = Some data" "length data = bcap b"
    "take (blen b + length s) data = contents b @ s" "take (blen b) data = contents b"
proof -
  have len: "length (bdata b) = bcap b" "blen b \<le> bcap b" using assms(1) by (simp_all add: buf_ok_def)
  show thesis
    by (rule that [of "take (blen b) (bdata b) @ s @ drop (blen b + length s) (bdata b)"])
      (use len assms(2) in \<open>auto simp: put_at_def contents_def\<close>)
qed

lemma buffer_write_spec:
  assumes "buf_ok b" "blen b + length s \<le> 2 ^ 62"
  obtains b' where "buffer_write b s = Some b'" "buf_ok b'" "contents b' = contents b @ s" "blen b' = blen b + length s"
proof -
  have u: "uadd (blen b) (length s) = blen b + length s" using assms(2) by (intro uadd_small) simp
  from assms show thesis
  proof (cases rule: buffer_reserve_spec)
    case (1 b1)
    have room: "blen b1 + length s \<le> bcap b1" using 1(4,5) by simp
    from 1(2) room show thesis
    proof (cases rule: put_at_end)
      case (1 data)
      let ?b = "b1\<lparr>bdata := data, blen := blen b1 + length s\<rparr>"
      show thesis
        by (rule that [of ?b])
          (use 1 \<open>buffer_reserve b _ = Some b1\<close> \<open>buf_ok b1\<close> \<open>contents b1 = _\<close> \<open>blen b1 = _\<close> room u in
            \<open>simp_all add: buffer_write_def buf_ok_def contents_def\<close>)
    qed
  qed
qed

lemma buffer_put_write: "buffer_put b c = buffer_write b [c]"
  by (simp add: buffer_put_def buffer_write_def)

lemma cap_small: "buf_ok b \<Longrightarrow> bcap b < 18446744073709551616"
proof -
  assume "buf_ok b"
  then consider "bcap b = 0" | k where "k < 63" "bcap b = 2 ^ k" by (auto simp: buf_ok_def)
  then show ?thesis
  proof cases
    case (2 k)
    then have "bcap b \<le> 2 ^ 63" unfolding 2(2) by (intro power_increasing) auto
    then show ?thesis by simp
  qed simp
qed

lemma vsnprintf_fits:
  assumes "buf_ok b" "blen b + length s < bcap b"
  obtains data where "vsnprintf_at (bdata b) (blen b) (usub (bcap b) (blen b)) s = Some data" "length data = bcap b"
    "take (blen b + length s) data = contents b @ s"
proof -
  have len: "length (bdata b) = bcap b" "blen b \<le> bcap b" using assms(1) by (simp_all add: buf_ok_def)
  have "bcap b < 18446744073709551616" by (rule cap_small [OF assms(1)])
  then have u: "usub (bcap b) (blen b) = bcap b - blen b" using len(2) by (intro usub_small) simp_all
  have all: "take (bcap b - blen b - 1) s = s" using assms(2) by simp
  have "blen b + length (s @ [nil_char]) \<le> bcap b" using assms(2) by simp
  from assms(1) this show thesis
  proof (cases rule: put_at_end)
    case (1 data)
    have "take (blen b + length s) data = take (blen b + length s) (contents b @ s @ [nil_char])"
      using arg_cong [OF 1(3), of "take (blen b + length s)"] by simp
    then have "take (blen b + length s) data = contents b @ s" using len by (simp add: contents_def)
    then show thesis using that [of data] 1(1,2) assms(2) u all by (simp add: vsnprintf_at_def)
  qed
qed

lemma buffer_printf_spec:
  assumes "buf_ok b" "blen b + length s < 2 ^ 62"
  obtains b' where "buffer_printf b s = Some b'" "buf_ok b'" "contents b' = contents b @ s" "blen b' = blen b + length s"
proof -
  have len: "length (bdata b) = bcap b" "blen b \<le> bcap b" using assms(1) by (simp_all add: buf_ok_def)
  note small = cap_small [OF assms(1)]
  have u: "usub (bcap b) (blen b) = bcap b - blen b" using len(2) small by (intro usub_small) simp_all
  show thesis
  proof (cases "blen b + length s < bcap b")
    case True
    with assms(1) show thesis
    proof (cases rule: vsnprintf_fits)
      case (1 data)
      then show thesis
        using True len assms(1) u
        by (intro that [of "b\<lparr>bdata := data, blen := blen b + length s\<rparr>"]) (auto simp: buffer_printf_def Let_def buf_ok_def contents_def)
    qed
  next
    case False
    define data where "data = (if bcap b = blen b then bdata b else take (blen b) (bdata b) @ take (bcap b - blen b - 1) s @ [nil_char])"
    have d: "vsnprintf_at (bdata b) (blen b) (bcap b - blen b) s = Some data"
      using False len by (auto simp: vsnprintf_at_def put_at_def data_def)
    let ?b = "b\<lparr>bdata := data\<rparr>"
    have b: "buf_ok ?b" "contents ?b = contents b" using False len assms(1) by (auto simp: buf_ok_def contents_def data_def)
    show thesis
    proof (cases "s = []")
      case True
      then show thesis
        using that [of ?b] b d u False by (simp add: buffer_printf_def Let_def)
    next
      case ne: False
      have w: "uadd (uadd (blen b) (length s)) 1 = blen b + length s + 1"
        using assms(2) by (simp add: uadd_def)
      have "blen b + length s + 1 \<le> 2 ^ 62" using assms(2) by simp
      from b(1) this show thesis
      proof (cases rule: buffer_reserve_spec)
        case (1 b1)
        have "blen b1 + length s < bcap b1" using 1(4,5) by simp
        from 1(2) this show thesis
        proof (cases rule: vsnprintf_fits)
          case (1 data1)
          show thesis
            by (rule that [of "b1\<lparr>bdata := data1, blen := blen b1 + length s\<rparr>"])
              (use 1 \<open>buffer_reserve ?b _ = Some b1\<close> \<open>buf_ok b1\<close> \<open>contents b1 = _\<close> \<open>blen b1 = _\<close> \<open>_ \<le> bcap b1\<close> b(2) d w u ne False in
                \<open>auto simp: buffer_printf_def Let_def buf_ok_def contents_def\<close>)
        qed
      qed
    qed
  qed
qed

text \<open>The operation returned, and added \<open>s\<close> to the buffer.\<close>

definition appended :: "buffer \<Rightarrow> string \<Rightarrow> buffer option \<Rightarrow> bool" where
  "appended b s r \<longleftrightarrow> (\<exists>b'. r = Some b' \<and> buf_ok b' \<and> contents b' = contents b @ s)"

lemma length_contents: "buf_ok b \<Longrightarrow> length (contents b) = blen b"
  by (simp add: buf_ok_def contents_def)

lemma appended_Some: "buf_ok b \<Longrightarrow> appended b [] (Some b)"
  by (simp add: appended_def)

lemma appended_printf:
  assumes "buf_ok b" "length (contents b) + length s < 2 ^ 62"
  shows "appended b s (buffer_printf b s)"
proof -
  have "blen b + length s < 2 ^ 62" using assms length_contents by simp
  from assms(1) this show ?thesis by (cases rule: buffer_printf_spec) (auto simp: appended_def)
qed

lemma appended_write:
  assumes "buf_ok b" "length (contents b) + length s \<le> 2 ^ 62"
  shows "appended b s (buffer_write b s)"
proof -
  have "blen b + length s \<le> 2 ^ 62" using assms length_contents by simp
  from assms(1) this show ?thesis by (cases rule: buffer_write_spec) (auto simp: appended_def)
qed

lemma appended_put: "buf_ok b \<Longrightarrow> length (contents b) < 2 ^ 62 \<Longrightarrow> appended b [c] (buffer_put b c)"
  unfolding buffer_put_write by (rule appended_write) simp_all

lemma appended_bind:
  assumes "appended b s r" "\<And>b1. r = Some b1 \<Longrightarrow> buf_ok b1 \<Longrightarrow> contents b1 = contents b @ s \<Longrightarrow> appended b1 t (f b1)"
  shows "appended b (s @ t) (Option.bind r f)"
proof -
  obtain b1 where b1: "r = Some b1" "buf_ok b1" "contents b1 = contents b @ s" using assms(1) unfolding appended_def by blast
  then show ?thesis using assms(2) [OF b1] by (simp add: appended_def)
qed

section \<open>Properties\<close>



text \<open>
  C28: When reserving ends. The capacity is doubled in 64 bits, so a request for more than
  \<open>2 ^ 63\<close> bytes is never reached: the capacity becomes zero and the loop runs for ever. Every
  request up to \<open>2 ^ 63\<close> ends the loop, at the first of the capacities (the current one or
  128, doubled) that is large enough.
\<close>

theorem buffer_reserve_terminates:
  assumes "cap = 2 ^ k" "7 \<le> k" "k < 64"
  shows "case buffer_grow len cap of
      None \<Rightarrow> 2 ^ 63 < len
    | Some y \<Rightarrow> len \<le> 2 ^ 63 \<and> len \<le> y \<and> (y = cap \<or> y < 2 * len) \<and> (\<exists>j < 64. y = 2 ^ j)"
proof (cases "len \<le> 2 ^ 63")
  case True
  from buffer_grow_pow2 [OF assms(2,3) True] obtain j where
      "j < 64" "buffer_grow len (2 ^ k) = Some (2 ^ j)" "len \<le> 2 ^ j" "j = k \<or> 2 ^ j < 2 * len" by blast
  then show ?thesis using True assms(1) by auto
next
  case False
  then show ?thesis using buffer_grow_diverges [OF assms(3), of len] assms(1) by simp
qed

theorem buffer_reserve_terminates_witness:
  "(\<exists>y. buffer_grow 1000 128 = Some y \<and> 1000 \<le> y \<and> y < 2000) \<and> buffer_grow 10000000000000000000 128 = None"
  using buffer_reserve_terminates [of 128 7 1000] buffer_reserve_terminates [of 128 7 10000000000000000000]
  by (auto split: option.splits)

end
