(* ===== verification/Crest.thy ===== *)
theory Crest
  imports Router Buffer Htable
begin

text \<open>
  The REST server, \<^verbatim>\<open>src/utils/crest/crest.c\<close>, \<^verbatim>\<open>req.c\<close> and \<^verbatim>\<open>resp.c\<close>: requests, responses, the order of the
  checks of a request, and the callback that collects the body of an upload. The HTTP library
  is a parameter: what it says to each call (\<open>mhd\<close>). Responses it accepts are appended to
  \<open>sent\<close>. \<open>None\<close> means that the process aborts.
\<close>

section \<open>Requests\<close>

datatype crest_method = crest_get | crest_put | crest_post | crest_delete | crest_unsupported

datatype crest_result = crest_ok | crest_err | crest_conflict | crest_result_other nat

record mhd =
  mhd_create_response :: "nat \<Rightarrow> bool"
  mhd_add_response_header :: "string \<Rightarrow> string \<Rightarrow> bool"
  mhd_queue_response :: "nat \<Rightarrow> bool"
  mhd_lookup :: "string \<Rightarrow> string option"

record crest_req =
  qurl :: string
  qmethod :: string
  qdata :: "char list"
  qdata_len :: nat
  qdata_pos :: nat

text \<open>\<^verbatim>\<open>strncmp\<close> over the literal and its nil: the strings are equal.\<close>

definition is_method :: "string \<Rightarrow> string \<Rightarrow> bool" where
  "is_method m lit \<longleftrightarrow> m = lit"

definition crest_req_get_method :: "crest_req \<Rightarrow> crest_method" where
  "crest_req_get_method req =
     (if is_method (qmethod req) ''GET'' then crest_get
      else if is_method (qmethod req) ''POST'' then crest_post
      else if is_method (qmethod req) ''PUT'' then crest_put
      else if is_method (qmethod req) ''DELETE'' then crest_delete
      else crest_unsupported)"

definition crest_req_get_uri :: "crest_req \<Rightarrow> string" where
  "crest_req_get_uri req = qurl req"

text \<open>The path is built at the first use and kept; building it again gives the same.\<close>

definition crest_req_get_path :: "crest_req \<Rightarrow> path" where
  "crest_req_get_path req = path_new (qurl req)"

definition crest_req_get_path_tokens :: "crest_req \<Rightarrow> nat" where
  "crest_req_get_path_tokens req = path_tokens (crest_req_get_path req)"

definition crest_req_get_path_token :: "crest_req \<Rightarrow> nat \<Rightarrow> string option" where
  "crest_req_get_path_token req i = path_token (crest_req_get_path req) i"

definition crest_req_get_header :: "mhd \<Rightarrow> string \<Rightarrow> string option" where
  "crest_req_get_header mhd key = mhd_lookup mhd key"

text \<open>What is copied to the destination; the position is not moved.\<close>

definition crest_req_read :: "crest_req \<Rightarrow> nat \<Rightarrow> char list" where
  "crest_req_read req limit =
     (let leftover = usub (qdata_len req) (qdata_pos req);
          len = (if limit > leftover then leftover else limit)
      in take len (qdata req))"

section \<open>Responses\<close>

text \<open>
  The header table holds pointers to copies of the values; here the copies are in a list and
  the table holds their index.
\<close>

record crest_resp =
  headers :: htable
  hvalues :: "string list"
  body :: buffer
  sent :: "(nat \<times> (string \<times> string) list \<times> string) list"

definition zero_resp :: crest_resp where
  "zero_resp = \<lparr>headers = empty_htable, hvalues = [], body = zero_buffer, sent = []\<rparr>"

definition crest_resp_add_header :: "crest_resp \<Rightarrow> string \<Rightarrow> string \<Rightarrow> crest_resp option" where
  "crest_resp_add_header resp key val =
     (let data = of_nat (length (hvalues resp));
          resp1 = resp\<lparr>hvalues := hvalues resp @ [val]\<rparr>
      in Option.bind (htable_get (headers resp1) key) (\<lambda>(ret, ht).
           map_option (\<lambda>(_, ht'). resp1\<lparr>headers := ht'\<rparr>)
             (if \<not> ok ret then htable_put ht key data else htable_xchg ht key data)))"

definition crest_resp_write :: "crest_resp \<Rightarrow> string \<Rightarrow> crest_resp option" where
  "crest_resp_write resp data = map_option (\<lambda>b. resp\<lparr>body := b\<rparr>) (buffer_write (body resp) data)"

text \<open>The headers of a response, in the order of the table.\<close>

definition resp_headers :: "crest_resp \<Rightarrow> (string \<times> string) list" where
  "resp_headers resp =
     map (\<lambda>i. (the (bkey (ht_table (headers resp) ! i)), hvalues resp ! unat (bvalue (ht_table (headers resp) ! i))))
       (htable_walk (headers resp) None)"

definition crest_resp_send :: "mhd \<Rightarrow> crest_resp \<Rightarrow> nat \<Rightarrow> crest_resp option" where
  "crest_resp_send mhd resp code =
     (if \<not> mhd_create_response mhd (blen (body resp)) then None
      else
        (let data = contents (body resp);
             resp1 = resp\<lparr>body := zero_buffer\<rparr>
         in if \<not> list_all (\<lambda>(k, v). mhd_add_response_header mhd k v) (resp_headers resp1) then None
            else if \<not> mhd_queue_response mhd code then None
            else Some (resp1\<lparr>sent := sent resp1 @ [(code, resp_headers resp1, data)]\<rparr>)))"

definition crest_resp_send_error :: "mhd \<Rightarrow> crest_resp \<Rightarrow> nat \<Rightarrow> string \<Rightarrow> crest_resp option" where
  "crest_resp_send_error mhd resp code reason =
     Option.bind (crest_resp_write resp (take 1024 reason)) (\<lambda>resp1. crest_resp_send mhd resp1 code)"

section \<open>Resources and the server\<close>

text \<open>
  The callbacks of a resource have their context built in; they may read and change the rest
  of the program (\<open>'w\<close>). An absent callback is the null pointer.
\<close>

type_synonym 'w crest_test_cb = "'w \<Rightarrow> crest_req \<Rightarrow> bool \<times> 'w"
type_synonym 'w crest_resource_cb = "'w \<Rightarrow> crest_req \<Rightarrow> crest_resp \<Rightarrow> (crest_result \<times> 'w \<times> crest_resp) option"

record 'w crest_res =
  res_path :: string
  authorized :: "'w crest_test_cb option"
  forbidden :: "'w crest_test_cb option"
  accepts :: "'w crest_test_cb option"
  exists_cb :: "'w crest_test_cb option"
  get_cb :: "'w crest_resource_cb option"
  put_cb :: "'w crest_resource_cb option"
  post_cb :: "'w crest_resource_cb option"
  delete_cb :: "'w crest_resource_cb option"

record 'w crest =
  crouter :: "'w crest_res router"
  started :: bool

definition crest_new :: "'w crest" where
  "crest_new = \<lparr>crouter = empty_router, started = False\<rparr>"

text \<open>\<open>daemon\<close>: the HTTP library starts its daemon.\<close>

definition crest_bind :: "bool \<Rightarrow> 'w crest \<Rightarrow> bool \<times> 'w crest" where
  "crest_bind daemon crest = (if \<not> daemon then (False, crest) else (True, crest\<lparr>started := True\<rparr>))"

definition crest_add :: "'w crest \<Rightarrow> 'w crest_res \<Rightarrow> bool \<times> 'w crest" where
  "crest_add crest raw_res =
     (if started crest then (False, crest)
      else
        (case router_add (crouter crest) (path_new (res_path raw_res)) raw_res of
           (ret, router) \<Rightarrow> (ret, crest\<lparr>crouter := router\<rparr>)))"

definition crest_call_cb :: "mhd \<Rightarrow> 'w \<Rightarrow> crest_req \<Rightarrow> crest_resp \<Rightarrow> 'w crest_resource_cb \<Rightarrow> nat \<Rightarrow> ('w \<times> crest_resp) option" where
  "crest_call_cb mhd w req resp cb code =
     Option.bind (cb w req resp) (\<lambda>(result, w1, resp1).
       map_option (\<lambda>resp2. (w1, resp2))
         (case result of
            crest_ok \<Rightarrow> crest_resp_send mhd resp1 code
          | crest_err \<Rightarrow> crest_resp_send_error mhd resp1 500 ''internal server error''
          | crest_conflict \<Rightarrow> crest_resp_send_error mhd resp1 409 ''conflict''
          | crest_result_other _ \<Rightarrow> None))"

text \<open>A test that is not there passes.\<close>

definition run_test :: "'w crest_test_cb option \<Rightarrow> 'w \<Rightarrow> crest_req \<Rightarrow> bool \<times> 'w" where
  "run_test cb w req = (case cb of None \<Rightarrow> (True, w) | Some f \<Rightarrow> f w req)"

text \<open>The callback of a resource for a method.\<close>

definition handler :: "'w crest_res \<Rightarrow> crest_method \<Rightarrow> 'w crest_resource_cb option" where
  "handler res meth =
     (case meth of crest_get \<Rightarrow> get_cb res | crest_put \<Rightarrow> put_cb res | crest_post \<Rightarrow> post_cb res
      | crest_delete \<Rightarrow> delete_cb res | crest_unsupported \<Rightarrow> None)"

definition crest_process :: "mhd \<Rightarrow> 'w crest \<Rightarrow> 'w \<Rightarrow> crest_req \<Rightarrow> crest_resp \<Rightarrow> ('w \<times> crest_resp) option" where
  "crest_process mhd crest w req resp =
     (let error = (\<lambda>w code reason. map_option (\<lambda>r. (w, r)) (crest_resp_send_error mhd resp code reason)) in
      case router_route (crouter crest) (crest_req_get_path req) of
        None \<Rightarrow> error w 404 ''unknown resource''
      | Some res \<Rightarrow>
          (let meth = crest_req_get_method req;
               cb = handler res meth
           in case cb of
                None \<Rightarrow> error w 501 ''not implemented''
              | Some f \<Rightarrow>
                  (case run_test (authorized res) w req of (a, w1) \<Rightarrow>
                   if \<not> a then error w1 401 ''unauthorized''
                   else case run_test (forbidden res) w1 req of (b, w2) \<Rightarrow>
                   if \<not> b then error w2 403 ''forbidden''
                   else case run_test (accepts res) w2 req of (c, w3) \<Rightarrow>
                   if \<not> c then error w3 406 ''not acceptable''
                   else case run_test (exists_cb res) w3 req of (d, w4) \<Rightarrow>
                   if d then
                     (case meth of
                        crest_get \<Rightarrow> crest_call_cb mhd w4 req resp f 200
                      | crest_post \<Rightarrow> crest_call_cb mhd w4 req resp f 204
                      | crest_delete \<Rightarrow> crest_call_cb mhd w4 req resp f 204
                      | crest_put \<Rightarrow> error w4 409 ''resource already exists''
                      | crest_unsupported \<Rightarrow> None)
                   else
                     (case meth of
                        crest_put \<Rightarrow> crest_call_cb mhd w4 req resp f 201
                      | crest_post \<Rightarrow> crest_call_cb mhd w4 req resp f 201
                      | crest_get \<Rightarrow> error w4 404 ''resource doesn't exist''
                      | crest_delete \<Rightarrow> error w4 404 ''resource doesn't exist''
                      | crest_unsupported \<Rightarrow> None))))"

section \<open>Uploads\<close>

record upload =
  ucap :: nat
  upos :: nat
  udata :: "char list"

text \<open>
  \<^verbatim>\<open>strtoul(value, NULL, 10)\<close>: blanks, a sign, digits. A number that does not fit gives the
  largest value and \<^verbatim>\<open>ERANGE\<close>; a minus sign negates modulo \<open>2 ^ 64\<close>.
\<close>

definition is_digit :: "char \<Rightarrow> bool" where
  "is_digit c \<longleftrightarrow> 48 \<le> (of_char c :: nat) \<and> (of_char c :: nat) \<le> 57"

definition digits_value :: "string \<Rightarrow> nat" where
  "digits_value ds = foldl (\<lambda>n c. 10 * n + (of_char c - 48)) 0 ds"

definition strtoul :: "string \<Rightarrow> nat \<times> bool" where
  "strtoul s =
     (let s1 = dropWhile (\<lambda>c. c = CHR '' '' \<or> (9 \<le> (of_char c :: nat) \<and> (of_char c :: nat) \<le> 13)) s;
          neg = (s1 \<noteq> [] \<and> hd s1 = CHR ''-'');
          s2 = (if s1 \<noteq> [] \<and> (hd s1 = CHR ''-'' \<or> hd s1 = CHR ''+'') then tl s1 else s1);
          n = digits_value (takeWhile is_digit s2)
      in if n \<ge> 18446744073709551616 then (18446744073709551615, True)
         else (if neg then usub 0 n else n, False))"

text \<open>\<open>erange\<close>: \<^verbatim>\<open>errno\<close> is \<^verbatim>\<open>ERANGE\<close> already; the result is the 64-bit value read as signed.\<close>

definition get_content_length :: "mhd \<Rightarrow> bool \<Rightarrow> int" where
  "get_content_length mhd erange =
     (case mhd_lookup mhd ''Content-Length'' of
        None \<Rightarrow> 0
      | Some val \<Rightarrow>
          (case strtoul val of (len, over) \<Rightarrow>
             if len = 18446744073709551615 \<and> (over \<or> erange) then -1
             else sint (of_nat len :: 64 word)))"

text \<open>\<open>None\<close>: a write outside the body.\<close>

definition body_append :: "upload \<Rightarrow> char list \<Rightarrow> upload option" where
  "body_append b data =
     (let len = (if uadd (upos b) (length data) > ucap b then usub (ucap b) (upos b) else length data)
      in map_option (\<lambda>d. b\<lparr>udata := d, upos := uadd (upos b) len\<rparr>) (put_at (udata b) (upos b) (take len data)))"

definition sizeof_body :: nat where
  "sizeof_body = 16"

text \<open>
  One call of the HTTP library. \<open>args\<close> is the body that earlier calls made. The result is the
  body for later calls, and the response once the request is complete.
\<close>

definition microhttpd_cb :: "mhd \<Rightarrow> bool \<Rightarrow> 'w crest \<Rightarrow> 'w \<Rightarrow> string \<Rightarrow> string \<Rightarrow> char list \<Rightarrow> upload option \<Rightarrow>
    (upload option \<times> 'w \<times> crest_resp option) option" where
  "microhttpd_cb mhd erange crest w url meth data args =
     (let n = get_content_length mhd erange;
          start = (args = None \<and> n > 0);
          body1 = (if start then Some \<lparr>ucap = nat n, upos = 0, udata = replicate (nat n) nil_char\<rparr> else args)
      in if start \<and> \<not> malloc_ok (sizeof_body + nat n) then None
         else if start \<and> data = [] then Some (body1, w, None)
         else
           (case body1 of
              Some b \<Rightarrow>
                if data \<noteq> [] then map_option (\<lambda>b'. (Some b', w, None)) (body_append b data)
                else map_option (\<lambda>(w', r). (body1, w', Some r))
                  (crest_process mhd crest w \<lparr>qurl = url, qmethod = meth, qdata = udata b, qdata_len = ucap b, qdata_pos = 0\<rparr> zero_resp)
            | None \<Rightarrow>
                map_option (\<lambda>(w', r). (None, w', Some r))
                  (crest_process mhd crest w \<lparr>qurl = url, qmethod = meth, qdata = [], qdata_len = 0, qdata_pos = 0\<rparr> zero_resp)))"

section \<open>Headers\<close>

definition resp_ok :: "crest_resp \<Rightarrow> bool" where
  "resp_ok resp \<longleftrightarrow> ht_inv (headers resp) \<and>
     (\<forall>k w. ht_abs (headers resp) k = Some w \<longrightarrow> unat w < length (hvalues resp))"

lemma resp_ok_zero [simp]: "resp_ok zero_resp"
  by (simp add: resp_ok_def zero_resp_def ht_inv_empty ht_abs_empty)

text \<open>The value of a header.\<close>

definition header_of :: "crest_resp \<Rightarrow> string \<Rightarrow> string option" where
  "header_of resp k = map_option (\<lambda>w. hvalues resp ! unat w) (ht_abs (headers resp) k)"

lemma map_of_snd: "map_of (map (\<lambda>(k, v). (k, f v)) xs) k = map_option f (map_of xs k)"
  by (induction xs) auto

lemma resp_headers_map:
  assumes "resp_ok resp"
  shows "map_of (resp_headers resp) (cut_key k) = header_of resp k" "distinct (map fst (resp_headers resp))"
proof -
  let ?ht = "headers resp"
  let ?es = "entries (ht_table ?ht)"
  have W: "map (\<lambda>i. (the (bkey (ht_table ?ht ! i)), bvalue (ht_table ?ht ! i))) (htable_walk ?ht None) = ?es"
      "distinct (map fst ?es)" "\<And>k. ht_abs ?ht k = map_of ?es (cut_key k)"
    using htable_walk_all [of ?ht] assms by (simp_all add: resp_ok_def)
  have "resp_headers resp = map (\<lambda>(k, w). (k, hvalues resp ! unat w)) ?es"
    using arg_cong [OF W(1), of "map (\<lambda>(k, w). (k, hvalues resp ! unat w))"] by (simp add: resp_headers_def comp_def)
  then show "map_of (resp_headers resp) (cut_key k) = header_of resp k" "distinct (map fst (resp_headers resp))"
    using W(2,3) map_of_snd [of "\<lambda>w. hvalues resp ! unat w" ?es "cut_key k"] by (simp_all add: header_of_def comp_def split_def)
qed

lemma crest_resp_add_header_spec:
  assumes "resp_ok resp" "length (hvalues resp) < 18446744073709551616" "crest_resp_add_header resp key v = Some resp'"
  shows "resp_ok resp'" "\<And>j. header_of resp' j = (if cut_key j = cut_key key then Some v else header_of resp j)"
    "body resp' = body resp" "sent resp' = sent resp" "length (hvalues resp') = Suc (length (hvalues resp))"
proof -
  let ?n = "length (hvalues resp)" and ?d = "of_nat (length (hvalues resp)) :: u64"
  have inv: "ht_inv (headers resp)" "\<And>k w. ht_abs (headers resp) k = Some w \<Longrightarrow> unat w < ?n"
    using assms(1) unfolding resp_ok_def by blast+
  have d: "unat ?d = ?n" using assms(2) by (simp add: unat_of_nat take_bit_nat_eq_self)
  obtain r ht where g: "htable_get (headers resp) key = Some (r, ht)" "ht_inv ht" "ht_abs ht = ht_abs (headers resp)"
      "ok r = (ht_abs (headers resp) key \<noteq> None)"
    using htable_get_spec [OF inv(1), of key] by blast
  obtain ht' where h: "resp' = resp\<lparr>hvalues := hvalues resp @ [v], headers := ht'\<rparr>"
      "ht_inv ht'" "ht_abs ht' = key_upd (ht_abs (headers resp)) key (Some ?d)"
  proof (cases "ok r")
    case True
    obtain r2 ht2 where x: "htable_xchg ht key ?d = Some (r2, ht2)" "ht_inv ht2" "ht_abs ht2 = key_upd (ht_abs ht) key (Some ?d)"
      using htable_xchg_spec [OF g(2), of key ?d] g(3,4) True by (auto split: option.splits)
    then show thesis using that [of ht2] assms(3) g(1,3) True by (simp add: crest_resp_add_header_def Let_def)
  next
    case False
    obtain r2 ht2 where x: "htable_put ht key ?d = Some (r2, ht2)" "resp' = resp\<lparr>hvalues := hvalues resp @ [v], headers := ht2\<rparr>"
      using assms(3) g(1) False by (auto simp: crest_resp_add_header_def Let_def)
    then show thesis using that [of ht2] htable_put_spec [OF x(1) g(2)] g(3,4) False by simp
  qed
  have small: "unat w < Suc ?n" if "ht_abs ht' k = Some w" for k w
    using that inv(2) [of k w] d h(3) by (auto simp: key_upd_def split: if_splits)
  then show "resp_ok resp'" using h(2) by (simp add: resp_ok_def h(1))
  show "header_of resp' j = (if cut_key j = cut_key key then Some v else header_of resp j)" for j
    using inv(2) [of j] d by (cases "ht_abs (headers resp) j") (auto simp: header_of_def h key_upd_def nth_append)
  show "body resp' = body resp" "sent resp' = sent resp" "length (hvalues resp') = Suc (length (hvalues resp))"
    by (simp_all add: h(1))
qed

section \<open>Sending\<close>

text \<open>The HTTP library accepts what it is given.\<close>

definition mhd_works :: "mhd \<Rightarrow> bool" where
  "mhd_works mhd \<longleftrightarrow> (\<forall>n. mhd_create_response mhd n) \<and> (\<forall>k v. mhd_add_response_header mhd k v) \<and> (\<forall>c. mhd_queue_response mhd c)"

lemma crest_resp_send_works:
  "mhd_works mhd \<Longrightarrow> crest_resp_send mhd resp code =
     Some (resp\<lparr>body := zero_buffer, sent := sent resp @ [(code, resp_headers resp, contents (body resp))]\<rparr>)"
  by (simp add: crest_resp_send_def mhd_works_def Let_def resp_headers_def list_all_def split_def)

definition body_fits :: "crest_resp \<Rightarrow> bool" where
  "body_fits resp \<longleftrightarrow> buf_ok (body resp) \<and> blen (body resp) \<le> 2 ^ 61"

lemma crest_resp_send_error_works:
  assumes "mhd_works mhd" "body_fits resp"
  obtains resp' where "crest_resp_send_error mhd resp code reason = Some resp'"
    "sent resp' = sent resp @ [(code, resp_headers resp, contents (body resp) @ take 1024 reason)]"
proof -
  have "length (take 1024 reason) \<le> 1024" by simp
  then have "buf_ok (body resp)" "blen (body resp) + length (take 1024 reason) \<le> 2 ^ 62"
    using assms(2) by (simp_all add: body_fits_def del: length_take)
  then show thesis
  proof (cases rule: buffer_write_spec)
    case (1 b')
    then show thesis
      using that by (simp add: crest_resp_send_error_def crest_resp_write_def crest_resp_send_works [OF assms(1)] resp_headers_def)
  qed
qed

section \<open>The checks of a request\<close>

text \<open>
  What the server promises to answer, as a table: the checks in their order with the code of each
  failure, and the code of success.
\<close>

fun first_failure :: "(bool \<times> nat) list \<Rightarrow> nat option" where
  "first_failure [] = None"
| "first_failure ((passed, code) # cs) = (if passed then first_failure cs else Some code)"

definition success_code :: "crest_method \<Rightarrow> bool \<Rightarrow> nat" where
  "success_code meth exists = (if meth = crest_get then 200 else if meth = crest_delete \<or> exists then 204 else 201)"

definition verdict :: "'w crest_res \<Rightarrow> crest_req \<Rightarrow> 'w \<Rightarrow> bool \<times> nat" where
  "verdict res req w =
     (let meth = crest_req_get_method req;
          (a, w1) = run_test (authorized res) w req;
          (b, w2) = run_test (forbidden res) w1 req;
          (c, w3) = run_test (accepts res) w2 req;
          (d, w4) = run_test (exists_cb res) w3 req
      in case first_failure
           [(handler res meth \<noteq> None, 501), (a, 401), (b, 403), (c, 406),
            (meth = crest_put \<longrightarrow> \<not> d, 409), (meth \<in> {crest_get, crest_delete} \<longrightarrow> d, 404)] of
           Some code \<Rightarrow> (False, code)
         | None \<Rightarrow> (True, success_code meth d))"

text \<open>A handler that returns, with a legal result and a response that is not too long.\<close>

definition handler_ok :: "'w crest_resource_cb \<Rightarrow> bool" where
  "handler_ok cb \<longleftrightarrow> (\<forall>w req. \<exists>result w' resp'. cb w req zero_resp = Some (result, w', resp') \<and>
     result \<in> {crest_ok, crest_err, crest_conflict} \<and> body_fits resp' \<and> sent resp' = [])"

lemma body_fits_zero [simp]: "body_fits zero_resp"
  by (simp add: body_fits_def zero_resp_def)

lemma crest_call_cb_works:
  assumes "mhd_works mhd" "handler_ok cb"
  shows "\<exists>w' resp' answer. crest_call_cb mhd w req zero_resp cb code = Some (w', resp') \<and> sent resp' = [answer] \<and>
    fst answer \<in> {code, 500, 409}"
proof -
  obtain result w1 resp1 where cb: "cb w req zero_resp = Some (result, w1, resp1)"
      "result \<in> {crest_ok, crest_err, crest_conflict}" "body_fits resp1" "sent resp1 = []"
    using assms(2) unfolding handler_ok_def by blast
  obtain r500 where "crest_resp_send_error mhd resp1 500 ''internal server error'' = Some r500"
      "sent r500 = [(500, resp_headers resp1, contents (body resp1) @ take 1024 ''internal server error'')]"
    using crest_resp_send_error_works [OF assms(1) cb(3)] cb(4) by (metis append_Nil)
  moreover obtain r409 where "crest_resp_send_error mhd resp1 409 ''conflict'' = Some r409"
      "sent r409 = [(409, resp_headers resp1, contents (body resp1) @ take 1024 ''conflict'')]"
    using crest_resp_send_error_works [OF assms(1) cb(3)] cb(4) by (metis append_Nil)
  ultimately show ?thesis
    using cb by (auto simp: crest_call_cb_def crest_resp_send_works [OF assms(1)] simp del: take_Suc_Cons)
qed

lemma send_error_zero:
  assumes "mhd_works mhd"
  shows "\<exists>w' resp' answer. map_option (\<lambda>r. (w, r)) (crest_resp_send_error mhd zero_resp code reason) = Some (w', resp') \<and>
    sent resp' = [answer] \<and> fst answer = code"
  by (rule crest_resp_send_error_works [OF assms body_fits_zero]) (auto simp: zero_resp_def)

text \<open>The order of the checks, once there is a handler.\<close>

lemma crest_process_checks:
  assumes "router_route (crouter crest) (crest_req_get_path req) = Some res" "handler res (crest_req_get_method req) = Some cb"
    and T: "run_test (authorized res) w req = (a, w1)" "run_test (forbidden res) w1 req = (b, w2)"
      "run_test (accepts res) w2 req = (c, w3)" "run_test (exists_cb res) w3 req = (d, w4)"
    and m_def: "m = crest_req_get_method req"
    and err_def: "err = (\<lambda>w code reason. map_option (\<lambda>r. (w, r)) (crest_resp_send_error mhd zero_resp code reason))"
  shows "crest_process mhd crest w req zero_resp =
      (if \<not> a then err w1 401 ''unauthorized'' else if \<not> b then err w2 403 ''forbidden''
       else if \<not> c then err w3 406 ''not acceptable''
       else if m = crest_put \<and> d then err w4 409 ''resource already exists''
       else if (m = crest_get \<or> m = crest_delete) \<and> \<not> d then err w4 404 ''resource doesn't exist''
       else crest_call_cb mhd w4 req zero_resp cb (success_code m d))"
    and "verdict res req w =
      (if \<not> a then (False, 401) else if \<not> b then (False, 403) else if \<not> c then (False, 406)
       else if m = crest_put \<and> d then (False, 409)
       else if (m = crest_get \<or> m = crest_delete) \<and> \<not> d then (False, 404)
       else (True, success_code m d))"
proof -
  have h: "handler res m = Some cb" using assms(2) by (simp add: m_def)
  then have m: "m \<noteq> crest_unsupported" by (auto simp: handler_def)
  show "crest_process mhd crest w req zero_resp =
      (if \<not> a then err w1 401 ''unauthorized'' else if \<not> b then err w2 403 ''forbidden''
       else if \<not> c then err w3 406 ''not acceptable''
       else if m = crest_put \<and> d then err w4 409 ''resource already exists''
       else if (m = crest_get \<or> m = crest_delete) \<and> \<not> d then err w4 404 ''resource doesn't exist''
       else crest_call_cb mhd w4 req zero_resp cb (success_code m d))"
    unfolding crest_process_def Let_def m_def [symmetric] assms(1) h option.case T prod.case using m
    by (cases m; cases d) (simp_all add: success_code_def err_def)
  show "verdict res req w =
      (if \<not> a then (False, 401) else if \<not> b then (False, 403) else if \<not> c then (False, 406)
       else if m = crest_put \<and> d then (False, 409)
       else if (m = crest_get \<or> m = crest_delete) \<and> \<not> d then (False, 404)
       else (True, success_code m d))"
    unfolding verdict_def Let_def m_def [symmetric] h T prod.case by simp
qed


definition mhd_ok :: mhd where
  "mhd_ok = \<lparr>mhd_create_response = \<lambda>_. True, mhd_add_response_header = \<lambda>_ _. True, mhd_queue_response = \<lambda>_. True,
     mhd_lookup = \<lambda>k. if k = ''Content-Length'' then Some ''5'' else None\<rparr>"

lemma mhd_ok_works: "mhd_works mhd_ok"
  by (simp add: mhd_works_def mhd_ok_def)

definition hello_res :: "unit crest_res" where
  "hello_res = \<lparr>res_path = ''/'', authorized = None, forbidden = None, accepts = None, exists_cb = None,
     get_cb = Some (\<lambda>w req resp. Some (crest_ok, w, resp)), put_cb = None, post_cb = None, delete_cb = None\<rparr>"

lemma root_route: "router_route (Router None (Some res) None []) (path_new ''/'') = Some res"
proof -
  have "cstring ''/''" by (simp add: cstring_def nil_char_def)
  from path_new_spec [OF this] have "path_empty (path_new ''/'')" by (simp add: path_empty_def url_tokens_def)
  then show ?thesis by (simp add: router_route.simps)
qed


text \<open>
  C38: Headers. Setting a header gives it the value, whether or not it was set before, and leaves
  every other header as it was; the headers that are sent with the response are exactly those,
  each key once. Keys are compared up to 1024 characters.
\<close>

theorem crest_headers_sent:
  assumes "resp_ok resp" "length (hvalues resp) < 18446744073709551616" "crest_resp_add_header resp key v = Some resp1"
    and "mhd_works mhd" "crest_resp_send mhd resp1 code = Some resp2"
  shows "\<exists>hs data. sent resp2 = sent resp @ [(code, hs, data)] \<and> data = contents (body resp) \<and> distinct (map fst hs) \<and>
    (\<forall>k. map_of hs (cut_key k) = (if cut_key k = cut_key key then Some v else map_of (resp_headers resp) (cut_key k)))"
proof -
  note A = crest_resp_add_header_spec [OF assms(1-3)]
  have s: "sent resp2 = sent resp @ [(code, resp_headers resp1, contents (body resp))]"
    using crest_resp_send_works [OF assms(4), of resp1 code] assms(5) A(3,4) by auto
  show ?thesis
    using s A(2) resp_headers_map [OF A(1)] resp_headers_map(1) [OF assms(1)] by simp
qed

lemma add_header_zero: obtains resp1 where "crest_resp_add_header zero_resp key v = Some resp1"
proof -
  obtain r ht where g: "htable_get empty_htable key = Some (r, ht)" "ht_inv ht" "\<not> ok r"
    using htable_get_spec [OF ht_inv_empty, of key] by (auto simp: ht_abs_empty)
  have "ht_len ht = 0" using htable_get_len [OF ht_inv_empty g(1)] by (simp add: empty_htable_def)
  from htable_put_first [OF g(2) this, of key 0] show thesis
    using that g by (auto simp: crest_resp_add_header_def zero_resp_def)
qed

theorem crest_headers_sent_witness:
  "\<exists>resp1 resp2 hs data. crest_resp_add_header zero_resp ''content-type'' ''text/plain'' = Some resp1 \<and>
     crest_resp_send mhd_ok resp1 200 = Some resp2 \<and> sent resp2 = [(200, hs, data)] \<and> map_of hs ''content-type'' = Some ''text/plain''"
proof (rule add_header_zero [of "''content-type''" "''text/plain''"])
  fix resp1 assume a: "crest_resp_add_header zero_resp ''content-type'' ''text/plain'' = Some resp1"
  have l: "length (hvalues zero_resp) < 18446744073709551616" "sent zero_resp = []" by (simp_all add: zero_resp_def)
  have c: "cut_key ''content-type'' = ''content-type''" by (simp add: cut_key_def htable_key_max_len_def)
  obtain resp2 where b: "crest_resp_send mhd_ok resp1 200 = Some resp2" using crest_resp_send_works [OF mhd_ok_works] by blast
  obtain hs data where "sent resp2 = [(200, hs, data)]"
      "\<forall>k. map_of hs (cut_key k) = (if cut_key k = cut_key ''content-type'' then Some ''text/plain'' else map_of (resp_headers zero_resp) (cut_key k))"
    using crest_headers_sent [OF resp_ok_zero l(1) a mhd_ok_works b] l(2) by auto
  then have "sent resp2 = [(200, hs, data)]" "map_of hs ''content-type'' = Some ''text/plain''" using c by metis+
  then show ?thesis using a b by blast
qed

section \<open>Collecting a body\<close>

text \<open>The calls for the chunks of an upload, of which none completes the request.\<close>

fun feed :: "mhd \<Rightarrow> bool \<Rightarrow> 'w crest \<Rightarrow> 'w \<Rightarrow> string \<Rightarrow> string \<Rightarrow> char list list \<Rightarrow> upload option \<Rightarrow> upload option option" where
  "feed mhd erange crest w url meth [] args = Some args"
| "feed mhd erange crest w url meth (d # ds) args =
     Option.bind (microhttpd_cb mhd erange crest w url meth d args) (\<lambda>(args', w', r).
       if r = None then feed mhd erange crest w' url meth ds args' else None)"

text \<open>The body after \<open>s\<close> arrived, of which only the announced length is kept.\<close>

definition collected :: "nat \<Rightarrow> char list \<Rightarrow> upload" where
  "collected n s = \<lparr>ucap = n, upos = min n (length s), udata = take n s @ replicate (n - length s) nil_char\<rparr>"

lemma body_append_collected:
  assumes "n < 9223372036854775808" "length d < 9223372036854775808"
  shows "body_append (collected n s) d = Some (collected n (s @ d))"
proof -
  let ?p = "min n (length s)"
  have u: "uadd ?p (length d) = ?p + length d" "usub n ?p = n - ?p"
    using assms by (simp_all add: uadd_small usub_small)
  define len where "len = (if ?p + length d > n then n - ?p else length d)"
  have pl: "?p + len = min n (length (s @ d))" by (auto simp: len_def min_def)
  have u2: "uadd ?p len = ?p + len" using assms by (intro uadd_small) (auto simp: len_def)
  have tl: "take len d = take (n - ?p) d" by (auto simp: len_def)
  have data: "put_at (udata (collected n s)) ?p (take len d) = Some (udata (collected n (s @ d)))"
    by (auto simp: put_at_def collected_def tl min_def)
  have "body_append (collected n s) d =
      map_option (\<lambda>x. (collected n s)\<lparr>udata := x, upos := uadd ?p len\<rparr>) (put_at (udata (collected n s)) ?p (take len d))"
    by (simp add: body_append_def collected_def Let_def u len_def)
  then show ?thesis unfolding data u2 pl by (simp add: collected_def)
qed

lemma feed_collected:
  assumes "n < 9223372036854775808" "\<forall>d \<in> set ds. d \<noteq> [] \<and> length d < 9223372036854775808"
  shows "feed mhd erange crest w url meth ds (Some (collected n s)) = Some (Some (collected n (s @ concat ds)))"
  using assms(2)
proof (induction ds arbitrary: s)
  case (Cons d ds)
  have "microhttpd_cb mhd erange crest w url meth d (Some (collected n s)) = Some (Some (collected n (s @ d)), w, None)"
    using Cons.prems body_append_collected [OF assms(1), of d s] by (simp add: microhttpd_cb_def Let_def)
  then show ?case using Cons by simp
qed simp

text \<open>
  C19: Uploads. For a request that announces a body of \<open>n\<close> bytes (so many that the allocation
  succeeds), the chunks are collected in order and never outside the allocated body: bytes
  past the announced length are dropped, missing ones are nil. The call that completes the request
  processes it with exactly this body of exactly \<open>n\<close> bytes.
\<close>

theorem upload_collects:
  assumes "get_content_length mhd erange = int n" "0 < n" "malloc_ok (sizeof_body + n)"
    and "\<forall>d \<in> set ds. d \<noteq> [] \<and> length d < 9223372036854775808"
  shows "\<exists>args. feed mhd erange crest w url meth ([] # ds) None = Some args \<and>
    microhttpd_cb mhd erange crest w url meth [] args =
      map_option (\<lambda>(w', r). (args, w', Some r))
        (crest_process mhd crest w \<lparr>qurl = url, qmethod = meth,
           qdata = take n (concat ds) @ replicate (n - length (concat ds)) nil_char, qdata_len = n, qdata_pos = 0\<rparr> zero_resp)"
proof -
  have n: "n < 9223372036854775808" using assms(3) by (simp add: malloc_ok_def sizeof_body_def)
  have first: "microhttpd_cb mhd erange crest w url meth [] None = Some (Some (collected n []), w, None)"
    using assms(1-3) by (simp add: microhttpd_cb_def collected_def Let_def)
  have fed: "feed mhd erange crest w url meth ([] # ds) None = Some (Some (collected n (concat ds)))"
    using first feed_collected [OF n assms(4), of mhd erange crest w url meth "[]"] by simp
  have data: "udata (collected n (concat ds)) = take n (concat ds) @ replicate (n - length (concat ds)) nil_char"
      "ucap (collected n (concat ds)) = n" by (simp_all add: collected_def)
  show ?thesis
    by (rule exI [of _ "Some (collected n (concat ds))"], rule conjI [OF fed]) (simp add: microhttpd_cb_def Let_def data)
qed

theorem upload_collects_witness:
  "\<exists>args. feed mhd_ok False (crest_new :: unit crest) () ''/'' ''PUT'' [[], ''abc'', ''defg''] None = Some args \<and>
     microhttpd_cb mhd_ok False (crest_new :: unit crest) () ''/'' ''PUT'' [] args =
       map_option (\<lambda>(w', r). (args, w', Some r))
         (crest_process mhd_ok crest_new () \<lparr>qurl = ''/'', qmethod = ''PUT'', qdata = ''abcde'', qdata_len = 5, qdata_pos = 0\<rparr> zero_resp)"
proof -
  have "get_content_length mhd_ok False = int 5"
    by (simp add: get_content_length_def mhd_ok_def strtoul_def digits_value_def is_digit_def)
  from upload_collects [OF this, of "[''abc'', ''defg'']" crest_new "()" "''/''" "''PUT''"] show ?thesis
    by (simp add: malloc_ok_def sizeof_body_def)
qed

end
