(* ===== verification/Format.thy ===== *)
theory Format
  imports Double
begin

text \<open>
  What the code uses of \<^verbatim>\<open>printf\<close> beside decimal numbers (\<open>dec\<close>): doubles with six significant
  digits (\<^verbatim>\<open>%g\<close>). A double is an exact multiple of \<open>2 ^ -1074\<close> (\<open>fixed\<close>), so the
  digits are computed with integers and rounded half to even, as the C library does.
\<close>

section \<open>Definitions\<close>

text \<open>The integer nearest to \<open>a / b\<close>, ties to even.\<close>

definition div_even :: "nat \<Rightarrow> nat \<Rightarrow> nat" where
  "div_even a b =
     (let q = a div b; r = a mod b in
      if 2 * r < b \<or> (2 * r = b \<and> even q) then q else q + 1)"

text \<open>\<open>a / 2 ^ 1074 / 10 ^ k\<close>, as numerator and denominator.\<close>

definition scaled :: "nat \<Rightarrow> int \<Rightarrow> nat \<times> nat" where
  "scaled a k = (if 0 \<le> k then (a, 2 ^ 1074 * 10 ^ nat k) else (a * 10 ^ nat (- k), 2 ^ 1074))"

text \<open>The exponent of the first digit of \<open>a / 2 ^ 1074\<close>.\<close>

definition dec_exponent :: "nat \<Rightarrow> int" where
  "dec_exponent a =
     (case find (\<lambda>k. case scaled a k of (n, d) \<Rightarrow> d \<le> n) (rev [-324..308]) of Some k \<Rightarrow> k | None \<Rightarrow> -324)"

text \<open>Six digits and their exponent, after rounding.\<close>

definition six_digits :: "nat \<Rightarrow> nat \<times> int" where
  "six_digits a =
     (let x = dec_exponent a;
          m = (case scaled a (x - 5) of (n, d) \<Rightarrow> div_even n d)
      in if m = 1000000 then (100000, x + 1) else (m, x))"

definition strip_zeros :: "string \<Rightarrow> string" where
  "strip_zeros s = rev (dropWhile (\<lambda>c. c = CHR ''0'') (rev s))"

text \<open>A decimal point and digits after it, if there are any.\<close>

definition with_fraction :: "string \<Rightarrow> string \<Rightarrow> string" where
  "with_fraction i f = (let f' = strip_zeros f in if f' = [] then i else i @ ''.'' @ f')"

definition two_digits :: "nat \<Rightarrow> string" where
  "two_digits n = (if n < 10 then CHR ''0'' # dec n else dec n)"

definition print_g :: "double \<Rightarrow> string" where
  "print_g d =
     (let sign = (if negative d then ''-'' else []) in
      if is_nan d then sign @ ''nan''
      else if is_inf d then sign @ ''inf''
      else if fixed d = 0 then sign @ ''0''
      else
        (case six_digits (nat \<bar>fixed d\<bar>) of (m, x) \<Rightarrow>
           (let ds = dec m in
            if x < -4 \<or> 6 \<le> x
            then sign @ with_fraction (take 1 ds) (drop 1 ds) @ ''e'' @ (if x < 0 then ''-'' else ''+'') @ two_digits (nat \<bar>x\<bar>)
            else if 0 \<le> x then sign @ with_fraction (take (nat x + 1) ds) (drop (nat x + 1) ds)
            else sign @ with_fraction ''0'' (replicate (nat (- x) - 1) CHR ''0'' @ ds))))"

section \<open>Digits\<close>

lemma digit_not_nil: "n < 10 \<Longrightarrow> digit n \<noteq> nil_char"
proof -
  assume "n < 10"
  then have "(of_char (digit n) :: nat) = 48 + n" by (simp add: digit_def)
  moreover have "(of_char nil_char :: nat) = 0" by (simp add: nil_char_def)
  ultimately show ?thesis by (metis add_is_0 zero_neq_numeral)
qed

lemma cstring_dec [simp]: "cstring (dec n)"
proof (induction n rule: dec.induct)
  case (1 n)
  then show ?case using digit_not_nil [of n] digit_not_nil [of "n mod 10"]
    by (subst dec.simps) (auto simp: cstring_def)
qed

section \<open>Reading a number back\<close>

definition undigit :: "char \<Rightarrow> nat" where
  "undigit c = of_char c - 48"

definition undec :: "string \<Rightarrow> nat" where
  "undec s = foldl (\<lambda>n c. 10 * n + undigit c) 0 s"

lemma undigit_digit [simp]: "n < 10 \<Longrightarrow> undigit (digit n) = n"
  by (simp add: undigit_def digit_def)

lemma undec_dec [simp]: "undec (dec n) = n"
proof (induction n rule: dec.induct)
  case (1 n)
  then show ?case
    by (subst dec.simps) (auto simp: undec_def)
qed

text \<open>Different numbers print differently.\<close>

lemma dec_inj: "dec m = dec n \<Longrightarrow> m = n"
  using undec_dec by metis

end
