(* ===== verification/Rest.thy ===== *)
theory Rest
  imports Poller Crest Format
begin

text \<open>
  The backend that serves metrics over HTTP, \<^verbatim>\<open>src/backend_rest.c\<close>. The poller's thread builds a
  list of metrics and publishes it at the end of a poll; requests read the published list under
  the lock. \<open>None\<close> means that the process aborts or does not return.
\<close>

section \<open>Metrics\<close>

text \<open>The value has its type as its constructor.\<close>

record metric =
  mkey :: string
  mvalue :: optics_poll_value

text \<open>The length is that of the list of the entries in use.\<close>

record metrics =
  mcap :: nat
  mdata :: "metric list"

definition metrics_init_cap :: nat where
  "metrics_init_cap = 128"

definition sizeof_metric :: nat where
  "sizeof_metric = 1656"

definition sizeof_metrics :: "nat \<Rightarrow> nat" where
  "sizeof_metrics cap = uadd 16 (umul sizeof_metric cap)"

definition metrics_append :: "metrics option \<Rightarrow> optics_poll \<Rightarrow> metrics option" where
  "metrics_append metrics poll =
     Option.bind
       (case metrics of
          Some m \<Rightarrow> Some m
        | None \<Rightarrow> if malloc_ok (sizeof_metrics metrics_init_cap) then Some \<lparr>mcap = metrics_init_cap, mdata = []\<rparr> else None)
       (\<lambda>m1.
         Option.bind
           (if length (mdata m1) = mcap m1
            then (let cap = umul (mcap m1) 2 in
                  if malloc_ok (sizeof_metrics cap) then Some (m1\<lparr>mcap := cap\<rparr>) else None)
            else Some m1)
           (\<lambda>m2.
             Option.bind (poller_key (pprefix poll) (phost poll) (pkey poll)) (\<lambda>key.
               Some (m2\<lparr>mdata := mdata m2 @ [\<lparr>mkey = take optics_name_max_len (key_str key), mvalue = pvalue poll\<rparr>]\<rparr>))))"

text \<open>\<^verbatim>\<open>strncmp\<close>: at most \<open>n\<close> characters, compared as unsigned; a string ends before its nil.\<close>

fun strncmp :: "string \<Rightarrow> string \<Rightarrow> nat \<Rightarrow> int" where
  "strncmp a b 0 = 0"
| "strncmp [] [] (Suc n) = 0"
| "strncmp [] (b # bs) (Suc n) = - of_char b"
| "strncmp (a # as) [] (Suc n) = of_char a"
| "strncmp (a # as) (b # bs) (Suc n) = (if a = b then strncmp as bs n else of_char a - of_char b)"

definition metrics_cmp :: "metric \<Rightarrow> metric \<Rightarrow> int option" where
  "metrics_cmp lhs rhs = Some (strncmp (mkey lhs) (mkey rhs) optics_name_max_len)"

definition metrics_sort :: "metric qsort \<Rightarrow> metrics \<Rightarrow> metrics option" where
  "metrics_sort qsort metrics = map_option (\<lambda>data. metrics\<lparr>mdata := data\<rparr>) (qsort metrics_cmp (mdata metrics))"

section \<open>The backend\<close>

record rest =
  rlock :: slock
  current :: "metrics option"
  build :: "metrics option"

definition zero_rest :: rest where
  "zero_rest = \<lparr>rlock = 0, current = None, build = None\<rparr>"

definition swap_tables :: "metric qsort \<Rightarrow> rest \<Rightarrow> rest option" where
  "swap_tables qsort rest =
     Option.bind
       (case build rest of None \<Rightarrow> Some None | Some m \<Rightarrow> map_option Some (metrics_sort qsort m))
       (\<lambda>sorted.
         Option.bind (slock_lock (rlock rest)) (\<lambda>l.
           let rest1 = rest\<lparr>current := sorted, rlock := slock_unlock l\<rparr>
           in Some (rest1\<lparr>build := None\<rparr>)))"

text \<open>The loop over the buckets \<open>i, i + 1, \<dots>\<close> below \<open>n\<close>; \<open>None\<close> also for a read outside the arrays.\<close>

function write_buckets :: "buffer \<Rightarrow> optics_histo \<Rightarrow> nat \<Rightarrow> nat \<Rightarrow> buffer option" where
  "write_buckets buffer histo n i =
     (if i < n then
        if i + 1 < length (buckets histo) \<and> i < length (counts histo) then
          Option.bind
            (buffer_printf buffer
              ('',\"bucket_'' @ dec (buckets histo ! i) @ ''-'' @ dec (buckets histo ! (i + 1)) @ ''\":'' @ dec (counts histo ! i)))
            (\<lambda>b. write_buckets b histo n (i + 1))
        else None
      else Some buffer)"
  by pat_completeness auto
termination by (relation "measure (\<lambda>(_, _, n, i). n - i)") auto

declare write_buckets.simps [simp del]

definition write_counter :: "buffer \<Rightarrow> metric \<Rightarrow> buffer option" where
  "write_counter buffer metric =
     (case mvalue metric of
        Counter_value v \<Rightarrow> buffer_printf buffer (''\"'' @ mkey metric @ ''\":'' @ dec (unat v))
      | Gauge_value v \<Rightarrow> buffer_printf buffer (''\"'' @ mkey metric @ ''\":'' @ print_g v)
      | Dist_value d \<Rightarrow>
          buffer_printf buffer
            (''\"'' @ mkey metric @ ''\":{\"p50\":'' @ print_g (p50 d) @ '',\"p90\":'' @ print_g (p90 d) @
             '',\"p99\":'' @ print_g (p99 d) @ '',\"max\":'' @ print_g (dist_max d) @ '',\"count\":'' @ dec (dist_n d) @ ''}'')
      | Histo_value h \<Rightarrow>
          Option.bind
            (buffer_printf buffer (''\"'' @ mkey metric @ ''\":{\"below\":'' @ dec (above h) @ '',\"above\":'' @ dec (below h)))
            (\<lambda>b. Option.bind (write_buckets b h (usub (buckets_len h) 1) 0) (\<lambda>b1. buffer_put b1 CHR ''}''))
      | Quantile_value q \<Rightarrow>
          buffer_printf buffer
            (''\"'' @ mkey metric @ ''\":{\"value\":'' @ print_g (sample q) @ '',\"count\":'' @ dec (qcount q) @ ''}'')
      | Unknown_value _ \<Rightarrow> Some buffer)"

text \<open>The loop over the metrics; \<open>i\<close> is its counter.\<close>

fun write_metrics :: "buffer \<Rightarrow> nat \<Rightarrow> metric list \<Rightarrow> buffer option" where
  "write_metrics buffer i [] = Some buffer"
| "write_metrics buffer i (m # ms) =
     Option.bind (if i > 0 then buffer_put buffer CHR '','' else Some buffer) (\<lambda>b.
       Option.bind (write_counter b m) (\<lambda>b1. write_metrics b1 (i + 1) ms))"

definition rest_get :: "rest crest_resource_cb" where
  "rest_get rest req resp =
     Option.bind (buffer_put zero_buffer CHR ''{'') (\<lambda>b.
       Option.bind (slock_lock (rlock rest)) (\<lambda>l.
         Option.bind (case current rest of None \<Rightarrow> Some b | Some m \<Rightarrow> write_metrics b 0 (mdata m)) (\<lambda>b1.
           let rest1 = rest\<lparr>rlock := slock_unlock l\<rparr> in
           Option.bind (buffer_put b1 CHR ''}'') (\<lambda>b2.
             Option.bind (crest_resp_add_header resp ''content-type'' ''text/plain'') (\<lambda>resp1.
               Option.bind (crest_resp_write resp1 (contents b2)) (\<lambda>resp2.
                 Some (crest_ok, rest1, resp2)))))))"

definition rest_dump :: "metric qsort \<Rightarrow> rest \<Rightarrow> optics_poll_type \<Rightarrow> optics_poll option \<Rightarrow> rest option" where
  "rest_dump qsort rest type poll =
     (case type of
        optics_poll_begin \<Rightarrow> Some (rest\<lparr>build := None\<rparr>)
      | optics_poll_done \<Rightarrow> swap_tables qsort rest
      | optics_poll_metric \<Rightarrow>
          Option.bind poll (\<lambda>p. map_option (\<lambda>m. rest\<lparr>build := Some m\<rparr>) (metrics_append (build rest) p)))"

text \<open>The backend is gone after this; \<open>None\<close>: a request holds the lock.\<close>

definition rest_free :: "rest \<Rightarrow> unit option" where
  "rest_free rest = (case slock_try_lock (rlock rest) of (False, _) \<Rightarrow> None | (True, _) \<Rightarrow> Some ())"

definition rest_res :: "rest crest_res" where
  "rest_res = \<lparr>res_path = ''/metrics/json'', authorized = None, forbidden = None, accepts = None, exists_cb = None,
     get_cb = Some rest_get, put_cb = None, post_cb = None, delete_cb = None\<rparr>"

section \<open>What is written\<close>

text \<open>The text of a metric and of a list of metrics.\<close>

definition buckets_json :: "optics_histo \<Rightarrow> nat \<Rightarrow> nat \<Rightarrow> string" where
  "buckets_json h i n = concat (map (\<lambda>i. '',\"bucket_'' @ dec (buckets h ! i) @ ''-'' @ dec (buckets h ! (i + 1)) @ ''\":'' @
     dec (counts h ! i)) [i..<n])"

definition value_json :: "optics_poll_value \<Rightarrow> string" where
  "value_json v =
     (case v of
        Counter_value v \<Rightarrow> dec (unat v)
      | Gauge_value v \<Rightarrow> print_g v
      | Dist_value d \<Rightarrow>
          ''{\"p50\":'' @ print_g (p50 d) @ '',\"p90\":'' @ print_g (p90 d) @ '',\"p99\":'' @ print_g (p99 d) @
          '',\"max\":'' @ print_g (dist_max d) @ '',\"count\":'' @ dec (dist_n d) @ ''}''
      | Histo_value h \<Rightarrow>
          ''{\"below\":'' @ dec (above h) @ '',\"above\":'' @ dec (below h) @ buckets_json h 0 (buckets_len h - 1) @ ''}''
      | Quantile_value q \<Rightarrow> ''{\"value\":'' @ print_g (sample q) @ '',\"count\":'' @ dec (qcount q) @ ''}''
      | Unknown_value _ \<Rightarrow> [])"

fun separate :: "'a \<Rightarrow> 'a list \<Rightarrow> 'a list" where
  "separate s (x # y # ys) = x # s # separate s (y # ys)"
| "separate s xs = xs"

definition metric_json :: "metric \<Rightarrow> string" where
  "metric_json m = ''\"'' @ mkey m @ ''\":'' @ value_json (mvalue m)"

definition metrics_json :: "metric list \<Rightarrow> string" where
  "metrics_json ms = ''{'' @ concat (separate '','' (map metric_json ms)) @ ''}''"

text \<open>A value that the poller can hand over: one of the five types, with arrays of the size that a histogram has.\<close>

definition printable :: "optics_poll_value \<Rightarrow> bool" where
  "printable v \<longleftrightarrow>
     (case v of
        Histo_value h \<Rightarrow> 0 < buckets_len h \<and> buckets_len h \<le> 9 \<and> length (buckets h) = 9 \<and> length (counts h) = 8
      | Unknown_value _ \<Rightarrow> False
      | _ \<Rightarrow> True)"

lemma separate_Cons: "concat (separate s (x # xs)) = x @ concat (map (\<lambda>y. s @ y) xs)"
  by (induction xs arbitrary: x) auto

lemma write_buckets_appends:
  assumes "buf_ok b" "n < length (buckets h)" "n \<le> length (counts h)" "i \<le> n"
    and "length (contents b) + length (buckets_json h i n) < 2 ^ 62"
  shows "appended b (buckets_json h i n) (write_buckets b h n i)"
  using assms
proof (induction b h n i rule: write_buckets.induct)
  case (1 b h n i)
  show ?case
  proof (cases "i < n")
    case True
    let ?s = "'',\"bucket_'' @ dec (buckets h ! i) @ ''-'' @ dec (buckets h ! (i + 1)) @ ''\":'' @ dec (counts h ! i)"
    have i: "i + 1 < length (buckets h) \<and> i < length (counts h)" using True "1.prems" by simp
    have j: "buckets_json h i n = ?s @ buckets_json h (i + 1) n" using True by (simp add: buckets_json_def upt_conv_Cons)
    have "appended b (?s @ buckets_json h (i + 1) n) (Option.bind (buffer_printf b ?s) (\<lambda>b. write_buckets b h n (i + 1)))"
    proof (rule appended_bind)
      show "appended b ?s (buffer_printf b ?s)"
        using "1.prems"(1,5) unfolding j by (intro appended_printf) simp_all
      fix b1 assume "buffer_printf b ?s = Some b1" "buf_ok b1" "contents b1 = contents b @ ?s"
      then show "appended b1 (buckets_json h (i + 1) n) (write_buckets b1 h n (i + 1))"
        using "1.IH" [OF True i, of b1] True "1.prems"(2,3,5) unfolding j by simp
    qed
    then show ?thesis unfolding j write_buckets.simps [of b h n i] using True i by simp
  next
    case False
    then show ?thesis using "1.prems"(1) by (simp add: buckets_json_def write_buckets.simps [of b] appended_Some)
  qed
qed

lemma write_counter_appends:
  assumes "buf_ok b" "printable (mvalue m)" "length (contents b) + length (metric_json m) < 2 ^ 62"
  shows "appended b (metric_json m) (write_counter b m)"
proof (cases "mvalue m")
  case (Histo_value h)
  let ?s = "''\"'' @ mkey m @ ''\":{\"below\":'' @ dec (above h) @ '',\"above\":'' @ dec (below h)"
  let ?t = "buckets_json h 0 (buckets_len h - 1)"
  have h: "0 < buckets_len h" "buckets_len h \<le> 9" "length (buckets h) = 9" "length (counts h) = 8"
    using assms(2) by (simp_all add: printable_def Histo_value)
  then have u: "usub (buckets_len h) 1 = buckets_len h - 1" by (intro usub_small) simp_all
  have j: "metric_json m = ?s @ ?t @ ''}''" by (simp add: metric_json_def value_json_def Histo_value)
  have len: "length (contents b) + length ?s + length ?t + 1 < 2 ^ 62" using assms(3) unfolding j by simp
  have "appended b (?s @ ?t @ ''}'')
      (Option.bind (buffer_printf b ?s) (\<lambda>b. Option.bind (write_buckets b h (buckets_len h - 1) 0) (\<lambda>b1. buffer_put b1 CHR ''}'')))"
  proof (intro appended_bind)
    show "appended b ?s (buffer_printf b ?s)" using len assms(1) by (intro appended_printf) simp_all
    fix b1 assume b1: "buf_ok b1" "contents b1 = contents b @ ?s"
    show "appended b1 ?t (write_buckets b1 h (buckets_len h - 1) 0)"
      using b1 len h by (intro write_buckets_appends) simp_all
    fix b2 assume "buf_ok b2" "contents b2 = contents b1 @ ?t"
    then show "appended b2 ''}'' (buffer_put b2 CHR ''}'')" using b1 len by (intro appended_put) simp_all
  qed
  then show ?thesis unfolding j by (simp add: write_counter_def Histo_value u del: One_nat_def)
qed (use assms in \<open>auto simp: write_counter_def metric_json_def value_json_def printable_def intro!: appended_printf\<close>)

lemma write_metrics_appends:
  assumes "buf_ok b" "\<forall>m \<in> set ms. printable (mvalue m)"
    and "length (contents b) + (\<Sum>m \<leftarrow> ms. length (metric_json m) + 1) < 2 ^ 62"
  shows "appended b (concat (if i = 0 then separate '','' (map metric_json ms) else map (\<lambda>m. '','' @ metric_json m) ms))
    (write_metrics b i ms)"
  using assms
proof (induction ms arbitrary: b i)
  case Nil
  then show ?case by (simp add: appended_Some)
next
  case (Cons m ms)
  let ?c = "if i > 0 then '','' else []"
  let ?t = "concat (map (\<lambda>m. '','' @ metric_json m) ms)"
  have "appended b (?c @ metric_json m @ ?t)
      (Option.bind (if i > 0 then buffer_put b CHR '','' else Some b) (\<lambda>b.
         Option.bind (write_counter b m) (\<lambda>b1. write_metrics b1 (i + 1) ms)))"
  proof (intro appended_bind)
    show "appended b ?c (if i > 0 then buffer_put b CHR '','' else Some b)"
      using Cons.prems(1,3) appended_put [of b "CHR '',''"] by (simp add: appended_Some)
    fix b1 assume b1: "buf_ok b1" "contents b1 = contents b @ ?c"
    have l: "length (contents b1) \<le> length (contents b) + 1" using b1(2) by simp
    then show "appended b1 (metric_json m) (write_counter b1 m)"
      using Cons.prems b1(1) by (intro write_counter_appends) simp_all
    fix b2 assume "buf_ok b2" "contents b2 = contents b1 @ metric_json m"
    then show "appended b2 ?t (write_metrics b2 (i + 1) ms)"
      using Cons.IH [of b2 "i + 1"] Cons.prems(2,3) l by simp
  qed
  then show ?case by (cases "i = 0") (simp_all add: separate_Cons comp_def)
qed

section \<open>Order\<close>

lemma strncmp_swap: "strncmp b a n = - strncmp a b n"
  by (induction a b n rule: strncmp.induct) auto

lemma of_char_nonneg: "0 \<le> (of_char c :: int)"
proof -
  have "0 \<le> int (of_char c)" by (rule of_nat_0_le_iff)
  then show ?thesis by (simp only: of_nat_of_char)
qed

lemma of_char_pos:
  assumes "c \<noteq> nil_char"
  shows "0 < (of_char c :: int)"
proof -
  have "of_char c \<noteq> (of_char nil_char :: int)" using assms by simp
  then have "of_char c \<noteq> (0 :: int)" by (simp add: nil_char_def)
  then show ?thesis using of_char_nonneg [of c] by linarith
qed

lemma strncmp_trans:
  assumes "cstring a" "cstring b" "cstring c" "strncmp a b n \<le> 0" "strncmp b c n \<le> 0"
  shows "strncmp a c n \<le> 0"
  using assms
proof (induction n arbitrary: a b c)
  case (Suc n)
  show ?case
  proof (cases a)
    case Nil
    then show ?thesis by (cases c) (simp_all add: of_char_nonneg)
  next
    case (Cons x as)
    have "0 < (of_char x :: int)" using Suc.prems(1) Cons by (intro of_char_pos) (auto simp: cstring_def)
    then obtain y bs where b: "b = y # bs" using Suc.prems(4) Cons by (cases b) auto
    have "0 < (of_char y :: int)" using Suc.prems(2) b by (intro of_char_pos) (auto simp: cstring_def)
    then obtain z cs where c: "c = z # cs" using Suc.prems(5) b by (cases c) auto
    have cs: "cstring as" "cstring bs" "cstring cs" using Suc.prems(1-3) Cons b c by (auto simp: cstring_def)
    have inj: "p = q" if "(of_char p :: int) = of_char q" for p q using that by simp
    show ?thesis
      using Suc.prems(4,5) Suc.IH [OF cs] inj [of x y] inj [of y z] inj [of x z] unfolding Cons b c
      by (auto split: if_splits)
  qed
qed simp

lemma metrics_cmp_orders:
  assumes "\<forall>m \<in> S. cstring (mkey m)"
  shows "cmp_orders metrics_cmp S"
proof -
  have "\<exists>i j. metrics_cmp a b = Some i \<and> metrics_cmp b a = Some j \<and> (i < 0 \<longleftrightarrow> 0 < j)" for a b
    using strncmp_swap [of "mkey b" "mkey a"] by (simp add: metrics_cmp_def)
  moreover have "the (metrics_cmp a c) \<le> 0"
    if "a \<in> S" "b \<in> S" "c \<in> S" "the (metrics_cmp a b) \<le> 0" "the (metrics_cmp b c) \<le> 0" for a b c
    using that assms strncmp_trans [of "mkey a" "mkey b" "mkey c"] by (simp add: metrics_cmp_def)
  ultimately show ?thesis unfolding cmp_orders_def by blast
qed

section \<open>Publishing a poll\<close>

text \<open>The metric of a poll.\<close>

definition metric_of :: "optics_poll \<Rightarrow> metric" where
  "metric_of poll = \<lparr>mkey = poll_key (pprefix poll) (phost poll) (pkey poll), mvalue = pvalue poll\<rparr>"

definition poll_names_ok :: "optics_poll \<Rightarrow> bool" where
  "poll_names_ok poll \<longleftrightarrow> cstring (pprefix poll) \<and> cstring (phost poll) \<and> cstring (pkey poll)"

lemma cstring_metric_of: "poll_names_ok p \<Longrightarrow> cstring (mkey (metric_of p))"
  by (auto simp: poll_names_ok_def metric_of_def poll_key_def dotted_def cstring_def nil_char_def dest!: in_set_takeD split: if_splits)

text \<open>The list under construction, with a capacity that is a power of two from 128 on.\<close>

definition building :: "metrics option \<Rightarrow> metric list \<Rightarrow> bool" where
  "building b ms \<longleftrightarrow>
     (case b of None \<Rightarrow> ms = [] | Some m \<Rightarrow> mdata m = ms \<and> length ms \<le> mcap m \<and> (\<exists>k. mcap m = 128 * 2 ^ k \<and> mcap m \<le> 128 + 2 * length ms))"

lemma sizeof_metrics_ok: "cap \<le> 2 ^ 50 \<Longrightarrow> malloc_ok (sizeof_metrics cap)"
  by (simp add: malloc_ok_def sizeof_metrics_def sizeof_metric_def umul_def uadd_def)

lemma metrics_append_builds:
  assumes "building b ms" "poll_names_ok p" "length ms < 2 ^ 47"
  obtains m where "metrics_append b p = Some m" "building (Some m) (ms @ [metric_of p])"
proof -
  obtain key where key: "poller_key (pprefix p) (phost p) (pkey p) = Some key" "key_str key = mkey (metric_of p)"
    using assms(2) poller_key_str [of "pprefix p" "phost p" "pkey p"] by (auto simp: poll_names_ok_def metric_of_def)
  have cut: "take optics_name_max_len (key_str key) = mkey (metric_of p)"
    by (simp add: key(2) metric_of_def poll_key_def optics_name_max_len_def)
  define m1 where "m1 = (case b of Some m \<Rightarrow> m | None \<Rightarrow> \<lparr>mcap = metrics_init_cap, mdata = []\<rparr>)"
  have m1: "building (Some m1) ms"
    using assms(1) by (auto simp: m1_def building_def metrics_init_cap_def intro: exI [of _ 0] split: option.splits)
  define m2 where "m2 = (if length (mdata m1) = mcap m1 then m1\<lparr>mcap := umul (mcap m1) 2\<rparr> else m1)"
  obtain k where k: "mdata m1 = ms" "length ms \<le> mcap m1" "mcap m1 = 128 * 2 ^ k" "mcap m1 \<le> 128 + 2 * length ms"
    using m1 by (auto simp: building_def)
  have u: "umul (mcap m1) 2 = 2 * mcap m1" using k(4) assms(3) by (simp add: umul_def)
  have m2: "mdata m2 = ms" "length ms < mcap m2" "\<exists>k. mcap m2 = 128 * 2 ^ k" "mcap m2 \<le> 128 + 2 * Suc (length ms)"
  proof -
    show "mdata m2 = ms" using k(1) by (simp add: m2_def)
    show "length ms < mcap m2" "mcap m2 \<le> 128 + 2 * Suc (length ms)" using k u by (auto simp: m2_def)
    show "\<exists>k. mcap m2 = 128 * 2 ^ k" using k(3) u by (auto simp: m2_def intro: exI [of _ "Suc k"])
  qed
  have "malloc_ok (sizeof_metrics metrics_init_cap)" "malloc_ok (sizeof_metrics (umul (mcap m1) 2))"
    using k(4) assms(3) u by (auto simp: metrics_init_cap_def intro!: sizeof_metrics_ok)
  then have "metrics_append b p = Some (m2\<lparr>mdata := mdata m2 @ [metric_of p]\<rparr>)"
    using key(1) cut by (cases b) (simp_all add: metrics_append_def m2_def m1_def metric_of_def Let_def metrics_init_cap_def)
  moreover have "building (Some (m2\<lparr>mdata := mdata m2 @ [metric_of p]\<rparr>)) (ms @ [metric_of p])"
    using m2 by (auto simp: building_def)
  ultimately show thesis by (rule that)
qed

text \<open>The metrics that requests see.\<close>

definition served :: "rest \<Rightarrow> metric list" where
  "served rest = (case current rest of None \<Rightarrow> [] | Some m \<Rightarrow> mdata m)"

text \<open>The calls of the poller, on the state of the backend (\<open>None\<close>: aborted).\<close>

fun rest_dumps :: "metric qsort \<Rightarrow> rest \<Rightarrow> (optics_poll_type \<times> optics_poll option) list \<Rightarrow> rest option" where
  "rest_dumps qsort rest [] = Some rest"
| "rest_dumps qsort rest ((type, poll) # calls) =
     Option.bind (rest_dump qsort rest type poll) (\<lambda>rest1. rest_dumps qsort rest1 calls)"

lemma rest_dumps_append:
  "rest_dumps qsort rest (xs @ ys) = Option.bind (rest_dumps qsort rest xs) (\<lambda>rest1. rest_dumps qsort rest1 ys)"
proof (induction qsort rest xs rule: rest_dumps.induct)
  case (2 qsort rest type poll calls)
  then show ?case by (cases "rest_dump qsort rest type poll") simp_all
qed simp

text \<open>The calls for the metrics of a poll only change what is under construction.\<close>

lemma rest_dumps_metrics:
  assumes "building (build rest) ms" "\<forall>p \<in> set ps. poll_names_ok p" "length ms + length ps < 2 ^ 47"
  shows "\<exists>b. rest_dumps qsort rest (map (\<lambda>p. (optics_poll_metric, Some p)) ps) = Some (rest\<lparr>build := b\<rparr>) \<and>
    building b (ms @ map metric_of ps)"
  using assms
proof (induction ps arbitrary: rest ms)
  case Nil
  then show ?case by (intro exI [of _ "build rest"]) simp
next
  case (Cons p ps)
  have "length ms < 2 ^ 47" "poll_names_ok p" using Cons.prems by simp_all
  then obtain m where m: "metrics_append (build rest) p = Some m" "building (Some m) (ms @ [metric_of p])"
    using metrics_append_builds [OF Cons.prems(1)] by blast
  then show ?case
    using Cons.IH [of "rest\<lparr>build := Some m\<rparr>" "ms @ [metric_of p]"] Cons.prems(2,3) by (simp add: rest_dump_def)
qed

lemma swap_tables_publishes:
  assumes "qsort_ok qsort" "rlock rest = 0" "building (build rest) ms" "\<forall>m \<in> set ms. cstring (mkey m)"
  obtains rest' where "swap_tables qsort rest = Some rest'" "rlock rest' = 0" "build rest' = None"
    "mset (served rest') = mset ms" "sorted_wrt (cmp_le metrics_cmp) (served rest')"
proof (cases "build rest")
  case None
  then show thesis using that [of "rest\<lparr>current := None, rlock := 0, build := None\<rparr>"] assms(2,3)
    by (simp add: swap_tables_def served_def building_def)
next
  case (Some m)
  have ms: "mdata m = ms" using assms(3) Some by (simp add: building_def)
  obtain ys where ys: "qsort metrics_cmp ms = Some ys" "mset ys = mset ms" "sorted_wrt (cmp_le metrics_cmp) ys"
    using assms(1) metrics_cmp_orders [OF assms(4)] unfolding qsort_ok_def by blast
  then show thesis using that [of "rest\<lparr>current := Some (m\<lparr>mdata := ys\<rparr>), rlock := 0, build := None\<rparr>"] assms(2) Some ms
    by (simp add: swap_tables_def served_def metrics_sort_def)
qed

text \<open>The calls that a poll makes.\<close>

definition poll_calls :: "optics_poll list \<Rightarrow> (optics_poll_type \<times> optics_poll option) list" where
  "poll_calls ps = (optics_poll_begin, None) # map (\<lambda>p. (optics_poll_metric, Some p)) ps @ [(optics_poll_done, None)]"

lemma rest_dumps_unfinished:
  assumes "\<forall>p \<in> set ps. poll_names_ok p" "length ps < 2 ^ 47"
  shows "\<exists>b. rest_dumps qsort rest ((optics_poll_begin, None) # map (\<lambda>p. (optics_poll_metric, Some p)) ps) = Some (rest\<lparr>build := b\<rparr>) \<and>
    building b (map metric_of ps)"
  using rest_dumps_metrics [of "rest\<lparr>build := None\<rparr>" "[]" ps qsort] assms by (simp add: rest_dump_def building_def)

lemma rest_dumps_poll:
  assumes "qsort_ok qsort" "rlock rest = 0" "\<forall>p \<in> set ps. poll_names_ok p" "length ps < 2 ^ 47"
  obtains r where "rest_dumps qsort rest (poll_calls ps) = Some r" "rlock r = 0" "build r = None"
    "mset (served r) = mset (map metric_of ps)"
    "sorted_wrt (\<lambda>a b. strncmp (mkey a) (mkey b) optics_name_max_len \<le> 0) (served r)"
proof -
  obtain b where b: "rest_dumps qsort rest ((optics_poll_begin, None) # map (\<lambda>p. (optics_poll_metric, Some p)) ps) = Some (rest\<lparr>build := b\<rparr>)"
      "building b (map metric_of ps)"
    using rest_dumps_unfinished [OF assms(3,4)] by blast
  have c: "\<forall>m \<in> set (map metric_of ps). cstring (mkey m)" using assms(3) cstring_metric_of by auto
  show thesis
  proof (rule swap_tables_publishes [where rest = "rest\<lparr>build := b\<rparr>", OF assms(1) _ _ c])
    fix r assume "swap_tables qsort (rest\<lparr>build := b\<rparr>) = Some r" "rlock r = 0" "build r = None"
      "mset (served r) = mset (map metric_of ps)" "sorted_wrt (cmp_le metrics_cmp) (served r)"
    then show thesis
      using that [of r] b(1)
        rest_dumps_append [of qsort rest "(optics_poll_begin, None) # map (\<lambda>p. (optics_poll_metric, Some p)) ps" "[(optics_poll_done, None)]"]
      by (simp add: poll_calls_def rest_dump_def cmp_le_def [abs_def] metrics_cmp_def)
  qed (use assms(2) b(2) in simp_all)
qed

text \<open>
  C16: Publishing a poll. A poll of fewer than \<open>2 ^ 47\<close> metrics neither aborts nor blocks the
  backend. Until its last call, requests see the metrics of the previous poll, complete and
  unchanged; after it they see exactly the metrics of this poll, sorted by their keys, and nothing is
  left of the list under construction.
\<close>

theorem rest_publishes:
  assumes "qsort_ok qsort" "rlock rest = 0" "\<forall>p \<in> set ps. poll_names_ok p" "length ps < 2 ^ 47"
  shows "(\<forall>n < length (poll_calls ps). \<exists>r. rest_dumps qsort rest (take n (poll_calls ps)) = Some r \<and> current r = current rest) \<and>
    (\<exists>r. rest_dumps qsort rest (poll_calls ps) = Some r \<and> rlock r = 0 \<and> build r = None \<and>
      mset (served r) = mset (map metric_of ps) \<and>
      sorted_wrt (\<lambda>a b. strncmp (mkey a) (mkey b) optics_name_max_len \<le> 0) (served r))"
proof (intro conjI allI impI)
  fix n assume "n < length (poll_calls ps)"
  then consider "n = 0" | k where "n = Suc k" "k \<le> length ps" by (cases n) (auto simp: poll_calls_def)
  then show "\<exists>r. rest_dumps qsort rest (take n (poll_calls ps)) = Some r \<and> current r = current rest"
  proof cases
    case (2 k)
    have t: "take n (poll_calls ps) = (optics_poll_begin, None) # map (\<lambda>p. (optics_poll_metric, Some p)) (take k ps)"
      using 2 by (simp add: poll_calls_def take_map)
    have "\<forall>p \<in> set (take k ps). poll_names_ok p" using assms(3) by (auto dest: in_set_takeD)
    moreover have "length (take k ps) < 2 ^ 47" using assms(4) by simp
    ultimately show ?thesis unfolding t using rest_dumps_unfinished [of "take k ps" qsort rest] by auto
  qed simp
qed (rule rest_dumps_poll [OF assms], blast)

definition poll_of :: "string \<Rightarrow> 64 word \<Rightarrow> optics_poll" where
  "poll_of name v = \<lparr>phost = ''node1'', pprefix = ''app'', pkey = name, pvalue = Counter_value v, pts = 10, pelapsed = 1\<rparr>"

theorem rest_publishes_witness:
  "\<exists>r. rest_dumps isort zero_rest (poll_calls [poll_of ''requests'' 3, poll_of ''errors'' 5]) = Some r \<and> rlock r = 0 \<and>
     mset (served r) = mset [metric_of (poll_of ''requests'' 3), metric_of (poll_of ''errors'' 5)]"
proof -
  have "\<forall>p \<in> set [poll_of ''requests'' 3, poll_of ''errors'' 5]. poll_names_ok p"
    by (simp add: poll_of_def poll_names_ok_def cstring_def nil_char_def)
  then show ?thesis
    using rest_publishes [OF isort_ok, of zero_rest "[poll_of ''requests'' 3, poll_of ''errors'' 5]"]
    by (auto simp: zero_rest_def)
qed

section \<open>Answering a request\<close>

lemma length_metrics_json: "length (metrics_json ms) \<le> 2 + (\<Sum>m \<leftarrow> ms. length (metric_json m) + 1)"
proof -
  have "length (concat (separate '','' (map metric_json ms))) \<le> (\<Sum>m \<leftarrow> ms. length (metric_json m) + 1)"
  proof (cases ms)
    case (Cons m ns)
    have "length (concat (map ((#) CHR '','' \<circ> metric_json) ns)) = (\<Sum>m \<leftarrow> ns. length (metric_json m) + 1)"
      by (induction ns) simp_all
    then show ?thesis using Cons by (simp add: separate_Cons)
  qed simp
  then show ?thesis by (simp add: metrics_json_def)
qed

lemma rest_body:
  assumes "\<forall>m \<in> set (served rest). printable (mvalue m)" "2 + (\<Sum>m \<leftarrow> served rest. length (metric_json m) + 1) < 2 ^ 62"
  obtains b b1 b2 where "buffer_put zero_buffer CHR ''{'' = Some b"
    "(case current rest of None \<Rightarrow> Some b | Some m \<Rightarrow> write_metrics b 0 (mdata m)) = Some b1"
    "buffer_put b1 CHR ''}'' = Some b2" "contents b2 = metrics_json (served rest)"
proof -
  have "appended zero_buffer ''{'' (buffer_put zero_buffer CHR ''{'')" by (rule appended_put) simp_all
  then obtain b where b: "buffer_put zero_buffer CHR ''{'' = Some b" "buf_ok b" "contents b = ''{''" by (auto simp: appended_def)
  have "appended b (concat (separate '','' (map metric_json (served rest)))) (write_metrics b 0 (served rest))"
    using write_metrics_appends [OF b(2) assms(1), of 0] assms(2) b(3) by simp
  then obtain b1 where b1: "write_metrics b 0 (served rest) = Some b1" "buf_ok b1"
      "contents b1 = ''{'' @ concat (separate '','' (map metric_json (served rest)))"
    using b(3) by (auto simp: appended_def)
  have "appended b1 ''}'' (buffer_put b1 CHR ''}'')"
    using length_metrics_json [of "served rest"] assms(2) b1(2,3) by (intro appended_put) (simp_all add: metrics_json_def)
  then obtain b2 where "buffer_put b1 CHR ''}'' = Some b2" "contents b2 = metrics_json (served rest)"
    using b1(3) by (auto simp: appended_def metrics_json_def)
  then show thesis using that [of b b1 b2] b(1) b1(1) by (cases "current rest") (simp_all add: served_def)
qed

lemma rest_get_writes:
  assumes "rlock rest = 0" "\<forall>m \<in> set (served rest). printable (mvalue m)"
    and "2 + (\<Sum>m \<leftarrow> served rest. length (metric_json m) + 1) < 2 ^ 62"
  obtains resp where "rest_get rest req zero_resp = Some (crest_ok, rest, resp)" "sent resp = []"
    "contents (body resp) = metrics_json (served rest)" "map_of (resp_headers resp) ''content-type'' = Some ''text/plain''"
proof -
  from assms(2,3) obtain b b1 b2 where b: "buffer_put zero_buffer CHR ''{'' = Some b"
      "(case current rest of None \<Rightarrow> Some b | Some m \<Rightarrow> write_metrics b 0 (mdata m)) = Some b1"
      "buffer_put b1 CHR ''}'' = Some b2" "contents b2 = metrics_json (served rest)"
    by (rule rest_body)
  obtain r1 where r1: "crest_resp_add_header zero_resp ''content-type'' ''text/plain'' = Some r1" by (rule add_header_zero)
  have "length (hvalues zero_resp) < 18446744073709551616" by (simp add: zero_resp_def)
  note H = crest_resp_add_header_spec [OF resp_ok_zero this r1]
  have "appended zero_buffer (contents b2) (buffer_write zero_buffer (contents b2))"
    using length_metrics_json [of "served rest"] assms(3) b(4) by (intro appended_write) simp_all
  then obtain d where d: "buffer_write zero_buffer (contents b2) = Some d" "contents d = contents b2" by (auto simp: appended_def)
  have c: "cut_key ''content-type'' = ''content-type''" by (simp add: cut_key_def htable_key_max_len_def)
  have "header_of r1 ''content-type'' = Some ''text/plain''" using H(2) [of "''content-type''"] by simp
  then have "map_of (resp_headers r1) ''content-type'' = Some ''text/plain''"
    using resp_headers_map(1) [OF H(1), of "''content-type''"] unfolding c by simp
  then have "map_of (resp_headers (r1\<lparr>body := d\<rparr>)) ''content-type'' = Some ''text/plain''" by (simp add: resp_headers_def)
  moreover have "rest_get rest req zero_resp = Some (crest_ok, rest, r1\<lparr>body := d\<rparr>)"
    using assms(1) b(1-3) r1 d(1) H(3) by (simp add: rest_get_def crest_resp_write_def zero_resp_def)
  moreover have "sent (r1\<lparr>body := d\<rparr>) = []" using H(4) by (simp add: zero_resp_def)
  ultimately show thesis using that [of "r1\<lparr>body := d\<rparr>"] d(2) b(4) by simp
qed

text \<open>A server that has this resource only.\<close>

definition rest_server :: "rest crest" where
  "rest_server = snd (crest_bind True (snd (crest_add crest_new rest_res)))"

lemma rest_server_routes:
  assumes "cstring url" "url_tokens (take 1024 url) = [''metrics'', ''json'']"
  shows "router_route (crouter rest_server) (path_new url) = Some rest_res"
proof -
  have c: "cstring ''/metrics/json''" by (simp add: cstring_def nil_char_def)
  have p: "pattern (url_tokens (take 1024 ''/metrics/json'')) = [Const ''metrics'', Const ''json'']"
    by (simp add: url_tokens_def path_token_type_def)
  obtain ok r where r: "router_add empty_router (path_new ''/metrics/json'') rest_res = (ok, r)"
    by (cases "router_add empty_router (path_new ''/metrics/json'') rest_res")
  have "routes r = [[Const ''metrics'', Const ''json''] \<mapsto> rest_res]"
    using router_add_routes [of "path_new ''/metrics/json''" empty_router rest_res ok r] path_new_ok [OF c] r p
    by (auto simp: add_route_def fun_eq_iff)
  moreover have "crouter rest_server = r" using r by (simp add: rest_server_def crest_bind_def crest_add_def crest_new_def rest_res_def)
  moreover have "best_route (routes r) [''metrics'', ''json''] (router_route r (path_new url))"
    using router_route_best [of "path_new url" r] path_new_ok [OF assms(1)] assms(2) by simp
  ultimately show ?thesis by (auto simp: best_route_def split: option.splits if_splits)
qed

text \<open>
  Reading the metrics. If no thread holds the lock, then a GET of \<^verbatim>\<open>/metrics/json\<close> is answered with
  200, the type \<^verbatim>\<open>text/plain\<close> and exactly the published metrics, in their order, between braces and with commas
  between them; it changes nothing and leaves the lock free. (The answer has to fit into memory.)
\<close>

lemma rest_get_json:
  assumes "mhd_works mhd" "rlock rest = 0" "\<forall>m \<in> set (served rest). printable (mvalue m)"
    and "2 + (\<Sum>m \<leftarrow> served rest. length (metric_json m) + 1) < 2 ^ 62"
    and "cstring (qurl req)" "url_tokens (take 1024 (qurl req)) = [''metrics'', ''json'']" "qmethod req = ''GET''"
  shows "\<exists>resp hs. crest_process mhd rest_server rest req zero_resp = Some (rest, resp) \<and>
    sent resp = [(200, hs, metrics_json (served rest))] \<and> map_of hs ''content-type'' = Some ''text/plain''"
proof -
  from assms(2-4) obtain resp where g: "rest_get rest req zero_resp = Some (crest_ok, rest, resp)" "sent resp = []"
      "contents (body resp) = metrics_json (served rest)" "map_of (resp_headers resp) ''content-type'' = Some ''text/plain''"
    by (rule rest_get_writes)
  have m: "crest_req_get_method req = crest_get" using assms(7) by (simp add: crest_req_get_method_def is_method_def)
  have r: "router_route (crouter rest_server) (crest_req_get_path req) = Some rest_res"
    using rest_server_routes [OF assms(5,6)] by (simp add: crest_req_get_path_def)
  have h: "handler rest_res (crest_req_get_method req) = Some rest_get" by (simp add: m handler_def rest_res_def)
  have T: "run_test (authorized rest_res) rest req = (True, rest)" "run_test (forbidden rest_res) rest req = (True, rest)"
      "run_test (accepts rest_res) rest req = (True, rest)" "run_test (exists_cb rest_res) rest req = (True, rest)"
    by (simp_all add: run_test_def rest_res_def)
  have "crest_process mhd rest_server rest req zero_resp = crest_call_cb mhd rest req zero_resp rest_get 200"
    using crest_process_checks(1) [OF r h T refl refl, of mhd] m by (simp add: success_code_def)
  then show ?thesis using g by (simp add: crest_call_cb_def crest_resp_send_works [OF assms(1)])
qed

end
