(* ===== verification/Backends.thy ===== *)
theory Backends
  imports Poller Buffer Format
begin

text \<open>
  The backends that write lines: \<^verbatim>\<open>src/backend_stdout.c\<close> and \<^verbatim>\<open>src/backend_carbon.c\<close>, with the
  stream sockets of \<^verbatim>\<open>src/utils/socket.c\<close>. The network is a parameter: what it does at
  each step. File descriptors are integers and \<open>opened\<close> has those that are open.
\<close>

section \<open>Sockets\<close>

text \<open>
  An address that the resolver found: the descriptor that \<^verbatim>\<open>socket\<close> returns for it (-1 on failure), and
  whether the socket then connects (or is bound and listens).
\<close>

type_synonym addrinfo = "int \<times> bool"

fun addr_loop :: "addrinfo list \<Rightarrow> int list \<Rightarrow> int \<times> int list" where
  "addr_loop [] opened = (-1, opened)"
| "addr_loop ((sock, works) # addrs) opened =
     (if sock = -1 then addr_loop addrs opened
      else if works then (sock, opened @ [sock])
      else addr_loop addrs opened)"

text \<open>\<open>gai\<close> is what \<^verbatim>\<open>getaddrinfo\<close> returns.\<close>

definition socket_stream_connect :: "addrinfo list option \<Rightarrow> int list \<Rightarrow> int \<times> int list" where
  "socket_stream_connect gai opened =
     (case gai of
        None \<Rightarrow> (-1, opened)
      | Some addrs \<Rightarrow> (case addr_loop addrs opened of (sock, opened1) \<Rightarrow> (if sock > 0 then sock else -1, opened1)))"

text \<open>Here an address has whether the socket is bound, and whether it then listens.\<close>

definition socket_stream_listen :: "(int \<times> bool \<times> bool) list option \<Rightarrow> int list \<Rightarrow> int \<times> int list" where
  "socket_stream_listen gai opened =
     (case gai of
        None \<Rightarrow> (-1, opened)
      | Some addrs \<Rightarrow>
          (case addr_loop (map (\<lambda>(sock, bound, listens). (sock, bound \<and> listens)) addrs) opened of
             (sock, opened1) \<Rightarrow> (if sock > 0 then sock else -1, opened1)))"

definition socket_stream_accept :: "int \<Rightarrow> int" where
  "socket_stream_accept accepted = (if accepted \<ge> 0 then accepted else -1)"

definition socket_send :: "int \<Rightarrow> nat \<Rightarrow> bool" where
  "socket_send ret len \<longleftrightarrow> ret = sint (of_nat len :: 64 word)"

definition socket_recv :: "int \<Rightarrow> int" where
  "socket_recv ret = (if ret > 0 then ret else -1)"

text \<open>\<open>ret\<close> is what \<^verbatim>\<open>gethostname\<close> returns and \<open>name\<close> what it writes.\<close>

definition hostname :: "int \<Rightarrow> string \<Rightarrow> string option" where
  "hostname ret name = (if ret = 0 then Some name else None)"

section \<open>Carbon\<close>

text \<open>What the network does at one step: the resolver and the connections, and what \<^verbatim>\<open>send\<close> returns for a length.\<close>

record net_step =
  gai :: "addrinfo list option"
  send_ret :: "nat \<Rightarrow> int"

text \<open>
  \<^verbatim>\<open>struct carbon\<close>, with what it does to its surroundings: the open descriptors, the bytes sent,
  the times of the attempts to connect, and the network with the number of its steps so far.
\<close>

record carbon =
  carbon_host :: string
  carbon_port :: string
  cfd :: int
  last_attempt :: nat
  opened :: "int list"
  wire :: string
  attempts :: "nat list"
  net :: "nat \<Rightarrow> net_step"
  steps :: nat

text \<open>\<open>None\<close>: the assertion fails.\<close>

definition carbon_connect :: "carbon \<Rightarrow> (bool \<times> carbon) option" where
  "carbon_connect carbon =
     (if \<not> cfd carbon \<le> 0 then None
      else
        (case socket_stream_connect (gai (net carbon (steps carbon))) (opened carbon) of
           (sock, opened1) \<Rightarrow> Some (sock > 0, carbon\<lparr>cfd := sock, opened := opened1\<rparr>)))"

text \<open>The part of \<^verbatim>\<open>carbon_send\<close> after the connection is there.\<close>

definition carbon_transmit :: "carbon \<Rightarrow> string \<Rightarrow> carbon" where
  "carbon_transmit carbon data =
     (let ret = send_ret (net carbon (steps carbon)) (length data) in
      if ret \<ge> 0 then carbon\<lparr>wire := wire carbon @ take (nat ret) data\<rparr>
      else carbon\<lparr>opened := removeAll (cfd carbon) (opened carbon), cfd := -1\<rparr>)"

text \<open>One step of the network per message.\<close>

definition carbon_send :: "carbon \<Rightarrow> string \<Rightarrow> nat \<Rightarrow> carbon option" where
  "carbon_send carbon data ts =
     map_option (\<lambda>c. c\<lparr>steps := steps c + 1\<rparr>)
       (if cfd carbon \<le> 0 then
          if last_attempt carbon = ts then Some carbon
          else
            Option.bind (carbon_connect (carbon\<lparr>last_attempt := ts, attempts := attempts carbon @ [ts]\<rparr>)) (\<lambda>(connected, carbon1).
              if \<not> connected then Some carbon1 else Some (carbon_transmit carbon1 data))
        else Some (carbon_transmit carbon data))"

text \<open>The callbacks keep the state in an option: \<open>None\<close> once the process has aborted.\<close>

definition carbon_dump_normalized :: "optics_poll \<Rightarrow> carbon option normalize_cb" where
  "carbon_dump_normalized poll ctx ts key v =
     (True,
      Option.bind ctx (\<lambda>carbon.
        Option.bind (buffer_printf zero_buffer (pprefix poll @ ''.'' @ phost poll)) (\<lambda>b.
          Option.bind (buffer_printf b (''.'' @ key @ '' '' @ print_g v @ '' '' @ dec ts @ [CHR 0x0A])) (\<lambda>b1.
            carbon_send carbon (contents b1) ts))))"

text \<open>\<open>poll\<close> is \<open>None\<close> for the first and the last call of a poll, which are ignored.\<close>

definition carbon_dump :: "carbon option backend_cb" where
  "carbon_dump ctx type poll =
     (if type \<noteq> optics_poll_metric then ctx
      else
        Option.bind poll (\<lambda>p. Option.bind (optics_poll_normalize p (carbon_dump_normalized p) ctx) snd))"

text \<open>The descriptor is closed whether or not there is a connection.\<close>

definition carbon_free :: "carbon \<Rightarrow> carbon" where
  "carbon_free carbon = carbon\<lparr>opened := removeAll (cfd carbon) (opened carbon)\<rparr>"

text \<open>The state that \<^verbatim>\<open>optics_dump_carbon\<close> registers.\<close>

definition new_carbon :: "(nat \<Rightarrow> net_step) \<Rightarrow> int list \<Rightarrow> string \<Rightarrow> string \<Rightarrow> carbon" where
  "new_carbon network fds h port = \<lparr>carbon_host = h, carbon_port = port, cfd = 0, last_attempt = 0, opened = fds,
     wire = [], attempts = [], net = network, steps = 0\<rparr>"

section \<open>Standard output\<close>

text \<open>The state is the text printed so far.\<close>

definition stdout_dump_normalized :: "optics_poll \<Rightarrow> string normalize_cb" where
  "stdout_dump_normalized poll out ts key v =
     (True, out @ ''['' @ dec ts @ ''] '' @ pprefix poll @ ''.'' @ key @ ''{host='' @ [CHR 0x27] @ phost poll @ [CHR 0x27] @
       ''} = '' @ print_g v @ [CHR 0x0A])"

definition stdout_dump :: "string option backend_cb" where
  "stdout_dump ctx type poll =
     (if type \<noteq> optics_poll_metric then ctx
      else
        Option.bind ctx (\<lambda>out. Option.bind poll (\<lambda>p.
          map_option snd (optics_poll_normalize p (stdout_dump_normalized p) out))))"

section \<open>The numbers of a poll\<close>

text \<open>
  What a poll is reported as: a key and a number each, where a key with a suffix is cut to 255 characters.
\<close>

definition suffixed :: "optics_poll \<Rightarrow> string \<Rightarrow> string" where
  "suffixed poll suffix = take 255 (dotted (take 255 (pkey poll)) suffix)"

definition bucket_name :: "optics_histo \<Rightarrow> nat \<Rightarrow> string" where
  "bucket_name h i = take 255 (''bucket_'' @ dec (buckets h ! i) @ ''_'' @ dec (buckets h ! (i + 1)))"

definition numbers :: "optics_poll \<Rightarrow> (string \<times> double) list" where
  "numbers poll =
     (case pvalue poll of
        Counter_value v \<Rightarrow> [(pkey poll, lens_rescale poll (of_i64 (sint v)))]
      | Gauge_value v \<Rightarrow> [(pkey poll, v)]
      | Dist_value d \<Rightarrow>
          [(suffixed poll ''count'', lens_rescale poll (of_u64 (dist_n d))), (suffixed poll ''p50'', p50 d),
           (suffixed poll ''p90'', p90 d), (suffixed poll ''p99'', p99 d), (suffixed poll ''max'', dist_max d)]
      | Histo_value h \<Rightarrow>
          [(suffixed poll ''below'', lens_rescale poll (of_u64 (below h))),
           (suffixed poll ''above'', lens_rescale poll (of_u64 (above h)))] @
          map (\<lambda>i. (suffixed poll (bucket_name h i), lens_rescale poll (of_u64 (counts h ! i)))) [0..<buckets_len h - 1]
      | Quantile_value q \<Rightarrow> [(pkey poll, sample q)]
      | Unknown_value _ \<Rightarrow> [])"

text \<open>A poll that can be reported.\<close>

definition reportable :: "optics_poll \<Rightarrow> bool" where
  "reportable poll \<longleftrightarrow> cstring (pkey poll) \<and>
     (case pvalue poll of Histo_value h \<Rightarrow> 0 < buckets_len h | Unknown_value _ \<Rightarrow> False | _ \<Rightarrow> True)"

lemma cstring_lits: "cstring ''below''" "cstring ''above''"
  by (simp_all add: cstring_def nil_char_def)

text \<open>A callback that never refuses: it gets every number once, in order.\<close>

locale number_sink =
  fixes cb :: "'c normalize_cb"
  assumes accepts_all: "fst (cb ctx ts key v)"
begin

definition receive :: "optics_poll \<Rightarrow> 'c \<Rightarrow> (string \<times> double) list \<Rightarrow> 'c" where
  "receive poll = foldl (\<lambda>c (key, v). snd (cb c (pts poll) key v))"

lemma cb_all_receives:
  assumes "key_inv key" "\<forall>(s, v) \<in> set xs. cstring s"
  shows "cb_all cb poll key ctx xs = Some (True, receive poll ctx (map (\<lambda>(s, v). (take 255 (dotted (key_str key) s), v)) xs))"
  using assms
proof (induction xs arbitrary: key ctx)
  case (Cons x xs)
  obtain s v where x: "x = (s, v)" by (cases x)
  have "cstring s" using Cons.prems(2) x by simp
  then obtain key1 where k1: "optics_key_push key s = Some (klen key, key1)" "key_inv key1"
      "key_str key1 = take 255 (dotted (key_str key) s)" "klen key \<le> klen key1" "take (klen key) (kdata key1) = key_str key"
    using optics_key_push_spec [OF Cons.prems(1)] by metis
  obtain key2 where k2: "optics_key_pop key1 (klen key) = Some key2" "key_inv key2" "key_str key2 = take (klen key) (key_str key1)"
    using optics_key_pop_spec [OF k1(2,4)] by metis
  have str: "key_str key2 = key_str key" using k2(3) k1(4,5) by (simp add: key_str_def min_absorb1)
  let ?c = "cb ctx (pts poll) (key_str key1) v"
  have "cb_suffix cb poll key ctx s v = Some (True, key2, snd ?c)"
    using k1(1) k2(1) accepts_all [of ctx "pts poll" "key_str key1" v] by (cases ?c) (simp add: cb_suffix_def)
  then have "cb_all cb poll key ctx (x # xs) = cb_all cb poll key2 (snd ?c) xs" by (simp add: x)
  also have "\<dots> = Some (True, receive poll (snd ?c) (map (\<lambda>(s, v). (take 255 (dotted (key_str key2) s), v)) xs))"
    using Cons.IH [OF k2(2)] Cons.prems(2) by simp
  finally show ?case by (simp add: receive_def x str k1(3))
qed (simp add: receive_def)

lemma normalize_receives:
  assumes "reportable poll"
  shows "optics_poll_normalize poll cb ctx = Some (True, receive poll ctx (numbers poll))"
proof -
  have c: "cstring (pkey poll)" using assms by (simp add: reportable_def)
  obtain key where key: "optics_key_push zero_key (pkey poll) = Some (klen zero_key, key)" "key_inv key" "key_str key = take 255 (pkey poll)"
    using optics_key_push_spec [OF key_inv_zero(1) c] by (metis dotted_def key_inv_zero(2))
  note A = cb_all_receives [OF key(2)]
  show ?thesis
  proof (cases "pvalue poll")
    case (Dist_value d)
    show ?thesis
      by (simp add: optics_poll_normalize_def Dist_value lens_dist_normalize_def key(1,3) A numbers_def suffixed_def cstring_def nil_char_def
          del: cb_all.simps)
  next
    case (Histo_value h)
    have "cstring ''bucket_''" "cstring ''_''" by (simp_all add: cstring_def nil_char_def)
    then have b: "cstring (bucket_name h i)" for i
      unfolding bucket_name_def by (intro cstring_take) (simp only: cstring_append cstring_dec simp_thms)
    have "lens_histo_normalize poll h cb ctx = Some (True, receive poll ctx (numbers poll))"
      unfolding lens_histo_normalize_def bucket_name_def [symmetric]
      using assms b
      by (simp add: Histo_value key(1,3) A numbers_def suffixed_def reportable_def comp_def cstring_lits del: cb_all.simps One_nat_def)
    then show ?thesis by (simp add: optics_poll_normalize_def Histo_value)
  qed (use assms accepts_all in \<open>auto simp: optics_poll_normalize_def numbers_def receive_def reportable_def
      lens_counter_normalize_def lens_gauge_normalize_def lens_quantile_normalize_def prod_eq_iff\<close>)
qed

end

interpretation carbon: number_sink "carbon_dump_normalized poll" for poll
  by unfold_locales (simp add: carbon_dump_normalized_def)

interpretation stdout: number_sink "stdout_dump_normalized poll" for poll
  by unfold_locales (simp add: stdout_dump_normalized_def)

section \<open>Lines\<close>

definition carbon_line :: "optics_poll \<Rightarrow> string \<times> double \<Rightarrow> string" where
  "carbon_line poll = (\<lambda>(key, v). pprefix poll @ ''.'' @ phost poll @ ''.'' @ key @ '' '' @ print_g v @ '' '' @ dec (pts poll) @ [CHR 0x0A])"

lemma carbon_dump_normalized_line:
  assumes "length (carbon_line poll (key, v)) < 2 ^ 62"
  shows "carbon_dump_normalized poll ctx (pts poll) key v = (True, Option.bind ctx (\<lambda>c. carbon_send c (carbon_line poll (key, v)) (pts poll)))"
proof -
  let ?s = "pprefix poll @ ''.'' @ phost poll" and ?t = "''.'' @ key @ '' '' @ print_g v @ '' '' @ dec (pts poll) @ [CHR 0x0A]"
  have l: "carbon_line poll (key, v) = ?s @ ?t" by (simp add: carbon_line_def)
  have "appended zero_buffer ?s (buffer_printf zero_buffer ?s)"
    using assms unfolding l by (intro appended_printf) simp_all
  then obtain b where b: "buffer_printf zero_buffer ?s = Some b" "buf_ok b" "contents b = ?s" unfolding appended_def by auto
  have "appended b ?t (buffer_printf b ?t)" using assms b(2,3) unfolding l by (intro appended_printf) simp_all
  then obtain b1 where "buffer_printf b ?t = Some b1" "contents b1 = ?s @ ?t" using b(3) unfolding appended_def by auto
  then show ?thesis using b(1) unfolding l by (simp add: carbon_dump_normalized_def)
qed

text \<open>There is a connection, or there will be one when the next message is sent.\<close>

definition carbon_up :: "carbon \<Rightarrow> nat \<Rightarrow> bool" where
  "carbon_up c ts \<longleftrightarrow> cfd c > 0 \<or>
     (last_attempt c \<noteq> ts \<and> fst (socket_stream_connect (gai (net c (steps c))) (opened c)) > 0)"

lemma carbon_send_up:
  assumes "carbon_up c ts" "\<forall>n len. send_ret (net c n) len = int len"
  shows "\<exists>c'. carbon_send c data ts = Some c' \<and> cfd c' > 0 \<and> net c' = net c \<and> wire c' = wire c @ data"
proof (cases "cfd c > 0")
  case True
  then show ?thesis using assms(2) by (simp add: carbon_send_def carbon_transmit_def Let_def)
next
  case False
  obtain s os where s: "socket_stream_connect (gai (net c (steps c))) (opened c) = (s, os)"
    by (cases "socket_stream_connect (gai (net c (steps c))) (opened c)")
  then have "last_attempt c \<noteq> ts" "0 < s" using False assms(1) by (simp_all add: carbon_up_def)
  then show ?thesis using False s assms(2) by (simp add: carbon_send_def carbon_connect_def carbon_transmit_def Let_def)
qed

lemma carbon_receives:
  assumes "carbon_up c (pts poll)" "\<forall>n len. send_ret (net c n) len = int len" "\<forall>x \<in> set xs. length (carbon_line poll x) < 2 ^ 62"
  shows "\<exists>c'. carbon.receive poll poll (Some c) xs = Some c' \<and> wire c' = wire c @ concat (map (carbon_line poll) xs)"
  using assms
proof (induction xs arbitrary: c)
  case (Cons x xs)
  obtain key v where x: "x = (key, v)" by (cases x)
  obtain c1 where c1: "carbon_send c (carbon_line poll x) (pts poll) = Some c1" "cfd c1 > 0" "net c1 = net c"
      "wire c1 = wire c @ carbon_line poll x"
    using carbon_send_up [OF Cons.prems(1,2)] by blast
  have "carbon.receive poll poll (Some c) (x # xs) = carbon.receive poll poll (Some c1) xs"
    using carbon_dump_normalized_line [of poll key v "Some c"] Cons.prems(3) c1(1) by (simp add: carbon.receive_def x)
  then show ?case using Cons.IH [of c1] Cons.prems(2,3) c1(2-4) by (simp add: carbon_up_def)
qed (simp add: carbon.receive_def)

text \<open>
  C24: Sending a poll to carbon. If there is a connection, or one can be made at this time, and the network takes what
  it is given, then a poll is sent as one line for each of its numbers, in order: prefix, host and key with dots between them, the number
  with six digits, the time. A counter is reported per second.
\<close>

theorem carbon_sends_lines:
  assumes "reportable poll" "carbon_up c (pts poll)" "\<forall>n len. send_ret (net c n) len = int len"
    and "\<forall>x \<in> set (numbers poll). length (carbon_line poll x) < 2 ^ 62"
  shows "\<exists>c'. carbon_dump (Some c) optics_poll_metric (Some poll) = Some c' \<and>
    wire c' = wire c @ concat (map (carbon_line poll) (numbers poll))"
  using carbon_receives [OF assms(2-4)] carbon.normalize_receives [OF assms(1), of poll "Some c"]
  by (auto simp: carbon_dump_def)

section \<open>Connections\<close>

lemma addr_loop_fd:
  assumes "addr_loop addrs fds = (s, fds1)" "\<forall>(s, _) \<in> set addrs. s = -1 \<or> P s"
  shows "s = -1 \<and> fds1 = fds \<or> P s \<and> fds1 = fds @ [s]"
  using assms by (induction addrs fds rule: addr_loop.induct) (auto split: if_splits)

text \<open>A descriptor that \<^verbatim>\<open>socket\<close> returns was not open; it is not 0 as long as standard input is open.\<close>

definition fresh_sockets :: "int list \<Rightarrow> net_step \<Rightarrow> bool" where
  "fresh_sockets fds step \<longleftrightarrow> (case gai step of None \<Rightarrow> True | Some addrs \<Rightarrow> \<forall>(s, _) \<in> set addrs. s = -1 \<or> (0 < s \<and> s \<notin> set fds))"

definition carbon_inv :: "int list \<Rightarrow> nat \<Rightarrow> carbon \<Rightarrow> bool" where
  "carbon_inv fds ts c \<longleftrightarrow> opened c = fds @ (if cfd c > 0 then [cfd c] else []) \<and> cfd c \<notin> set fds - {0} \<and>
     (\<forall>n. fresh_sockets fds (net c n)) \<and>
     sorted_wrt (<) (attempts c) \<and> (\<forall>t \<in> set (attempts c). t \<le> last_attempt c) \<and> last_attempt c \<le> ts"

lemma carbon_transmit_inv: "carbon_inv fds ts c \<Longrightarrow> cfd c > 0 \<Longrightarrow> -1 \<notin> set fds \<Longrightarrow> carbon_inv fds ts (carbon_transmit c data)"
  by (auto simp: carbon_inv_def carbon_transmit_def Let_def)

lemma carbon_connect_inv:
  assumes "carbon_inv fds ts c" "cfd c \<le> 0" "-1 \<notin> set fds"
  obtains b c1 where "carbon_connect c = Some (b, c1)" "carbon_inv fds ts c1" "b \<longleftrightarrow> cfd c1 > 0"
proof -
  obtain s os where s: "socket_stream_connect (gai (net c (steps c))) (opened c) = (s, os)"
    by (cases "socket_stream_connect (gai (net c (steps c))) (opened c)")
  have o: "opened c = fds" "fresh_sockets fds (net c (steps c))" using assms(1,2) by (simp_all add: carbon_inv_def)
  have "s = -1 \<and> os = fds \<or> (0 < s \<and> s \<notin> set fds) \<and> os = fds @ [s]"
  proof (cases "gai (net c (steps c))")
    case (Some addrs)
    obtain t ot where t: "addr_loop addrs fds = (t, ot)" by (cases "addr_loop addrs fds")
    have "\<forall>(s, _) \<in> set addrs. s = -1 \<or> (0 < s \<and> s \<notin> set fds)" using o(2) Some by (simp add: fresh_sockets_def)
    from addr_loop_fd [OF t this] show ?thesis using s t Some o(1) by (auto simp: socket_stream_connect_def)
  qed (use s o(1) in \<open>simp add: socket_stream_connect_def\<close>)
  then have "carbon_inv fds ts (c\<lparr>cfd := s, opened := os\<rparr>)" using assms by (elim disjE) (simp_all add: carbon_inv_def)
  moreover have "carbon_connect c = Some (s > 0, c\<lparr>cfd := s, opened := os\<rparr>)" using s assms(2) by (simp add: carbon_connect_def)
  ultimately show thesis using that by simp
qed

lemma carbon_send_inv:
  assumes "carbon_inv fds t0 c" "t0 \<le> ts" "-1 \<notin> set fds"
  obtains c' where "carbon_send c data ts = Some c'" "carbon_inv fds ts c'"
proof -
  have I: "carbon_inv fds ts c" using assms(1,2) by (auto simp: carbon_inv_def)
  have tick: "carbon_inv fds ts (d\<lparr>steps := steps d + 1\<rparr>) = carbon_inv fds ts d" for d by (simp add: carbon_inv_def)
  show thesis
  proof (cases "cfd c > 0")
    case True
    then show thesis using that carbon_transmit_inv [OF I True assms(3)] tick by (auto simp: carbon_send_def)
  next
    case down: False
    let ?c = "c\<lparr>last_attempt := ts, attempts := attempts c @ [ts]\<rparr>"
    show thesis
    proof (cases "last_attempt c = ts")
      case True
      then show thesis using that I down tick by (auto simp: carbon_send_def)
    next
      case False
      then have "last_attempt c < ts" using I by (simp add: carbon_inv_def)
      then have "carbon_inv fds ts ?c" using I by (fastforce simp: carbon_inv_def sorted_wrt_append)
      from this _ assms(3) obtain b c1 where c1: "carbon_connect ?c = Some (b, c1)" "carbon_inv fds ts c1" "b \<longleftrightarrow> cfd c1 > 0"
        by (rule carbon_connect_inv) (use down in simp)
      let ?d = "if b then carbon_transmit c1 data else c1"
      have "carbon_send c data ts = Some (?d\<lparr>steps := steps ?d + 1\<rparr>)" using down False c1(1) by (simp add: carbon_send_def)
      moreover have "carbon_inv fds ts ?d" using c1(2,3) carbon_transmit_inv [OF _ _ assms(3)] by simp
      ultimately show thesis using that tick by blast
    qed
  qed
qed

fun carbon_sends :: "carbon \<Rightarrow> (string \<times> nat) list \<Rightarrow> carbon option" where
  "carbon_sends c [] = Some c"
| "carbon_sends c ((data, ts) # ms) = Option.bind (carbon_send c data ts) (\<lambda>c1. carbon_sends c1 ms)"

lemma carbon_sends_inv:
  assumes "carbon_inv fds t0 c" "sorted (t0 # map snd ms)" "-1 \<notin> set fds"
  shows "\<exists>c' t. carbon_sends c ms = Some c' \<and> carbon_inv fds t c'"
  using assms(1,2)
proof (induction ms arbitrary: c t0)
  case (Cons m ms)
  obtain data ts where m: "m = (data, ts)" by (cases m)
  have "t0 \<le> ts" "sorted (ts # map snd ms)" using Cons.prems(2) m by simp_all
  from carbon_send_inv [OF Cons.prems(1) this(1) assms(3), of data] obtain c1 where
      "carbon_send c data ts = Some c1" "carbon_inv fds ts c1" by blast
  then show ?case using Cons.IH [of ts c1] \<open>sorted (ts # map snd ms)\<close> m by simp
qed auto

text \<open>
  C25: The connection to carbon. Whatever the network does, sending never trips the assertion that there is no connection yet;
  the backend has one open descriptor while it is connected and none otherwise, so that lost connections
  do not leak; and it tries to connect at most once at any time stamp.
\<close>

theorem carbon_connection:
  assumes "\<forall>n. fresh_sockets fds (network n)" "-1 \<notin> set fds" "sorted (map snd ms)"
  shows "\<exists>c. carbon_sends (new_carbon network fds h port) ms = Some c \<and>
    opened c = fds @ (if cfd c > 0 then [cfd c] else []) \<and> distinct (attempts c)"
proof -
  have "carbon_inv fds 0 (new_carbon network fds h port)" using assms(1) by (simp add: carbon_inv_def new_carbon_def)
  moreover have "sorted (0 # map snd ms)" using assms(3) by simp
  ultimately obtain c t where "carbon_sends (new_carbon network fds h port) ms = Some c" "carbon_inv fds t c"
    using carbon_sends_inv assms(2) by blast
  then show ?thesis unfolding carbon_inv_def strict_sorted_iff by blast
qed

text \<open>A network that always connects and takes everything, and one that is down for the first two messages.\<close>

definition good_step :: net_step where
  "good_step = \<lparr>gai = Some [(7, True)], send_ret = int\<rparr>"

definition late_net :: "nat \<Rightarrow> net_step" where
  "late_net n = (if n < 2 then good_step\<lparr>gai := Some [(-1, True), (8, False)]\<rparr> else good_step)"

theorem carbon_connection_witness:
  "\<exists>c. carbon_sends (new_carbon late_net [0, 1, 2] ''localhost'' ''2003'') [(''a'', 10), (''b'', 10), (''c'', 20)] = Some c \<and>
     opened c = [0, 1, 2] @ (if cfd c > 0 then [cfd c] else []) \<and> distinct (attempts c) \<and> attempts c = [10, 20] \<and> wire c = ''c''"
proof -
  have "\<forall>n. fresh_sockets [0, 1, 2] (late_net n)" by (simp add: fresh_sockets_def late_net_def good_step_def)
  from carbon_connection [OF this, of "[(''a'', 10), (''b'', 10), (''c'', 20)]" "''localhost''" "''2003''"] show ?thesis
    by (auto simp: new_carbon_def late_net_def good_step_def carbon_send_def carbon_connect_def carbon_transmit_def
        socket_stream_connect_def)
qed

definition gauge_poll :: optics_poll where
  "gauge_poll = \<lparr>phost = ''node1'', pprefix = ''app'', pkey = ''load'', pvalue = Gauge_value d_zero, pts = 7, pelapsed = 1\<rparr>"

theorem carbon_sends_lines_witness:
  "\<exists>c'. carbon_dump (Some (new_carbon (\<lambda>_. good_step) [0, 1, 2] ''localhost'' ''2003'')) optics_poll_metric (Some gauge_poll) = Some c' \<and>
     wire c' = ''app.node1.load 0 7'' @ [CHR 0x0A]"
proof -
  let ?c = "new_carbon (\<lambda>_. good_step) [0, 1, 2] ''localhost'' ''2003''"
  have n: "numbers gauge_poll = [(''load'', d_zero)]" by (simp add: numbers_def gauge_poll_def)
  have z: "print_g d_zero = ''0''" by (simp add: print_g_def d_zero_def double_defs is_nan_def is_inf_def fixed_def)
  have l: "carbon_line gauge_poll (''load'', d_zero) = ''app.node1.load 0 7'' @ [CHR 0x0A]"
    by (simp add: carbon_line_def gauge_poll_def z dec.simps [of 7] digit_def char_of_def bit_0)
  have "reportable gauge_poll" by (simp add: reportable_def gauge_poll_def cstring_def nil_char_def)
  moreover have "carbon_up ?c (pts gauge_poll)"
    by (simp add: carbon_up_def new_carbon_def gauge_poll_def good_step_def socket_stream_connect_def)
  moreover have "\<forall>n len. send_ret (net ?c n) len = int len" by (simp add: new_carbon_def good_step_def)
  moreover have "\<forall>x \<in> set (numbers gauge_poll). length (carbon_line gauge_poll x) < 2 ^ 62" by (simp add: n l)
  moreover have "wire ?c = []" by (simp add: new_carbon_def)
  ultimately show ?thesis using carbon_sends_lines [of gauge_poll ?c] by (simp add: n l)
qed

end
