(* ===== verification/Runtime.thy ===== *)
theory Runtime
  imports Double
begin

text \<open>
  Time and threads: sleeping (\<^verbatim>\<open>src/utils/time.c\<close>), the timer of \<^verbatim>\<open>src/optics.h\<close>, and the thread
  numbers of \<^verbatim>\<open>src/utils/thread.c\<close>. What the clock shows and what the system calls return are arguments.
\<close>

unbundle bit_operations_syntax

section \<open>Sleeping\<close>

record timespec =
  tv_sec :: int
  tv_nsec :: int

text \<open>\<open>ret\<close> is what \<^verbatim>\<open>clock_gettime\<close> returns; \<open>None\<close>: the process aborts.\<close>

definition clock_monotonic :: "int \<Rightarrow> timespec \<Rightarrow> timespec option" where
  "clock_monotonic ret ts = (if ret = -1 then None else Some ts)"

text \<open>The time stamp counter comes in two registers.\<close>

definition clock_rdtsc :: "64 word \<Rightarrow> 64 word \<Rightarrow> 64 word" where
  "clock_rdtsc msb lsb = push_bit 32 msb OR lsb"

definition nano_sec :: nat where
  "nano_sec = 1000000000"

text \<open>The time to wake up: the sum of the nanoseconds is unsigned, its quotient and remainder are those of a signed number.\<close>

definition nsleep_deadline :: "timespec \<Rightarrow> nat \<Rightarrow> timespec" where
  "nsleep_deadline now nanos =
     (let ns = sint (word_of_int (tv_nsec now) + of_nat nanos :: 64 word) in
      if ns \<ge> int nano_sec
      then now\<lparr>tv_sec := tv_sec now + ns div int nano_sec, tv_nsec := ns mod int nano_sec\<rparr>
      else now\<lparr>tv_nsec := ns\<rparr>)"

text \<open>
  One call of \<^verbatim>\<open>clock_nanosleep\<close>: whether it returned zero, and whether \<^verbatim>\<open>errno\<close> is \<^verbatim>\<open>EINTR\<close> then. The loop may run for ever.
\<close>

partial_function (option) nsleep_loop :: "(nat \<Rightarrow> bool \<times> bool) \<Rightarrow> nat \<Rightarrow> bool option" where
  "nsleep_loop calls i =
     (case calls i of (zero, eintr) \<Rightarrow>
        if zero then Some True
        else if eintr then nsleep_loop calls (i + 1)
        else Some False)"

text \<open>\<open>now\<close> is \<open>None\<close> when the clock cannot be read, which aborts. The result has the time slept until.\<close>

definition nsleep :: "timespec option \<Rightarrow> (nat \<Rightarrow> bool \<times> bool) \<Rightarrow> nat \<Rightarrow> (bool \<times> timespec) option" where
  "nsleep now calls nanos =
     Option.bind now (\<lambda>t. map_option (\<lambda>r. (r, nsleep_deadline t nanos)) (nsleep_loop calls 0))"

section \<open>The timer\<close>

definition optics_timer_start :: "timespec option \<Rightarrow> timespec option" where
  "optics_timer_start now = now"

text \<open>The nanoseconds that the timer computes, in 64 bits.\<close>

definition timer_nanos :: "timespec \<Rightarrow> timespec \<Rightarrow> nat" where
  "timer_nanos t0 t1 =
     (let secs = unat (word_of_int (tv_sec t1 - tv_sec t0) :: 64 word);
          nanos = (if secs \<noteq> 0
                   then uadd (usub nano_sec (unat (word_of_int (tv_nsec t1) :: 64 word))) (unat (word_of_int (tv_nsec t0) :: 64 word))
                   else unat (word_of_int (tv_nsec t1 - tv_nsec t0) :: 64 word))
      in uadd (umul secs nano_sec) nanos)"

definition optics_timer_elapsed :: "timespec \<Rightarrow> timespec option \<Rightarrow> double \<Rightarrow> double option" where
  "optics_timer_elapsed t0 now unit = map_option (\<lambda>t1. dmul (of_u64 (timer_nanos t0 t1)) unit) now"

section \<open>Thread numbers\<close>

text \<open>The counter, and what each thread has in its own variable.\<close>

record tids =
  tid_counter :: nat
  tid_store :: "nat \<Rightarrow> nat"

definition tids_init :: tids where
  "tids_init = \<lparr>tid_counter = 1, tid_store = \<lambda>_. 0\<rparr>"

text \<open>A call in thread \<open>t\<close>.\<close>

definition tid :: "nat \<Rightarrow> tids \<Rightarrow> nat \<times> tids" where
  "tid t s =
     (let s1 = (if tid_store s t = 0
                then s\<lparr>tid_store := (tid_store s)(t := tid_counter s), tid_counter := uadd (tid_counter s) 1\<rparr> else s)
      in (tid_store s1 t, s1))"

section \<open>Properties\<close>

lemma sint_word_small: "0 \<le> i \<Longrightarrow> i < 2 ^ 63 \<Longrightarrow> sint (word_of_int i :: 64 word) = i"
  by (simp add: signed_of_int signed_take_bit_int_eq_self)

lemma unat_word_small: "0 \<le> i \<Longrightarrow> i < 2 ^ 64 \<Longrightarrow> unat (word_of_int i :: 64 word) = nat i"
  by (simp add: unat_eq_nat_uint uint_word_of_int_eq take_bit_int_eq_self)

text \<open>The instruction leaves 32 bits in each register: the counter is read exactly.\<close>

lemma clock_rdtsc_exact:
  assumes "unat msb < 2 ^ 32" "unat lsb < 2 ^ 32"
  shows "unat (clock_rdtsc msb lsb) = unat msb * 2 ^ 32 + unat lsb"
proof -
  have low: "take_bit 32 lsb = lsb" using assms(2) by (simp add: word_unat_eq_iff unsigned_take_bit_eq take_bit_nat_eq_self)
  have "push_bit 32 msb AND lsb = 0"
  proof (rule bit_word_eqI)
    fix n assume "n < LENGTH(64)"
    have "\<not> bit lsb n" if "32 \<le> n" using low that by (metis bit_take_bit_iff not_le)
    then show "bit (push_bit 32 msb AND lsb) n = bit (0 :: 64 word) n" by (auto simp: bit_simps)
  qed
  then have "clock_rdtsc msb lsb = push_bit 32 msb + lsb" by (simp add: clock_rdtsc_def disjunctive_add_eq_or)
  also have "\<dots> = of_nat (unat msb * 2 ^ 32 + unat lsb)" by (simp add: push_bit_eq_mult)
  finally have "clock_rdtsc msb lsb = of_nat (unat msb * 2 ^ 32 + unat lsb)" .
  moreover have "unat (of_nat m :: 64 word) = m" if "m < 2 ^ 64" for m using that by (simp add: unat_of_nat take_bit_nat_eq_self)
  moreover have "unat msb * 2 ^ 32 + unat lsb < 2 ^ 64" using assms by simp
  ultimately show ?thesis by (simp only:)
qed

definition total_nanos :: "timespec \<Rightarrow> int" where
  "total_nanos t = tv_sec t * int nano_sec + tv_nsec t"

definition timespec_ok :: "timespec \<Rightarrow> bool" where
  "timespec_ok t \<longleftrightarrow> 0 \<le> tv_sec t \<and> tv_sec t < 2 ^ 32 \<and> 0 \<le> tv_nsec t \<and> tv_nsec t < int nano_sec"

lemma nsleep_deadline_exact:
  assumes "timespec_ok t" "nanos < 2 ^ 62"
  shows "total_nanos (nsleep_deadline t nanos) = total_nanos t + int nanos"
    and "0 \<le> tv_nsec (nsleep_deadline t nanos) \<and> tv_nsec (nsleep_deadline t nanos) < int nano_sec"
proof -
  let ?ns = "tv_nsec t + int nanos"
  have "(word_of_int (tv_nsec t) + of_nat nanos :: 64 word) = word_of_int ?ns" by (simp add: wi_hom_add)
  moreover have "0 \<le> ?ns" "?ns < 2 ^ 63" using assms by (simp_all add: timespec_ok_def nano_sec_def)
  ultimately have s: "sint (word_of_int (tv_nsec t) + of_nat nanos :: 64 word) = ?ns" using sint_word_small by metis
  have "?ns div int nano_sec * int nano_sec + ?ns mod int nano_sec = ?ns" by simp
  then show "total_nanos (nsleep_deadline t nanos) = total_nanos t + int nanos"
    unfolding nsleep_deadline_def s by (simp add: Let_def total_nanos_def distrib_right)
  show "0 \<le> tv_nsec (nsleep_deadline t nanos) \<and> tv_nsec (nsleep_deadline t nanos) < int nano_sec"
    using \<open>0 \<le> ?ns\<close> by (simp add: nsleep_deadline_def s Let_def nano_sec_def)
qed

lemma nsleep_loop_ends:
  assumes "\<forall>i < n. calls (k + i) = (False, True)" "calls (k + n) = (zero, eintr)" "zero \<or> \<not> eintr"
  shows "nsleep_loop calls k = Some zero"
  using assms
proof (induction n arbitrary: k)
  case 0
  then show ?case by (auto simp: nsleep_loop.simps [of calls k])
next
  case (Suc n)
  have "calls k = (False, True)" using Suc.prems(1) by (metis add_0_right zero_less_Suc)
  moreover have "nsleep_loop calls (Suc k) = Some zero"
    using Suc.IH [of "Suc k"] Suc.prems by (metis Suc_less_eq add_Suc add_Suc_right)
  ultimately show ?case by (simp add: nsleep_loop.simps [of calls k])
qed

text \<open>
  Sleeping. The time to wake up is exactly the given number of nanoseconds later, as a normalised time; the sleep is
  taken up again after every interruption, and it returns as soon as a call is not interrupted, with success
  if that call succeeds.
\<close>

theorem nsleep_wakes:
  assumes "timespec_ok t" "nanos < 2 ^ 62" "\<forall>i < n. calls i = (False, True)" "calls n = (zero, eintr)" "zero \<or> \<not> eintr"
  shows "\<exists>d. nsleep (Some t) calls nanos = Some (zero, d) \<and> total_nanos d = total_nanos t + int nanos \<and>
    0 \<le> tv_nsec d \<and> tv_nsec d < int nano_sec"
  using nsleep_deadline_exact [OF assms(1,2)] nsleep_loop_ends [of n calls 0] assms(3-5) by (simp add: nsleep_def)

theorem nsleep_wakes_witness:
  "\<exists>d. nsleep (Some \<lparr>tv_sec = 5, tv_nsec = 900000000\<rparr>) (\<lambda>i. (i = 2, True)) 300000000 = Some (True, d) \<and> total_nanos d = 6200000000"
  using nsleep_wakes [of "\<lparr>tv_sec = 5, tv_nsec = 900000000\<rparr>" 300000000 2 "\<lambda>i. (i = 2, True)" True True]
  by (auto simp: timespec_ok_def nano_sec_def total_nanos_def)

lemma timer_nanos_spec:
  assumes "timespec_ok t0" "timespec_ok t1" "total_nanos t0 \<le> total_nanos t1"
  shows "int (timer_nanos t0 t1) =
    (if tv_sec t0 = tv_sec t1 then tv_nsec t1 - tv_nsec t0
     else (tv_sec t1 - tv_sec t0) * int nano_sec + (int nano_sec - tv_nsec t1 + tv_nsec t0))"
proof -
  define ds where "ds = tv_sec t1 - tv_sec t0"
  have b: "0 \<le> tv_nsec t0" "tv_nsec t0 < 1000000000" "0 \<le> tv_nsec t1" "tv_nsec t1 < 1000000000" "ds < 2 ^ 32"
    using assms(1,2) by (simp_all add: timespec_ok_def nano_sec_def ds_def)
  have "0 \<le> ds" using assms(3) b by (simp add: total_nanos_def nano_sec_def ds_def)
  have u: "unat (word_of_int ds :: 64 word) = nat ds" "unat (word_of_int (tv_nsec t0) :: 64 word) = nat (tv_nsec t0)"
      "unat (word_of_int (tv_nsec t1) :: 64 word) = nat (tv_nsec t1)"
    using b \<open>0 \<le> ds\<close> by (simp_all add: unat_word_small)
  show ?thesis
  proof (cases "ds = 0")
    case True
    then have "tv_nsec t0 \<le> tv_nsec t1" using assms(3) by (simp add: total_nanos_def ds_def)
    then have "unat (word_of_int (tv_nsec t1 - tv_nsec t0) :: 64 word) = nat (tv_nsec t1 - tv_nsec t0)"
      using b by (intro unat_word_small) simp_all
    then show ?thesis using True b \<open>tv_nsec t0 \<le> tv_nsec t1\<close>
      by (simp add: timer_nanos_def ds_def [symmetric] u uadd_def umul_def) (simp add: ds_def)
  next
    case False
    define s where "s = nat ds"
    define a where "a = nat (tv_nsec t0)"
    define c where "c = nat (tv_nsec t1)"
    have n: "s \<noteq> 0" "s < 4294967296" "a < 1000000000" "c < 1000000000"
      using False \<open>0 \<le> ds\<close> b by (simp_all add: s_def a_def c_def)
    have i: "int s = ds" "int a = tv_nsec t0" "int c = tv_nsec t1" using \<open>0 \<le> ds\<close> b by (simp_all add: s_def a_def c_def)
    have "usub 1000000000 c = 1000000000 - c" using n by (intro usub_small) simp_all
    then have "timer_nanos t0 t1 = s * 1000000000 + (1000000000 - c + a)"
      using n by (simp add: timer_nanos_def ds_def [symmetric] u s_def [symmetric] a_def [symmetric] c_def [symmetric] nano_sec_def
          Let_def uadd_def umul_def)
    moreover have "tv_sec t0 \<noteq> tv_sec t1" using False by (simp add: ds_def)
    ultimately show ?thesis using n i by (simp add: nano_sec_def ds_def [symmetric] of_nat_diff)
  qed
qed

text \<open>
  The timer counts the nanoseconds between two times exactly if they are in the same second (of the clock), but otherwise takes
  the difference of the nanoseconds the wrong way round: then the result is exact only if the difference is half a second.
\<close>

theorem timer_wrong_across_seconds:
  assumes "timespec_ok t0" "timespec_ok t1" "total_nanos t0 \<le> total_nanos t1"
  shows "int (timer_nanos t0 t1) = total_nanos t1 - total_nanos t0 \<longleftrightarrow>
    tv_sec t0 = tv_sec t1 \<or> 2 * (tv_nsec t1 - tv_nsec t0) = int nano_sec"
  using timer_nanos_spec [OF assms] by (auto simp: total_nanos_def algebra_simps)

theorem timer_wrong_across_seconds_witness:
  "timer_nanos \<lparr>tv_sec = 1, tv_nsec = 900000000\<rparr> \<lparr>tv_sec = 2, tv_nsec = 100000000\<rparr> = 2800000000 \<and>
   int (timer_nanos \<lparr>tv_sec = 1, tv_nsec = 900000000\<rparr> \<lparr>tv_sec = 2, tv_nsec = 100000000\<rparr>) \<noteq> 200000000"
  using timer_wrong_across_seconds [of "\<lparr>tv_sec = 1, tv_nsec = 900000000\<rparr>" "\<lparr>tv_sec = 2, tv_nsec = 100000000\<rparr>"]
  by (simp add: timespec_ok_def total_nanos_def nano_sec_def timer_nanos_def uadd_def umul_def usub_def)

text \<open>Calls in any threads, in any order.\<close>

fun tid_calls :: "nat list \<Rightarrow> tids \<Rightarrow> tids" where
  "tid_calls [] s = s"
| "tid_calls (t # ts) s = tid_calls ts (snd (tid t s))"

lemma tid_calls_append: "tid_calls (ts @ us) s = tid_calls us (tid_calls ts s)"
  by (induction ts arbitrary: s) simp_all

definition tids_inv :: "tids \<Rightarrow> bool" where
  "tids_inv s \<longleftrightarrow> 0 < tid_counter s \<and> (\<forall>t. tid_store s t < tid_counter s) \<and>
     (\<forall>t u. tid_store s t = tid_store s u \<longrightarrow> tid_store s t = 0 \<or> t = u)"

lemma tid_inv:
  assumes "tids_inv s" "tid_counter s + 1 < 18446744073709551616"
  shows "tids_inv (snd (tid t s))" "tid_counter (snd (tid t s)) \<le> tid_counter s + 1"
proof -
  let ?s = "s\<lparr>tid_store := (tid_store s)(t := tid_counter s), tid_counter := tid_counter s + 1\<rparr>"
  have u: "uadd (tid_counter s) 1 = tid_counter s + 1" using assms(2) by (intro uadd_small) simp
  have less: "tid_store s v < tid_counter s" "tid_store s v \<noteq> tid_counter s" for v
    using assms(1) unfolding tids_inv_def by (blast, metis less_irrefl)
  have inj: "tid_store s v = 0 \<or> v = w" if "tid_store s v = tid_store s w" for v w
    using assms(1) that unfolding tids_inv_def by blast
  have "tids_inv ?s"
    unfolding tids_inv_def
  proof (intro conjI allI impI)
    fix v w assume "tid_store ?s v = tid_store ?s w"
    then show "tid_store ?s v = 0 \<or> v = w"
      using inj [of v w] less(2) [of v] less(2) [of w] by (auto split: if_splits)
  next
    fix v show "tid_store ?s v < tid_counter ?s" using less(1) [of v] by simp
  qed simp
  moreover have "snd (tid t s) = (if tid_store s t = 0 then ?s else s)" using u by (simp add: tid_def Let_def)
  ultimately show "tids_inv (snd (tid t s))" "tid_counter (snd (tid t s)) \<le> tid_counter s + 1" using assms(1) by simp_all
qed

lemma tid_calls_inv:
  assumes "tids_inv s" "tid_counter s + length ts < 18446744073709551616"
  shows "tids_inv (tid_calls ts s)"
  using assms
proof (induction ts arbitrary: s)
  case (Cons t ts)
  then show ?case using tid_inv [of s t] by simp
qed simp

lemma tid_calls_counter: "tid_counter s + length ts < 18446744073709551616 \<Longrightarrow> tid_counter (tid_calls ts s) \<le> tid_counter s + length ts"
proof (induction ts arbitrary: s)
  case (Cons t ts)
  have "tid_counter (snd (tid t s)) \<le> tid_counter s + 1" using Cons.prems by (auto simp: tid_def Let_def uadd_def)
  then show ?case using Cons.IH [of "snd (tid t s)"] Cons.prems by simp
qed simp

lemma tid_nonzero: "tids_inv s \<Longrightarrow> fst (tid t s) \<noteq> 0"
  by (simp add: tid_def Let_def tids_inv_def)

text \<open>Numbers are not zero, do not change, and differ between threads, for fewer than \<open>2 ^ 64\<close> calls.\<close>

lemma tid_unique:
  assumes "length ts + 2 < 18446744073709551616" "s = tid_calls ts tids_init"
  shows "fst (tid t s) \<noteq> 0" "t \<noteq> u \<Longrightarrow> fst (tid t s) \<noteq> fst (tid u (snd (tid t s)))" "fst (tid t (snd (tid t s))) = fst (tid t s)"
proof -
  have i: "tids_inv s" "tids_inv (snd (tid t s))"
    using tid_calls_inv [of tids_init ts] tid_calls_inv [of tids_init "ts @ [t]"] assms
    by (simp_all add: tids_init_def tids_inv_def tid_calls_append)
  show "fst (tid t s) \<noteq> 0" by (rule tid_nonzero [OF i(1)])
  show "t \<noteq> u \<Longrightarrow> fst (tid t s) \<noteq> fst (tid u (snd (tid t s)))"
  proof -
    assume "t \<noteq> u"
    have "tid_counter s + 1 < 18446744073709551616" using tid_calls_counter [of tids_init ts] assms by (simp add: tids_init_def)
    then have "uadd (tid_counter s) 1 = tid_counter s + 1" by (intro uadd_small) simp
    moreover have "tid_store s t < tid_counter s" "tid_store s t = tid_store s u \<longrightarrow> tid_store s u = 0" "0 < tid_counter s"
        "tid_store s u < tid_counter s"
      using i(1) \<open>t \<noteq> u\<close> unfolding tids_inv_def by metis+
    ultimately show ?thesis using \<open>t \<noteq> u\<close> by (auto simp: tid_def Let_def)
  qed
  show "fst (tid t (snd (tid t s))) = fst (tid t s)" using i(1) by (simp add: tid_def Let_def tids_inv_def)
qed

end
