(* ===== verification/Daemon.thy ===== *)
theory Daemon
  imports Rest Backends Runtime
begin

text \<open>
  Registering the backends, the polling thread (\<^verbatim>\<open>src/poller_thread.c\<close>) and the daemon (\<^verbatim>\<open>src/opticsd.c\<close>): its options, its start and its loop.
  The results of the system calls are arguments. A poll is an argument of the loops (the number of the poll and the
  poller), because every poll finds another machine; for the program it is \<open>optics_poller_poll\<close>.
\<close>

section \<open>Backends of the poller\<close>

text \<open>The contexts of the three backends; \<open>None\<close> once the process has aborted.\<close>

datatype backend_ctx = Rest_ctx "rest option" | Carbon_ctx "carbon option" | Stdout_ctx "string option"

type_synonym poller = "backend_ctx optics_poller"

definition rest_cb :: "metric qsort \<Rightarrow> backend_ctx backend_cb" where
  "rest_cb qsort ctx type poll =
     (case ctx of Rest_ctx r \<Rightarrow> Rest_ctx (Option.bind r (\<lambda>rest. rest_dump qsort rest type poll)) | _ \<Rightarrow> ctx)"

definition rest_free_cb :: "backend_ctx \<Rightarrow> backend_ctx" where
  "rest_free_cb ctx = (case ctx of Rest_ctx r \<Rightarrow> Rest_ctx (Option.bind r (\<lambda>rest. Option.bind (rest_free rest) (\<lambda>_. Some rest))) | _ \<Rightarrow> ctx)"

definition carbon_cb :: "backend_ctx backend_cb" where
  "carbon_cb ctx type poll = (case ctx of Carbon_ctx c \<Rightarrow> Carbon_ctx (carbon_dump c type poll) | _ \<Rightarrow> ctx)"

definition carbon_free_cb :: "backend_ctx \<Rightarrow> backend_ctx" where
  "carbon_free_cb ctx = (case ctx of Carbon_ctx c \<Rightarrow> Carbon_ctx (map_option carbon_free c) | _ \<Rightarrow> ctx)"

definition stdout_cb :: "backend_ctx backend_cb" where
  "stdout_cb ctx type poll = (case ctx of Stdout_ctx out \<Rightarrow> Stdout_ctx (stdout_dump out type poll) | _ \<Rightarrow> ctx)"

text \<open>Whether the backend was registered is ignored.\<close>

definition optics_dump_rest :: "metric qsort \<Rightarrow> poller \<Rightarrow> rest crest \<Rightarrow> poller \<times> rest crest" where
  "optics_dump_rest qsort poller crest =
     (let crest1 = snd (crest_add crest rest_res)
      in (snd (optics_poller_backend poller (Rest_ctx (Some zero_rest)) (rest_cb qsort) (Some rest_free_cb)), crest1))"

definition optics_dump_carbon :: "(nat \<Rightarrow> net_step) \<Rightarrow> poller \<Rightarrow> string \<Rightarrow> string \<Rightarrow> poller" where
  "optics_dump_carbon network poller h port =
     snd (optics_poller_backend poller (Carbon_ctx (Some (new_carbon network [] h port))) carbon_cb (Some carbon_free_cb))"

definition optics_dump_stdout :: "poller \<Rightarrow> poller" where
  "optics_dump_stdout poller = snd (optics_poller_backend poller (Stdout_ctx (Some [])) stdout_cb None)"

section \<open>The polling thread\<close>

record optics_thread =
  tpoller :: poller
  tfreq :: nat

text \<open>\<open>created\<close>: \<^verbatim>\<open>pthread_create\<close> succeeds.\<close>

definition optics_thread_start :: "bool \<Rightarrow> poller \<Rightarrow> nat \<Rightarrow> optics_thread option" where
  "optics_thread_start created poller freq =
     (if freq = 0 then None else if created then Some \<lparr>tpoller = poller, tfreq = freq\<rparr> else None)"

definition thread_nanos :: "optics_thread \<Rightarrow> nat" where
  "thread_nanos thread = umul (umul (umul (tfreq thread) 1000) 1000) 1000"

text \<open>
  The first \<open>n\<close> rounds: a poll and a sleep, whatever they return. \<open>None\<close>: the poll or the sleep does not return.
\<close>

fun thread_fn :: "(nat \<Rightarrow> poller \<Rightarrow> (bool \<times> poller) option) \<Rightarrow> (nat \<Rightarrow> nat \<Rightarrow> bool option) \<Rightarrow> nat \<Rightarrow> optics_thread \<Rightarrow> optics_thread option" where
  "thread_fn poll sleep 0 thread = Some thread"
| "thread_fn poll sleep (Suc n) thread =
     Option.bind (thread_fn poll sleep n thread) (\<lambda>t.
       Option.bind (poll n (tpoller t)) (\<lambda>(_, poller).
         Option.bind (sleep n (thread_nanos t)) (\<lambda>_. Some (t\<lparr>tpoller := poller\<rparr>))))"

definition optics_thread_stop :: "bool \<Rightarrow> bool \<Rightarrow> optics_thread \<Rightarrow> bool" where
  "optics_thread_stop cancelled joined thread \<longleftrightarrow> (if \<not> cancelled then False else if \<not> joined then False else True)"

section \<open>The options of the daemon\<close>

text \<open>What \<^verbatim>\<open>getopt_long\<close> returns, one by one.\<close>

datatype cli =
    Dump_carbon string
  | Dump_stdout
  | Freq string
  | Http_port string
  | Hostname string
  | Daemonize
  | Version
  | Help
  | Unknown_option

datatype exit = Exit_success | Exit_error | Aborted

record config =
  poller :: poller
  server :: "rest crest"
  freq :: nat
  http_port :: nat
  backend_selected :: bool
  daemon :: bool

text \<open>The first colon ends the host; without one the port is 2003.\<close>

definition split_carbon :: "string \<Rightarrow> string \<times> string" where
  "split_carbon args =
     (case dropWhile (\<lambda>c. c \<noteq> CHR '':'') args of
        [] \<Rightarrow> (args, ''2003'')
      | _ # port \<Rightarrow> (takeWhile (\<lambda>c. c \<noteq> CHR '':'') args, port))"

definition parse_carbon :: "(nat \<Rightarrow> net_step) \<Rightarrow> poller \<Rightarrow> string \<Rightarrow> poller" where
  "parse_carbon network p args = (case split_carbon args of (h, port) \<Rightarrow> optics_dump_carbon network p h port)"

text \<open>\<^verbatim>\<open>atol\<close>: blanks, a sign, digits; the result stays in the range of a \<^verbatim>\<open>long\<close>.\<close>

definition atol :: "string \<Rightarrow> int" where
  "atol s =
     (let s1 = dropWhile (\<lambda>c. c = CHR '' '' \<or> (9 \<le> (of_char c :: nat) \<and> (of_char c :: nat) \<le> 13)) s;
          neg = (s1 \<noteq> [] \<and> hd s1 = CHR ''-'');
          s2 = (if s1 \<noteq> [] \<and> (hd s1 = CHR ''-'' \<or> hd s1 = CHR ''+'') then tl s1 else s1);
          n = int (digits_value (takeWhile is_digit s2))
      in if neg then max (- (2 ^ 63)) (- n) else min (2 ^ 63 - 1) n)"

text \<open>What the usage adds to the output.\<close>

definition print_usage :: "string \<Rightarrow> string" where
  "print_usage out = out @ concat (map (\<lambda>l. l @ [CHR 0x0A])
     [''Usage: '',
      ''  opticsd [--stdout] [--carbon=<host:port>]'',
      '''',
      ''Options:'',
      ''  --dump-stdout              Dumps metrics to stdout'',
      ''  --dump-carbon=<host:port>  Dumps metrics to the given carbon host:port'',
      ''  --freq=<n>                 Number of seconds between each polling attempt [10]'',
      ''  --http-port=<port>         Port for HTTP server [3002]'',
      ''  --hostname=<hostname>      Hostname to include in the key [gethostname()]'',
      ''  --daemon                   Daemonizes the process'',
      ''  -v --version               Optics verison'',
      ''  -h --help                  Prints this message''])"

text \<open>One round of the option loop: \<open>Inl\<close> when the process ends.\<close>

definition parse_option :: "(nat \<Rightarrow> net_step) \<Rightarrow> config \<Rightarrow> cli \<Rightarrow> exit + config" where
  "parse_option network c opt =
     (case opt of
        Freq arg \<Rightarrow> (let f = nat (atol arg mod 2 ^ 64) in if f = 0 then Inl Exit_error else Inr (c\<lparr>freq := f\<rparr>))
      | Http_port arg \<Rightarrow> (let p = nat (atol arg mod 2 ^ 32) in if p = 0 then Inl Exit_error else Inr (c\<lparr>http_port := p\<rparr>))
      | Dump_stdout \<Rightarrow> Inr (c\<lparr>backend_selected := True, poller := optics_dump_stdout (poller c)\<rparr>)
      | Dump_carbon arg \<Rightarrow> Inr (c\<lparr>backend_selected := True, poller := parse_carbon network (poller c) arg\<rparr>)
      | Hostname arg \<Rightarrow>
          (case optics_poller_set_host (poller c) arg of
             (ret, p) \<Rightarrow> if \<not> ret then Inl Exit_error else Inr (c\<lparr>poller := p\<rparr>))
      | Daemonize \<Rightarrow> Inr (c\<lparr>daemon := True\<rparr>)
      | Version \<Rightarrow> Inl Exit_success
      | Help \<Rightarrow> Inl Exit_success
      | Unknown_option \<Rightarrow> Inl Exit_error)"

fun parse_options :: "(nat \<Rightarrow> net_step) \<Rightarrow> config \<Rightarrow> cli list \<Rightarrow> exit + config" where
  "parse_options network c [] = Inr c"
| "parse_options network c (opt # opts) =
     (case parse_option network c opt of Inl e \<Rightarrow> Inl e | Inr c1 \<Rightarrow> parse_options network c1 opts)"

section \<open>Start and loop of the daemon\<close>

text \<open>What the system does at the start: the process of a running daemon, \<^verbatim>\<open>fork\<close>, the pid file, the port, the handler.\<close>

record startup =
  running_pid :: int
  fork_pid :: int
  pid_file_created :: bool
  port_bound :: bool
  sigaction_ret :: int

definition daemon_pid_file :: string where
  "daemon_pid_file = ''/var/run/opticsd.pid''"

definition daemonize :: "startup \<Rightarrow> exit option" where
  "daemonize st =
     (if running_pid st > 0 then Some Exit_error
      else if fork_pid st > 0 then Some Exit_success
      else if fork_pid st < 0 then Some Exit_error
      else if \<not> pid_file_created st then Some Exit_error
      else None)"

text \<open>The handler sets the flag that the loop reads; \<open>None\<close>: it was called for another signal, and aborts.\<close>

definition sigint_handler :: "int \<Rightarrow> bool \<Rightarrow> bool option" where
  "sigint_handler signal flag = (if \<not> signal = 2 then None else Some True)"

text \<open>\<open>ret\<close> is what \<^verbatim>\<open>sigaction\<close> returns.\<close>

definition install_sigint :: "int \<Rightarrow> exit option" where
  "install_sigint ret = (if ret = -1 then Some Exit_error else None)"

text \<open>The argument of \<^verbatim>\<open>usleep\<close> has 32 bits.\<close>

definition sleep_usecs :: "nat \<Rightarrow> nat" where
  "sleep_usecs f = umul (umul f 1000) 1000 mod 2 ^ 32"

text \<open>
  \<open>sigint i\<close> is the flag as the loop reads it for the \<open>i\<close>th time. \<open>sleep i\<close>: whether the \<open>i\<close>th \<^verbatim>\<open>usleep\<close> fails, and
  with \<^verbatim>\<open>EINTR\<close>. \<open>None\<close>: the loop never ends.
\<close>

partial_function (option) run_loop ::
  "(nat \<Rightarrow> 'p \<Rightarrow> (bool \<times> 'p) option) \<Rightarrow> (nat \<Rightarrow> bool) \<Rightarrow> (nat \<Rightarrow> bool \<times> bool) \<Rightarrow> nat \<Rightarrow> 'p \<Rightarrow> (exit \<times> 'p) option" where
  "run_loop poll sigint sleep i p =
     (if sigint i then Some (Exit_success, p)
      else if fst (sleep i) \<and> \<not> snd (sleep i) then Some (Aborted, p)
      else
        (case poll (i + 1) p of
           None \<Rightarrow> None
         | Some (ret, p1) \<Rightarrow> if \<not> ret then Some (Aborted, p1) else run_loop poll sigint sleep (i + 1) p1))"

definition run_poller ::
  "(nat \<Rightarrow> 'p \<Rightarrow> (bool \<times> 'p) option) \<Rightarrow> (nat \<Rightarrow> bool) \<Rightarrow> (nat \<Rightarrow> bool \<times> bool) \<Rightarrow> 'p \<Rightarrow> (exit \<times> 'p) option" where
  "run_poller poll sigint sleep p =
     (case poll 0 p of
        None \<Rightarrow> None
      | Some (ret, p1) \<Rightarrow> if \<not> ret then Some (Aborted, p1) else run_loop poll sigint sleep 0 p1)"

definition opticsd_config :: "metric qsort \<Rightarrow> poller \<Rightarrow> config" where
  "opticsd_config qsort p0 =
     (case optics_dump_rest qsort p0 crest_new of
        (p, crest) \<Rightarrow> \<lparr>poller = p, server = crest, freq = 10, http_port = 3002, backend_selected = False, daemon = False\<rparr>)"

text \<open>
  \<^verbatim>\<open>main\<close>: the exit, and the poller at the end. A poller that cannot be allocated is used all the same, which is undefined (\<open>None\<close>).
\<close>

definition opticsd_main ::
  "metric qsort \<Rightarrow> (nat \<Rightarrow> net_step) \<Rightarrow> string option \<Rightarrow> startup \<Rightarrow> (nat \<Rightarrow> poller \<Rightarrow> (bool \<times> poller) option) \<Rightarrow>
     (nat \<Rightarrow> bool) \<Rightarrow> (nat \<Rightarrow> bool \<times> bool) \<Rightarrow> cli list \<Rightarrow> (exit \<times> poller) option" where
  "opticsd_main qsort network gethostname st poll sigint sleep opts =
     Option.bind (optics_poller_alloc gethostname) (\<lambda>p0.
       (case parse_options network (opticsd_config qsort p0) opts of
          Inl e \<Rightarrow> Some (e, p0)
        | Inr c \<Rightarrow>
            if \<not> backend_selected c then Some (Exit_error, poller c)
            else
              (case (if daemon c then daemonize st else None) of
                 Some e \<Rightarrow> Some (e, poller c)
               | None \<Rightarrow>
                   (case crest_bind (port_bound st) (server c) of
                      (bound, _) \<Rightarrow>
                        if \<not> bound then Some (Aborted, poller c)
                        else
                          (case install_sigint (sigaction_ret st) of
                             Some e \<Rightarrow> Some (e, poller c)
                           | None \<Rightarrow> run_poller poll sigint sleep (poller c))))))"

section \<open>Properties of the loop\<close>

lemma run_loop_stops:
  assumes "\<forall>i p. poll i p = Some (True, step i p)" "\<forall>i. fst (sleep i) \<longrightarrow> snd (sleep i)"
    and "\<forall>i. k \<le> i \<and> i < k + n \<longrightarrow> \<not> sigint i" "sigint (k + n)"
  shows "run_loop poll sigint sleep k p = Some (Exit_success, fold step [k + 1..<k + n + 1] p)"
  using assms(3,4)
proof (induction n arbitrary: k p)
  case 0
  then show ?case by (simp add: run_loop.simps [of poll sigint sleep k])
next
  case (Suc n)
  have "run_loop poll sigint sleep k p = run_loop poll sigint sleep (Suc k) (step (Suc k) p)"
    using Suc.prems(1) assms(1,2) by (auto simp: run_loop.simps [of poll sigint sleep k])
  also have "\<dots> = Some (Exit_success, fold step [Suc k + 1..<Suc k + n + 1] (step (Suc k) p))"
    using Suc.IH [of "Suc k" "step (Suc k) p"] Suc.prems by simp
  finally show ?case by (simp add: upt_conv_Cons [of "Suc k"] del: upt_Suc)
qed

lemma run_poller_stops:
  assumes "\<forall>i p. poll i p = Some (True, step i p)" "\<forall>i. fst (sleep i) \<longrightarrow> snd (sleep i)"
    and "\<forall>i < n. \<not> sigint i" "sigint n"
  shows "run_poller poll sigint sleep p = Some (Exit_success, fold step [0..<n + 1] p)"
proof -
  have "run_poller poll sigint sleep p = run_loop poll sigint sleep 0 (step 0 p)" using assms(1) by (simp add: run_poller_def)
  also have "\<dots> = Some (Exit_success, fold step [1..<n + 1] (step 0 p))"
    using run_loop_stops [OF assms(1,2), of 0 n sigint] assms(3,4) by simp
  finally show ?thesis by (simp add: upt_conv_Cons [of 0] del: upt_Suc)
qed

text \<open>An interval of more than 4294 seconds is cut to 32 bits.\<close>

lemma sleep_usecs_exact: "f < 2 ^ 40 \<Longrightarrow> sleep_usecs f = f * 1000000 \<longleftrightarrow> f \<le> 4294"
  by (auto simp: sleep_usecs_def umul_def)

section \<open>Properties of the options\<close>

definition backends_of :: "(nat \<Rightarrow> net_step) \<Rightarrow> cli \<Rightarrow> backend_ctx backend list" where
  "backends_of network opt =
     (case opt of
        Dump_stdout \<Rightarrow> [\<lparr>bctx = Stdout_ctx (Some []), bcb = stdout_cb, bfree = None\<rparr>]
      | Dump_carbon arg \<Rightarrow>
          [\<lparr>bctx = Carbon_ctx (Some (new_carbon network [] (fst (split_carbon arg)) (snd (split_carbon arg)))),
             bcb = carbon_cb, bfree = Some carbon_free_cb\<rparr>]
      | _ \<Rightarrow> [])"

definition valid_option :: "cli \<Rightarrow> bool" where
  "valid_option opt \<longleftrightarrow>
     (case opt of
        Freq arg \<Rightarrow> atol arg mod 2 ^ 64 \<noteq> 0
      | Http_port arg \<Rightarrow> atol arg mod 2 ^ 32 \<noteq> 0
      | Hostname arg \<Rightarrow> length arg < 256
      | Version \<Rightarrow> False | Help \<Rightarrow> False | Unknown_option \<Rightarrow> False
      | _ \<Rightarrow> True)"

text \<open>The last value that an option was given, or the default.\<close>

fun last_of :: "(cli \<Rightarrow> 'a option) \<Rightarrow> 'a \<Rightarrow> cli list \<Rightarrow> 'a" where
  "last_of f d [] = d"
| "last_of f d (opt # opts) = last_of f (case f opt of None \<Rightarrow> d | Some v \<Rightarrow> v) opts"

definition freq_of :: "cli \<Rightarrow> nat option" where
  "freq_of opt = (case opt of Freq arg \<Rightarrow> Some (nat (atol arg mod 2 ^ 64)) | _ \<Rightarrow> None)"

definition port_of :: "cli \<Rightarrow> nat option" where
  "port_of opt = (case opt of Http_port arg \<Rightarrow> Some (nat (atol arg mod 2 ^ 32)) | _ \<Rightarrow> None)"

definition host_of :: "cli \<Rightarrow> string option" where
  "host_of opt = (case opt of Hostname arg \<Rightarrow> Some arg | _ \<Rightarrow> None)"

lemma strnlen_small: "length s < 256 \<Longrightarrow> strnlen s optics_name_max_len \<noteq> optics_name_max_len"
  by (simp add: strnlen_def optics_name_max_len_def)

lemma poller_backend_takes:
  assumes "length (backends p) \<le> 8"
  shows "backends (snd (optics_poller_backend p ctx cb f)) = take 8 (backends p @ [\<lparr>bctx = ctx, bcb = cb, bfree = f\<rparr>])"
    and "host (snd (optics_poller_backend p ctx cb f)) = host p"
  using assms by (simp_all add: optics_poller_backend_def poller_max_backends_def)

text \<open>What one valid option does.\<close>

lemma parse_option_valid:
  assumes "valid_option opt" "length (backends (poller c)) \<le> 8"
  obtains c' where "parse_option network c opt = Inr c'"
    "backends (poller c') = take 8 (backends (poller c) @ backends_of network opt)"
    "host (poller c') = (case host_of opt of None \<Rightarrow> host (poller c) | Some h \<Rightarrow> h)"
    "freq c' = (case freq_of opt of None \<Rightarrow> freq c | Some f \<Rightarrow> f)"
    "http_port c' = (case port_of opt of None \<Rightarrow> http_port c | Some p \<Rightarrow> p)"
    "backend_selected c' = (backend_selected c \<or> backends_of network opt \<noteq> [])"
    "daemon c' = (daemon c \<or> opt = Daemonize)" "server c' = server c"
proof (cases opt)
  case (Dump_carbon arg)
  show thesis
    by (rule that [of "c\<lparr>backend_selected := True, poller := parse_carbon network (poller c) arg\<rparr>"])
      (use assms poller_backend_takes [OF assms(2)] in
        \<open>simp_all add: parse_option_def Dump_carbon backends_of_def host_of_def freq_of_def port_of_def
          parse_carbon_def optics_dump_carbon_def split_def\<close>)
next
  case Dump_stdout
  show thesis
    by (rule that [of "c\<lparr>backend_selected := True, poller := optics_dump_stdout (poller c)\<rparr>"])
      (use assms poller_backend_takes [OF assms(2)] in
        \<open>simp_all add: parse_option_def Dump_stdout backends_of_def host_of_def freq_of_def port_of_def optics_dump_stdout_def\<close>)
next
  case (Hostname arg)
  have l: "length arg < 256" using assms(1) Hostname by (simp add: valid_option_def)
  then have "optics_poller_set_host (poller c) arg = (True, (poller c)\<lparr>host := arg\<rparr>)"
    using strnlen_small [OF l] by (simp add: optics_poller_set_host_def optics_name_max_len_def)
  then show thesis
    using that [of "c\<lparr>poller := (poller c)\<lparr>host := arg\<rparr>\<rparr>"] assms(2)
    by (simp add: parse_option_def Hostname backends_of_def host_of_def freq_of_def port_of_def)
next
  case (Freq arg)
  have "0 < atol arg mod 2 ^ 64" using assms(1) by (simp add: Freq valid_option_def less_le)
  then show thesis using that [of "c\<lparr>freq := nat (atol arg mod 2 ^ 64)\<rparr>"] assms(2)
    by (simp add: parse_option_def Freq backends_of_def host_of_def freq_of_def port_of_def Let_def)
next
  case (Http_port arg)
  have "0 < atol arg mod 2 ^ 32" using assms(1) by (simp add: Http_port valid_option_def less_le)
  then show thesis using that [of "c\<lparr>http_port := nat (atol arg mod 2 ^ 32)\<rparr>"] assms(2)
    by (simp add: parse_option_def Http_port backends_of_def host_of_def freq_of_def port_of_def Let_def)
next
  case Daemonize
  then show thesis using that [of "c\<lparr>daemon := True\<rparr>"] assms(2)
    by (simp add: parse_option_def backends_of_def host_of_def freq_of_def port_of_def)
qed (use assms(1) in \<open>simp_all add: valid_option_def\<close>)

lemma parse_options_valid:
  assumes "\<forall>opt \<in> set opts. valid_option opt" "length (backends (poller c)) \<le> 8"
  shows "\<exists>c'. parse_options network c opts = Inr c' \<and>
    backends (poller c') = take 8 (backends (poller c) @ concat (map (backends_of network) opts)) \<and>
    host (poller c') = last_of host_of (host (poller c)) opts \<and> freq c' = last_of freq_of (freq c) opts \<and>
    http_port c' = last_of port_of (http_port c) opts \<and>
    backend_selected c' = (backend_selected c \<or> concat (map (backends_of network) opts) \<noteq> []) \<and>
    daemon c' = (daemon c \<or> Daemonize \<in> set opts) \<and> server c' = server c"
  using assms
proof (induction opts arbitrary: c)
  case (Cons opt opts)
  have "valid_option opt" using Cons.prems(1) by simp
  from this Cons.prems(2) obtain c1 where c1: "parse_option network c opt = Inr c1"
    "backends (poller c1) = take 8 (backends (poller c) @ backends_of network opt)"
    "host (poller c1) = (case host_of opt of None \<Rightarrow> host (poller c) | Some h \<Rightarrow> h)"
    "freq c1 = (case freq_of opt of None \<Rightarrow> freq c | Some f \<Rightarrow> f)"
    "http_port c1 = (case port_of opt of None \<Rightarrow> http_port c | Some p \<Rightarrow> p)"
    "backend_selected c1 = (backend_selected c \<or> backends_of network opt \<noteq> [])"
    "daemon c1 = (daemon c \<or> opt = Daemonize)" "server c1 = server c"
    by (rule parse_option_valid [of _ _ network])
  have t: "take 8 (take 8 xs @ ys) = take 8 (xs @ ys)" for xs ys :: "backend_ctx backend list" by (simp add: min_def)
  have "\<forall>opt \<in> set opts. valid_option opt" "length (backends (poller c1)) \<le> 8" using Cons.prems(1) c1(2) by simp_all
  from Cons.IH [OF this] obtain c' where c': "parse_options network c1 opts = Inr c'"
    "backends (poller c') = take 8 (backends (poller c1) @ concat (map (backends_of network) opts))"
    "host (poller c') = last_of host_of (host (poller c1)) opts" "freq c' = last_of freq_of (freq c1) opts"
    "http_port c' = last_of port_of (http_port c1) opts"
    "backend_selected c' = (backend_selected c1 \<or> concat (map (backends_of network) opts) \<noteq> [])"
    "daemon c' = (daemon c1 \<or> Daemonize \<in> set opts)" "server c' = server c1" by blast
  have "backends (poller c') = take 8 (backends (poller c) @ concat (map (backends_of network) (opt # opts)))"
    unfolding c'(2) c1(2) t by simp
  moreover have "backend_selected c' = (backend_selected c \<or> concat (map (backends_of network) (opt # opts)) \<noteq> [])"
    unfolding c'(6) c1(6) by auto
  moreover have "daemon c' = (daemon c \<or> Daemonize \<in> set (opt # opts))" unfolding c'(7) c1(7) by auto
  moreover have "parse_options network c (opt # opts) = Inr c'" using c1(1) c'(1) by simp
  moreover have "host (poller c') = last_of host_of (host (poller c)) (opt # opts)" unfolding c'(3) c1(3) by simp
  moreover have "freq c' = last_of freq_of (freq c) (opt # opts)" "http_port c' = last_of port_of (http_port c) (opt # opts)"
    unfolding c'(4,5) c1(4,5) by simp_all
  moreover have "server c' = server c" using c'(8) c1(8) by simp
  ultimately show ?case by (intro exI [of _ c'] conjI)
qed simp

text \<open>The first option that ends the process decides how, whatever comes after it.\<close>

lemma parse_options_ends:
  assumes "\<forall>opt \<in> set opts. valid_option opt" "\<not> valid_option opt" "length (backends (poller c)) \<le> 8"
  shows "parse_options network c (opts @ opt # rest) = Inl (if opt \<in> {Version, Help} then Exit_success else Exit_error)"
proof -
  have "parse_options network c (opts @ os) = (case parse_options network c opts of Inl e \<Rightarrow> Inl e | Inr c1 \<Rightarrow> parse_options network c1 os)" for os
    by (induction opts arbitrary: c) (simp_all split: sum.split)
  moreover have "parse_option network d opt = Inl (if opt \<in> {Version, Help} then Exit_success else Exit_error)" for d
    using assms(2) by (cases opt) (auto simp: valid_option_def parse_option_def Let_def optics_poller_set_host_def strnlen_def optics_name_max_len_def nat_eq_iff2)
  ultimately show ?thesis using parse_options_valid [OF assms(1,3), of network] by auto
qed

section \<open>The daemon\<close>

text \<open>The backend that every daemon has.\<close>

definition rest_backend :: "metric qsort \<Rightarrow> backend_ctx backend" where
  "rest_backend qsort = \<lparr>bctx = Rest_ctx (Some zero_rest), bcb = rest_cb qsort, bfree = Some rest_free_cb\<rparr>"

lemma opticsd_config_fields:
  assumes "optics_poller_alloc (Some h) = Some p0"
  shows "backends (poller (opticsd_config qsort p0)) = [rest_backend qsort]" "host (poller (opticsd_config qsort p0)) = h"
    "freq (opticsd_config qsort p0) = 10" "http_port (opticsd_config qsort p0) = 3002"
    "\<not> backend_selected (opticsd_config qsort p0)" "\<not> daemon (opticsd_config qsort p0)"
  using assms by (auto simp: optics_poller_alloc_def opticsd_config_def optics_dump_rest_def optics_poller_backend_def
      poller_max_backends_def rest_backend_def)



text \<open>The calls of the poller reach the REST backend.\<close>

lemma rest_cb_calls:
  "foldl (\<lambda>c (type, poll). rest_cb qsort c type poll) (Rest_ctx (Some rest)) calls = Rest_ctx (rest_dumps qsort rest calls)"
proof -
  have none: "foldl (\<lambda>c (type, poll). rest_cb qsort c type poll) (Rest_ctx None) calls = Rest_ctx None" for qsort calls
    by (induction calls) (auto simp: rest_cb_def)
  show ?thesis
  proof (induction qsort rest calls rule: rest_dumps.induct)
    case (2 qsort rest type poll calls)
    have "rest_cb qsort (Rest_ctx (Some rest)) type poll = Rest_ctx (rest_dump qsort rest type poll)" by (simp add: rest_cb_def)
    then show ?case using 2 by (cases "rest_dump qsort rest type poll") (simp_all add: none)
  qed simp
qed

end
