(* ===== verification/Errors.thy ===== *)
theory Errors
  imports Buffer Format
begin

text \<open>
  Errors and warnings, \<^verbatim>\<open>src/utils/errors.c\<close>: the last error of a thread, its text, and where the text is written.
  The backtrace is the list of its symbols, which the C library finds; so are the numbers and texts of system errors.
  \<open>None\<close> means that memory outside an array is written or read.
\<close>

section \<open>Definitions\<close>

definition optics_err_msg_cap :: nat where
  "optics_err_msg_cap = 1024"

definition optics_err_backtrace_cap :: nat where
  "optics_err_backtrace_cap = 256"

record optics_error =
  warning :: bool
  efile :: string
  eline :: int
  errno :: int
  emsg :: string
  backtrace :: "string list"

definition int_dec :: "int \<Rightarrow> string" where
  "int_dec i = (if i < 0 then ''-'' @ dec (nat (- i)) else dec (nat i))"

text \<open>The first line; \<open>strerror\<close> gives the text of a system error.\<close>

definition error_head :: "nat \<Rightarrow> (int \<Rightarrow> string) \<Rightarrow> optics_error \<Rightarrow> string" where
  "error_head tid strerror err =
     (if errno err = 0
      then ''<'' @ dec tid @ ''> '' @ efile err @ '':'' @ int_dec (eline err) @ '': '' @ emsg err @ [CHR 0x0A]
      else ''<'' @ dec tid @ ''> '' @ efile err @ '':'' @ int_dec (eline err) @ '': '' @ emsg err @ '' - '' @
        strerror (errno err) @ ''('' @ int_dec (errno err) @ '')'' @ [CHR 0x0A])"

definition trace_line :: "nat \<Rightarrow> string \<Rightarrow> string" where
  "trace_line j symbol = ''  {'' @ dec j @ ''} '' @ symbol @ [CHR 0x0A]"

fun trace_loop :: "char list \<Rightarrow> nat \<Rightarrow> nat \<Rightarrow> nat \<Rightarrow> string list \<Rightarrow> (nat \<times> char list) option" where
  "trace_loop dest len i j [] = Some (i, dest)"
| "trace_loop dest len i j (symbol # symbols) =
     Option.bind (vsnprintf_at dest i (usub len i) (trace_line j symbol)) (\<lambda>dest1.
       trace_loop dest1 len (uadd i (length (trace_line j symbol))) (j + 1) symbols)"

definition optics_strerror :: "nat \<Rightarrow> (int \<Rightarrow> string) \<Rightarrow> optics_error \<Rightarrow> char list \<Rightarrow> nat \<Rightarrow> (nat \<times> char list) option" where
  "optics_strerror tid strerror err dest len =
     Option.bind (vsnprintf_at dest 0 len (error_head tid strerror err)) (\<lambda>dest1.
       trace_loop dest1 len (length (error_head tid strerror err)) 0 (backtrace err))"

text \<open>The error of the thread, the settings, and what was written.\<close>

record errors =
  last_error :: optics_error
  abort_on_fail :: bool
  abort_on_warn :: bool
  dump_to_syslog :: bool
  stderr_text :: string
  syslog_text :: "(bool \<times> string) list"

definition optics_syslog :: "errors \<Rightarrow> errors" where
  "optics_syslog s = s\<lparr>dump_to_syslog := True\<rparr>"

definition perror_cap :: nat where
  "perror_cap = 128 + optics_err_msg_cap + 80 * optics_err_backtrace_cap"

text \<open>\<open>junk\<close> is what the array has before.\<close>

definition optics_perror :: "nat \<Rightarrow> (int \<Rightarrow> string) \<Rightarrow> char list \<Rightarrow> errors \<Rightarrow> optics_error \<Rightarrow> errors option" where
  "optics_perror tid strerror junk s err =
     Option.bind (optics_strerror tid strerror err junk perror_cap) (\<lambda>(len, buf).
       if \<not> dump_to_syslog s then
         (if len \<le> length buf then Some (s\<lparr>stderr_text := stderr_text s @ take len buf\<rparr>) else None)
       else Some (s\<lparr>syslog_text := syslog_text s @ [(warning err, takeWhile (\<lambda>c. c \<noteq> nil_char) buf)]\<rparr>))"

text \<open>The addresses that the C library finds, at most as many as the array takes.\<close>

definition optics_backtrace :: "optics_error \<Rightarrow> string list \<Rightarrow> optics_error" where
  "optics_backtrace err trace = err\<lparr>backtrace := take optics_err_backtrace_cap trace\<rparr>"

text \<open>
  A failure becomes the last error of the thread; \<open>text\<close> is what the format expands to and \<open>trace\<close> the backtrace. The flag is set
  when the process aborts.
\<close>

definition optics_vfail :: "errors \<Rightarrow> string \<Rightarrow> int \<Rightarrow> string \<Rightarrow> string list \<Rightarrow> bool \<times> errors" where
  "optics_vfail s file line text trace =
     (abort_on_fail s,
      s\<lparr>last_error := optics_backtrace \<lparr>warning = False, efile = file, eline = line, errno = 0,
          emsg = take (optics_err_msg_cap - 1) text, backtrace = []\<rparr> trace\<rparr>)"

definition optics_vfail_errno :: "errors \<Rightarrow> int \<Rightarrow> string \<Rightarrow> int \<Rightarrow> string \<Rightarrow> string list \<Rightarrow> bool \<times> errors" where
  "optics_vfail_errno s err file line text trace =
     (abort_on_fail s,
      s\<lparr>last_error := optics_backtrace \<lparr>warning = False, efile = file, eline = line, errno = err,
          emsg = take (optics_err_msg_cap - 1) text, backtrace = []\<rparr> trace\<rparr>)"

text \<open>A warning is written at once and is not the last error.\<close>

definition optics_vwarn_va ::
  "nat \<Rightarrow> (int \<Rightarrow> string) \<Rightarrow> char list \<Rightarrow> errors \<Rightarrow> string \<Rightarrow> int \<Rightarrow> string \<Rightarrow> string list \<Rightarrow> errors option" where
  "optics_vwarn_va tid strerror junk s file line text trace =
     optics_perror tid strerror junk s (optics_backtrace \<lparr>warning = True, efile = file, eline = line, errno = 0,
       emsg = take (optics_err_msg_cap - 1) text, backtrace = []\<rparr> trace)"

definition optics_vwarn :: "nat \<Rightarrow> (int \<Rightarrow> string) \<Rightarrow> char list \<Rightarrow> errors \<Rightarrow> string \<Rightarrow> int \<Rightarrow> string \<Rightarrow> string list \<Rightarrow> errors option" where
  "optics_vwarn tid strerror junk s file line text trace = optics_vwarn_va tid strerror junk s file line text trace"

definition optics_vwarn_errno ::
  "nat \<Rightarrow> (int \<Rightarrow> string) \<Rightarrow> char list \<Rightarrow> errors \<Rightarrow> int \<Rightarrow> string \<Rightarrow> int \<Rightarrow> string \<Rightarrow> string list \<Rightarrow> errors option" where
  "optics_vwarn_errno tid strerror junk s err file line text trace =
     optics_perror tid strerror junk s (optics_backtrace \<lparr>warning = True, efile = file, eline = line, errno = err,
       emsg = take (optics_err_msg_cap - 1) text, backtrace = []\<rparr> trace)"

text \<open>The debugging switches. Nothing reads the second.\<close>

definition optics_dbg_abort_on_fail :: "errors \<Rightarrow> errors" where
  "optics_dbg_abort_on_fail s = s\<lparr>abort_on_fail := True\<rparr>"

definition optics_dbg_abort_on_warn :: "errors \<Rightarrow> errors" where
  "optics_dbg_abort_on_warn s = s\<lparr>abort_on_warn := True\<rparr>"

text \<open>Both write the last error before the process ends; the log is dumped after that (\<^verbatim>\<open>optics_log_dump\<close>).\<close>

definition optics_abort :: "nat \<Rightarrow> (int \<Rightarrow> string) \<Rightarrow> char list \<Rightarrow> errors \<Rightarrow> errors option" where
  "optics_abort tid strerror junk s = optics_perror tid strerror junk s (last_error s)"

definition optics_error_exit :: "nat \<Rightarrow> (int \<Rightarrow> string) \<Rightarrow> char list \<Rightarrow> errors \<Rightarrow> errors option" where
  "optics_error_exit tid strerror junk s = optics_perror tid strerror junk s (last_error s)"

section \<open>Assertions\<close>

text \<open>
  The macros of \<^verbatim>\<open>src/utils/errors.h\<close>. A failed assertion records the failure and ends the process (\<open>True\<close>), which writes the
  failure; if failures abort by themselves, the same is written once, earlier.
\<close>

definition optics_fail_ierrno :: "errors \<Rightarrow> int \<Rightarrow> string \<Rightarrow> int \<Rightarrow> string \<Rightarrow> string list \<Rightarrow> bool \<times> errors" where
  "optics_fail_ierrno s err file line text trace = optics_vfail_errno s err file line text trace"

definition optics_warn_ierrno ::
  "nat \<Rightarrow> (int \<Rightarrow> string) \<Rightarrow> char list \<Rightarrow> errors \<Rightarrow> int \<Rightarrow> string \<Rightarrow> int \<Rightarrow> string \<Rightarrow> string list \<Rightarrow> errors option" where
  "optics_warn_ierrno tid strerror junk s err file line text trace = optics_vwarn_errno tid strerror junk s err file line text trace"

definition fail_abort ::
  "nat \<Rightarrow> (int \<Rightarrow> string) \<Rightarrow> char list \<Rightarrow> errors \<Rightarrow> string \<Rightarrow> int \<Rightarrow> string \<Rightarrow> string list \<Rightarrow> (bool \<times> errors) option" where
  "fail_abort tid strerror junk s file line text trace =
     map_option (Pair True) (optics_abort tid strerror junk (snd (optics_vfail s file line text trace)))"

definition optics_assert ::
  "nat \<Rightarrow> (int \<Rightarrow> string) \<Rightarrow> char list \<Rightarrow> errors \<Rightarrow> bool \<Rightarrow> string \<Rightarrow> int \<Rightarrow> string \<Rightarrow> string list \<Rightarrow> (bool \<times> errors) option" where
  "optics_assert tid strerror junk s p file line text trace =
     (if p then Some (False, s) else fail_abort tid strerror junk s file line text trace)"

definition optics_todo ::
  "nat \<Rightarrow> (int \<Rightarrow> string) \<Rightarrow> char list \<Rightarrow> errors \<Rightarrow> string \<Rightarrow> int \<Rightarrow> string \<Rightarrow> string list \<Rightarrow> (bool \<times> errors) option" where
  "optics_todo tid strerror junk s file line msg trace = fail_abort tid strerror junk s file line (''TODO: '' @ msg) trace"

definition optics_assert_alloc ::
  "nat \<Rightarrow> (int \<Rightarrow> string) \<Rightarrow> char list \<Rightarrow> errors \<Rightarrow> 'p option \<Rightarrow> string \<Rightarrow> int \<Rightarrow> string list \<Rightarrow> (bool \<times> errors) option" where
  "optics_assert_alloc tid strerror junk s p file line trace =
     optics_assert tid strerror junk s (p \<noteq> None) file line ''out-of-memory'' trace"

text \<open>The messages of the HTTP library (\<^verbatim>\<open>src/utils/crest/crest.c\<close>): a warning, or a failure that ends the process.\<close>

definition microhttpd_logger_cb ::
  "nat \<Rightarrow> (int \<Rightarrow> string) \<Rightarrow> char list \<Rightarrow> errors \<Rightarrow> string \<Rightarrow> string list \<Rightarrow> errors option" where
  "microhttpd_logger_cb tid strerror junk s text trace = optics_vwarn_va tid strerror junk s ''src/utils/crest/crest.c'' 298 text trace"

definition microhttpd_panic_cb ::
  "nat \<Rightarrow> (int \<Rightarrow> string) \<Rightarrow> char list \<Rightarrow> errors \<Rightarrow> string \<Rightarrow> int \<Rightarrow> string \<Rightarrow> string list \<Rightarrow> (bool \<times> errors) option" where
  "microhttpd_panic_cb tid strerror junk s file line reason trace =
     fail_abort tid strerror junk s ''src/utils/crest/crest.c'' 305 (''MHD '' @ file @ '':'' @ int_dec line @ '': '' @ reason) trace"

section \<open>The text of an error\<close>

definition trace_text :: "nat \<Rightarrow> string list \<Rightarrow> string" where
  "trace_text j symbols = concat (map (\<lambda>(k, symbol). trace_line k symbol) (enumerate j symbols))"

definition error_text :: "nat \<Rightarrow> (int \<Rightarrow> string) \<Rightarrow> optics_error \<Rightarrow> string" where
  "error_text tid strerror err = error_head tid strerror err @ trace_text 0 (backtrace err)"

lemma trace_text_Cons: "trace_text j (symbol # symbols) = trace_line j symbol @ trace_text (Suc j) symbols"
  by (simp add: trace_text_def)

text \<open>The array has the text up to its last byte, and the nil.\<close>

definition holds_text :: "char list \<Rightarrow> nat \<Rightarrow> string \<Rightarrow> bool" where
  "holds_text buf len s \<longleftrightarrow> length buf = len \<and> (if length s < len then take (Suc (length s)) buf = s @ [nil_char] else buf = take (len - 1) s @ [nil_char])"

lemma vsnprintf_holds:
  assumes "holds_text buf len s" "length s \<le> len" "0 < len" "len < 18446744073709551616" "t \<noteq> []"
  obtains buf' where "vsnprintf_at buf (length s) (usub len (length s)) t = Some buf'" "holds_text buf' len (s @ t)"
proof (cases "length s = len")
  case True
  then show thesis using assms that [of buf] by (simp add: vsnprintf_at_def usub_small holds_text_def)
next
  case False
  have u: "usub len (length s) = len - length s" using assms(2,4) by (intro usub_small) simp_all
  have b: "length buf = len" "length s < len" using assms(1,2) False by (simp_all add: holds_text_def)
  have "take (Suc (length s)) buf = s @ [nil_char]" using assms(1) b by (simp add: holds_text_def)
  then have "take (length s) (take (Suc (length s)) buf) = take (length s) (s @ [nil_char])" by (simp only:)
  then have s: "take (length s) buf = s" by (simp add: min_def)
  let ?t = "take (len - length s - 1) t"
  let ?b = "s @ ?t @ nil_char # drop (length s + length ?t + 1) buf"
  have "vsnprintf_at buf (length s) (usub len (length s)) t = Some ?b"
    using b s unfolding vsnprintf_at_def put_at_def u by simp
  moreover have "holds_text ?b len (s @ t)" using b by (auto simp: holds_text_def min_def)
  ultimately show thesis by (rule that)
qed

lemma trace_loop_bounds:
  assumes "holds_text buf len s" "0 < len" "len < 9223372036854775808" "length s + length (trace_text j symbols) < 9223372036854775808"
  shows "trace_loop buf len (length s) j symbols \<noteq> None \<longleftrightarrow>
      (\<forall>n < length symbols. length s + length (trace_text j (take n symbols)) \<le> len)"
    and "trace_loop buf len (length s) j symbols = Some (i, buf') \<Longrightarrow>
      i = length (s @ trace_text j symbols) \<and> holds_text buf' len (s @ trace_text j symbols)"
  using assms
proof (induction symbols arbitrary: buf s j i buf')
  case Nil
  { case 1 show ?case by simp next case 2 then show ?case by (simp add: trace_text_def) }
next
  case (Cons symbol symbols)
  { fix buf s j buf' i
    assume A: "holds_text buf len s" "0 < len" "len < 9223372036854775808"
      "length s + length (trace_text j (symbol # symbols)) < 9223372036854775808"
    let ?t = "trace_line j symbol"
    have all: "(\<forall>n < length (symbol # symbols). length s + length (trace_text j (take n (symbol # symbols))) \<le> len) \<longleftrightarrow>
        length s \<le> len \<and> (\<forall>n < length symbols. length (s @ ?t) + length (trace_text (Suc j) (take n symbols)) \<le> len)"
      by (simp add: All_less_Suc2 trace_text_Cons add.assoc) (simp add: trace_text_def)
    have split: "s @ trace_text j (symbol # symbols) = (s @ ?t) @ trace_text (Suc j) symbols" by (simp add: trace_text_Cons)
    have l: "length (s @ ?t) + length (trace_text (Suc j) symbols) < 9223372036854775808" using A(4) by (simp add: trace_text_Cons)
    then have u: "uadd (length s) (length ?t) = length (s @ ?t)" by (simp add: uadd_def)
    have ne: "?t \<noteq> []" by (simp add: trace_line_def)
    have "(trace_loop buf len (length s) j (symbol # symbols) \<noteq> None \<longleftrightarrow>
        (\<forall>n < length (symbol # symbols). length s + length (trace_text j (take n (symbol # symbols))) \<le> len)) \<and>
      (trace_loop buf len (length s) j (symbol # symbols) = Some (i, buf') \<longrightarrow>
        i = length (s @ trace_text j (symbol # symbols)) \<and> holds_text buf' len (s @ trace_text j (symbol # symbols)))"
    proof (cases "length s \<le> len")
      case True
      have "len < 18446744073709551616" using A(3) by simp
      from A(1) True A(2) this ne obtain b1 where b1: "vsnprintf_at buf (length s) (usub len (length s)) ?t = Some b1" "holds_text b1 len (s @ ?t)"
        by (rule vsnprintf_holds)
      have "trace_loop buf len (length s) j (symbol # symbols) = trace_loop b1 len (length (s @ ?t)) (Suc j) symbols"
        using b1(1) u by simp
      then show ?thesis
        using Cons.IH(1) [OF b1(2) A(2,3) l] Cons.IH(2) [OF _ b1(2) A(2,3) l] True unfolding all split by simp
    next
      case False
      have "length buf = len" using A(1) by (simp add: holds_text_def)
      moreover have "usub len (length s) \<noteq> 0" using False A(3,4) by (simp add: usub_def)
      ultimately have "vsnprintf_at buf (length s) (usub len (length s)) ?t = None"
        using False by (simp add: vsnprintf_at_def put_at_def)
      then show ?thesis using False unfolding all by simp
    qed }
  note step = this
  { case 1 show ?case by (rule conjunct1 [OF step [OF 1]])
  next case 2 show ?case by (rule mp [OF conjunct2 [OF step [OF 2(2-5)]] 2(1)]) }
qed

text \<open>
  C40: The text of an error. Writing it stays inside the array of \<open>len\<close> bytes exactly if no line of the backtrace starts
  past its end: each line is written with the room \<^verbatim>\<open>len - i\<close> that is left, and once \<^verbatim>\<open>i\<close> is larger than
  \<^verbatim>\<open>len\<close> this wraps around, so that the next line is written outside. If it stays inside then it returns the length of the whole text, and the
  array has the text, cut to its size, and a nil.
\<close>

theorem strerror_bounds:
  assumes "length dest = len" "0 < len" "len < 9223372036854775808" "length (error_text tid strerror err) < 9223372036854775808"
  shows "case optics_strerror tid strerror err dest len of
      None \<Rightarrow> \<exists>n < length (backtrace err). len < length (error_head tid strerror err @ trace_text 0 (take n (backtrace err)))
    | Some (i, buf) \<Rightarrow> (\<forall>n < length (backtrace err). length (error_head tid strerror err @ trace_text 0 (take n (backtrace err))) \<le> len) \<and>
        i = length (error_text tid strerror err) \<and> holds_text buf len (error_text tid strerror err)"
proof -
  let ?h = "error_head tid strerror err"
  let ?b = "take (len - 1) ?h @ nil_char # drop (Suc (min (len - 1) (length ?h))) dest"
  have "vsnprintf_at dest 0 len ?h = Some ?b" using assms(1,2) by (cases dest) (auto simp: vsnprintf_at_def put_at_def min_def)
  then have e: "optics_strerror tid strerror err dest len = trace_loop ?b len (length ?h) 0 (backtrace err)"
    by (simp add: optics_strerror_def)
  have h: "holds_text ?b len ?h" using assms(1,2) by (cases dest) (auto simp: holds_text_def min_def)
  have l: "length ?h + length (trace_text 0 (backtrace err)) < 9223372036854775808" using assms(4) by (simp add: error_text_def)
  note B = trace_loop_bounds [OF h assms(2,3) l]
  show ?thesis
  proof (cases "trace_loop ?b len (length ?h) 0 (backtrace err)")
    case None
    then show ?thesis using B(1) unfolding e by (simp add: not_le)
  next
    case (Some r)
    obtain i buf where r: "r = (i, buf)" by (cases r)
    have "trace_loop ?b len (length ?h) 0 (backtrace err) \<noteq> None" using Some by simp
    then have "\<forall>n < length (backtrace err). length ?h + length (trace_text 0 (take n (backtrace err))) \<le> len" using B(1) by blast
    then show ?thesis using B(2) [of i buf] Some r unfolding e by (simp add: error_text_def)
  qed
qed

definition short_error :: optics_error where
  "short_error = \<lparr>warning = False, efile = ''a.c'', eline = 7, errno = 0, emsg = ''bad'', backtrace = [''main'', ''start'']\<rparr>"

theorem strerror_bounds_witness:
  "optics_strerror 1 (\<lambda>_. []) short_error (replicate 20 nil_char) 20 = None \<and>
   (\<exists>buf. optics_strerror 1 (\<lambda>_. []) short_error (replicate 40 nil_char) 40 = Some (38, buf) \<and> holds_text buf 40 (error_text 1 (\<lambda>_. []) short_error))"
proof -
  have d: "dec 0 = ''0''" "dec (Suc 0) = ''1''" "dec 7 = ''7''"
    by (simp_all add: dec.simps [of 0] dec.simps [of "Suc 0"] dec.simps [of 7] digit_def char_of_def bit_0)
  have h: "error_head (Suc 0) (\<lambda>_. []) short_error = ''<1> a.c:7: bad'' @ [CHR 0x0A]" by (simp add: error_head_def short_error_def int_dec_def d)
  have t: "trace_text 0 [''main'', ''start''] = ''  {0} main'' @ [CHR 0x0A] @ ''  {1} start'' @ [CHR 0x0A]"
      "trace_text 0 [''main''] = ''  {0} main'' @ [CHR 0x0A]" "trace_text 0 [] = []"
    by (simp_all add: trace_text_def trace_line_def d)
  have b: "backtrace short_error = [''main'', ''start'']" by (simp add: short_error_def)
  have "length (error_text 1 (\<lambda>_. []) short_error) = 38" by (simp add: error_text_def h t b)
  moreover have "optics_strerror 1 (\<lambda>_. []) short_error (replicate 20 nil_char) 20 = None"
    using strerror_bounds [of "replicate 20 nil_char" 20 1 "\<lambda>_. []" short_error] calculation
    by (cases "optics_strerror 1 (\<lambda>_. []) short_error (replicate 20 nil_char) 20") (auto simp: h b t dest!: spec [of _ 1])
  moreover have "optics_strerror 1 (\<lambda>_. []) short_error (replicate 40 nil_char) 40 \<noteq> None"
  proof
    assume "optics_strerror 1 (\<lambda>_. []) short_error (replicate 40 nil_char) 40 = None"
    then obtain n where n: "n < Suc 1" "40 < length (error_head 1 (\<lambda>_. []) short_error @ trace_text 0 (take n [''main'', ''start'']))"
      using strerror_bounds [of "replicate 40 nil_char" 40 1 "\<lambda>_. []" short_error] calculation b by auto
    then consider "n = 0" | "n = 1" by linarith
    then show False using n(2) by cases (simp_all add: h t)
  qed
  ultimately show ?thesis using strerror_bounds [of "replicate 40 nil_char" 40 1 "\<lambda>_. []" short_error] by auto
qed

end
