(* ===== verification/Log.thy ===== *)
theory Log
  imports Dist Runtime Slock "HOL-Library.AList"
begin

text \<open>
  The debugging log, \<^verbatim>\<open>src/utils/log.c\<close>: every thread has a ring of its last messages, numbered by a common clock, and
  a dump writes the rings of all threads, newest message first. Threads are numbered; the rings are in a list, the
  newest first. Lines are kept as the fields that they print.
\<close>

section \<open>Definitions\<close>

definition ring_size :: nat where
  "ring_size = 2 ^ 14"

record log_msg =
  ltid :: nat
  ltick :: nat
  ltitle :: string
  lmsg :: string

definition zero_msg :: log_msg where
  "zero_msg = \<lparr>ltid = 0, ltick = 0, ltitle = [], lmsg = []\<rparr>"

record log_ring =
  rpos :: nat
  rdata :: "log_msg list"

record log_state =
  ticks :: nat
  rings :: "(nat \<times> log_ring) list"
  ring_lock :: slock
  threads :: tids
  dumped :: "log_msg list"

definition tick_inc :: "log_state \<Rightarrow> nat \<times> log_state" where
  "tick_inc s = (ticks s, s\<lparr>ticks := uadd (ticks s) 1\<rparr>)"

definition empty_ring :: log_ring where
  "empty_ring = \<lparr>rpos = 0, rdata = replicate ring_size zero_msg\<rparr>"

text \<open>The ring of thread \<open>t\<close>, made at its first message; \<open>None\<close>: the lock is never released.\<close>

definition ring_get :: "nat \<Rightarrow> log_state \<Rightarrow> (log_ring \<times> log_state) option" where
  "ring_get t s =
     (case map_of (rings s) t of
        Some ring \<Rightarrow> Some (ring, s)
      | None \<Rightarrow>
          Option.bind (slock_lock (ring_lock s)) (\<lambda>l.
            Some (empty_ring, s\<lparr>rings := (t, empty_ring) # rings s, ring_lock := slock_unlock l\<rparr>)))"

text \<open>\<open>text\<close> is what the format expands to; a message has 128 bytes.\<close>

definition ring_log :: "nat \<Rightarrow> string \<Rightarrow> string \<Rightarrow> log_state \<Rightarrow> log_state option" where
  "ring_log t title text s =
     Option.bind (ring_get t s) (\<lambda>(ring, s1).
       let i = rpos ring mod ring_size;
           (tick, s2) = tick_inc s1;
           (me, ts) = tid t (threads s2);
           ring1 = \<lparr>rpos = uadd (rpos ring) 1, rdata = (rdata ring)[i := \<lparr>ltid = me, ltick = tick, ltitle = title, lmsg = take 127 text\<rparr>]\<rparr>
       in Some (s2\<lparr>threads := ts, rings := AList.update t ring1 (rings s2)\<rparr>))"

definition ring_count :: "log_state \<Rightarrow> nat" where
  "ring_count s = length (rings s)"

text \<open>The difference of the ticks is returned as a 32-bit number.\<close>

definition ring_cmp :: "log_msg \<Rightarrow> log_msg \<Rightarrow> int option" where
  "ring_cmp lhs rhs = Some (sint (word_of_int (int (ltick rhs) - int (ltick lhs)) :: 32 word))"

definition ring_dump :: "log_msg qsort \<Rightarrow> log_state \<Rightarrow> log_state option" where
  "ring_dump qsort s =
     Option.bind (slock_lock (ring_lock s)) (\<lambda>l.
       let msgs = concat (map (\<lambda>(_, ring). rdata ring) (rings s));
           fresh = map (\<lambda>(t, ring). (t, ring\<lparr>rdata := replicate ring_size zero_msg\<rparr>)) (rings s)
       in Option.bind (qsort ring_cmp msgs) (\<lambda>sorted.
            Some (s\<lparr>rings := fresh, dumped := dumped s @ filter (\<lambda>m. ltick m \<noteq> 0) sorted, ring_lock := slock_unlock l\<rparr>)))"

text \<open>Without rings a message is written at once, cut to 1023 characters.\<close>

definition optics_log_impl :: "bool \<Rightarrow> nat \<Rightarrow> string \<Rightarrow> string \<Rightarrow> log_state \<Rightarrow> log_state option" where
  "optics_log_impl log_ring t title text s =
     (if log_ring then ring_log t title text s
      else
        (let (tick, s1) = tick_inc s;
             (me, ts) = tid t (threads s1)
         in Some (s1\<lparr>threads := ts, dumped := dumped s1 @ [\<lparr>ltid = me, ltick = tick, ltitle = title, lmsg = take 1023 text\<rparr>]\<rparr>)))"

definition optics_log_dump :: "bool \<Rightarrow> log_msg qsort \<Rightarrow> log_state \<Rightarrow> log_state option" where
  "optics_log_dump log_ring qsort s = (if log_ring then ring_dump qsort s else Some s)"

section \<open>Properties\<close>

text \<open>As long as fewer than \<open>2 ^ 31\<close> messages were logged the comparison orders them, newest first.\<close>

lemma ring_cmp_diff:
  assumes "ltick a < 2 ^ 31" "ltick b < 2 ^ 31"
  shows "ring_cmp a b = Some (int (ltick b) - int (ltick a))"
proof -
  define d where "d = int (ltick b) - int (ltick a)"
  have "- (2 ^ 31) \<le> d" "d < 2 ^ 31" using assms by (simp_all add: d_def)
  then have "sint (word_of_int d :: 32 word) = d" by (simp add: signed_of_int signed_take_bit_int_eq_self)
  then show ?thesis unfolding ring_cmp_def d_def by simp
qed

lemma ring_cmp_orders: "\<forall>m \<in> S. ltick m < 2 ^ 31 \<Longrightarrow> cmp_orders ring_cmp S"
  unfolding cmp_orders_def by (simp add: ring_cmp_diff)

text \<open>
  A dump that finds the lock free writes every message that is in a ring, except one with number 0, each once and newest first, and
  empties the rings.
\<close>

lemma ring_dump_writes:
  assumes "qsort_ok qsort" "ring_lock s = 0" "\<forall>(t, ring) \<in> set (rings s). \<forall>m \<in> set (rdata ring). ltick m < 2 ^ 31"
  shows "\<exists>s' out. ring_dump qsort s = Some s' \<and> dumped s' = dumped s @ out \<and> ring_lock s' = 0 \<and>
    mset out = filter_mset (\<lambda>m. ltick m \<noteq> 0) (mset (concat (map (rdata \<circ> snd) (rings s)))) \<and>
    sorted_wrt (\<lambda>a b. ltick b \<le> ltick a) out \<and> (\<forall>(t, ring) \<in> set (rings s'). rdata ring = replicate ring_size zero_msg)"
proof -
  let ?ms = "concat (map (\<lambda>(_, ring). rdata ring) (rings s))"
  have small: "\<forall>m \<in> set ?ms. ltick m < 2 ^ 31" using assms(3) by auto
  then obtain ys where ys: "qsort ring_cmp ?ms = Some ys" "mset ys = mset ?ms" "sorted_wrt (cmp_le ring_cmp) ys"
    using assms(1) ring_cmp_orders unfolding qsort_ok_def by blast
  have "set ys = set ?ms" using ys(2) by (rule mset_eq_setD)
  then have "\<forall>m \<in> set ys. ltick m < 2 ^ 31" using small by blast
  then have "ltick b \<le> ltick a" if "a \<in> set ys" "b \<in> set ys" "cmp_le ring_cmp a b" for a b
    using that ring_cmp_diff [of a b] by (simp add: cmp_le_def)
  then have "sorted_wrt (\<lambda>a b. ltick b \<le> ltick a) ys" by (rule sorted_wrt_mono_rel [OF _ ys(3)])
  then have "sorted_wrt (\<lambda>a b. ltick b \<le> ltick a) (filter (\<lambda>m. ltick m \<noteq> 0) ys)" by (rule sorted_wrt_filter)
  moreover have "mset (filter (\<lambda>m. ltick m \<noteq> 0) ys) = filter_mset (\<lambda>m. ltick m \<noteq> 0) (mset (concat (map (rdata \<circ> snd) (rings s))))"
    using ys(2) by (simp add: mset_filter comp_def split_def)
  moreover obtain s' where "ring_dump qsort s = Some s'" "dumped s' = dumped s @ filter (\<lambda>m. ltick m \<noteq> 0) ys" "ring_lock s' = 0"
      "rings s' = map (\<lambda>(t, ring). (t, ring\<lparr>rdata := replicate ring_size zero_msg\<rparr>)) (rings s)"
    using assms(2) ys(1) by (simp add: ring_dump_def Let_def)
  ultimately show ?thesis by (intro exI [of _ s'] exI [of _ "filter (\<lambda>m. ltick m \<noteq> 0) ys"]) auto
qed

end
