(* ===== verification/Threads.thy ===== *)
theory Threads
  imports Runtime
begin

text \<open>
  Running a function in several threads, \<^verbatim>\<open>src/utils/thread.c\<close>: the calling thread creates the threads one after the other,
  each bound to a processor, and joins them in the same order; the threads run meanwhile. What the thread library returns is an
  argument. The work of a thread is a list of atomic actions on what the threads share.
\<close>

section \<open>Definitions\<close>

text \<open>\<open>count\<close> is what \<^verbatim>\<open>sysconf\<close> returns; \<open>None\<close>: the process aborts.\<close>

definition cpus :: "int \<Rightarrow> nat option" where
  "cpus count = (if count \<noteq> -1 then Some (nat (count mod 2 ^ 64)) else None)"

record pthread =
  attr_init :: "nat \<Rightarrow> int"
  create :: "nat \<Rightarrow> int"
  attr_destroy :: "nat \<Rightarrow> int"
  join :: "nat \<Rightarrow> int"

text \<open>The calling thread: which thread it creates or joins next.\<close>

datatype main_pc = Creating nat | Joining nat | Returned | Aborted_main

text \<open>\<open>done i\<close> is how many actions thread \<open>i\<close> has run, once it is created; \<open>affinity\<close> are the processors it may use.\<close>

record 'c run =
  pc :: main_pc
  done_of :: "nat \<rightharpoonup> nat"
  affinity :: "nat \<Rightarrow> nat set"
  shared :: 'c

definition run_init :: "'c \<Rightarrow> 'c run" where
  "run_init ctx = \<lparr>pc = Creating 0, done_of = Map.empty, affinity = \<lambda>_. {}, shared = ctx\<rparr>"

text \<open>
  \<^verbatim>\<open>run_thread_shim\<close> calls the function with the number of the thread and the context: thread \<open>i\<close> runs the actions \<open>fn i\<close>.
  The result of setting the affinity is not looked at. A join that returns 0 has waited for the thread; any other result
  but -1 is taken for success as well.
\<close>

inductive rstep :: "pthread \<Rightarrow> (nat \<Rightarrow> ('c \<Rightarrow> 'c) list) \<Rightarrow> nat \<Rightarrow> nat \<Rightarrow> 'c run \<Rightarrow> 'c run \<Rightarrow> bool"
  for lib fn n set_len where
  no_attr: "pc s = Creating i \<Longrightarrow> i < n \<Longrightarrow> attr_init lib i \<noteq> 0 \<Longrightarrow> rstep lib fn n set_len s (s\<lparr>pc := Aborted_main\<rparr>)"
| not_created: "pc s = Creating i \<Longrightarrow> i < n \<Longrightarrow> attr_init lib i = 0 \<Longrightarrow> create lib i \<noteq> 0 \<Longrightarrow>
    rstep lib fn n set_len s (s\<lparr>pc := Aborted_main\<rparr>)"
| created: "pc s = Creating i \<Longrightarrow> i < n \<Longrightarrow> attr_init lib i = 0 \<Longrightarrow> create lib i = 0 \<Longrightarrow>
    rstep lib fn n set_len s
      (s\<lparr>done_of := (done_of s)(i \<mapsto> 0), affinity := (affinity s)(i := {i mod set_len}),
         pc := (if attr_destroy lib i \<noteq> 0 then Aborted_main else Creating (i + 1))\<rparr>)"
| all_created: "pc s = Creating n \<Longrightarrow> rstep lib fn n set_len s (s\<lparr>pc := Joining 0\<rparr>)"
| run_thread_shim: "done_of s i = Some k \<Longrightarrow> k < length (fn i) \<Longrightarrow>
    rstep lib fn n set_len s (s\<lparr>done_of := (done_of s)(i \<mapsto> k + 1), shared := (fn i ! k) (shared s)\<rparr>)"
| joined: "pc s = Joining i \<Longrightarrow> i < n \<Longrightarrow> join lib i = 0 \<Longrightarrow> done_of s i = Some (length (fn i)) \<Longrightarrow>
    rstep lib fn n set_len s (s\<lparr>pc := Joining (i + 1)\<rparr>)"
| not_joined: "pc s = Joining i \<Longrightarrow> i < n \<Longrightarrow> join lib i \<noteq> 0 \<Longrightarrow>
    rstep lib fn n set_len s (s\<lparr>pc := (if join lib i = -1 then Aborted_main else Joining (i + 1))\<rparr>)"
| all_joined: "pc s = Joining n \<Longrightarrow> rstep lib fn n set_len s (s\<lparr>pc := Returned\<rparr>)"

text \<open>
  The number of threads and processors: \<open>None\<close> if the process aborts, or divides by zero because there is no processor.
\<close>

definition run_threads_size :: "int \<Rightarrow> int \<Rightarrow> nat \<Rightarrow> (nat \<times> nat) option" where
  "run_threads_size count1 count2 n0 =
     Option.bind (if n0 = 0 then cpus count1 else Some n0) (\<lambda>n.
       if \<not> n \<ge> 2 then None
       else Option.bind (cpus count2) (\<lambda>set_len. if set_len = 0 then None else Some (n, set_len)))"

text \<open>The states that a call reaches.\<close>

inductive run_threads :: "pthread \<Rightarrow> (nat \<Rightarrow> ('c \<Rightarrow> 'c) list) \<Rightarrow> nat \<Rightarrow> nat \<Rightarrow> 'c \<Rightarrow> 'c run \<Rightarrow> bool"
  for lib fn n set_len ctx where
  start: "run_threads lib fn n set_len ctx (run_init ctx)"
| step: "run_threads lib fn n set_len ctx s \<Longrightarrow> rstep lib fn n set_len s t \<Longrightarrow> run_threads lib fn n set_len ctx t"

section \<open>Properties\<close>

text \<open>The library works: every call returns 0.\<close>

definition pthread_works :: "pthread \<Rightarrow> bool" where
  "pthread_works lib \<longleftrightarrow> (\<forall>i. attr_init lib i = 0 \<and> create lib i = 0 \<and> attr_destroy lib i = 0 \<and> join lib i = 0)"

text \<open>Which threads exist and which have been waited for.\<close>

definition run_inv :: "(nat \<Rightarrow> ('c \<Rightarrow> 'c) list) \<Rightarrow> nat \<Rightarrow> nat \<Rightarrow> 'c run \<Rightarrow> bool" where
  "run_inv fn n set_len s \<longleftrightarrow>
     (\<forall>i k. done_of s i = Some k \<longrightarrow> i < n \<and> k \<le> length (fn i) \<and> affinity s i = {i mod set_len}) \<and>
     (case pc s of
        Creating j \<Rightarrow> j \<le> n \<and> dom (done_of s) = {..<j}
      | Joining j \<Rightarrow> j \<le> n \<and> dom (done_of s) = {..<n} \<and> (\<forall>i < j. done_of s i = Some (length (fn i)))
      | Returned \<Rightarrow> dom (done_of s) = {..<n} \<and> (\<forall>i < n. done_of s i = Some (length (fn i)))
      | Aborted_main \<Rightarrow> False)"

lemma run_inv_step:
  assumes "pthread_works lib" "rstep lib fn n set_len s t" "run_inv fn n set_len s"
  shows "run_inv fn n set_len t"
  using assms(2)
proof (cases rule: rstep.cases)
  case (created i)
  then show ?thesis using assms(1,3) by (auto simp: run_inv_def pthread_works_def lessThan_Suc)
next
  case (run_thread_shim i k)
  have "dom ((done_of s)(i \<mapsto> k + 1)) = dom (done_of s)" using run_thread_shim by auto
  then show ?thesis using run_thread_shim assms(3) by (auto simp: run_inv_def split: main_pc.splits)
next
  case (joined i)
  then show ?thesis using assms(3) by (auto simp: run_inv_def less_Suc_eq Suc_le_eq)
next
  case all_created
  then show ?thesis using assms(3) by (auto simp: run_inv_def)
next
  case all_joined
  then show ?thesis using assms(3) by (auto simp: run_inv_def)
qed (use assms(1) in \<open>auto simp: pthread_works_def\<close>)

lemma run_threads_inv:
  assumes "run_threads lib fn n set_len ctx s" "pthread_works lib"
  shows "run_inv fn n set_len s"
  using assms
proof (induction rule: run_threads.induct)
  case start
  then show ?case by (simp add: run_inv_def run_init_def)
next
  case (step s t)
  then show ?case using run_inv_step by blast
qed

text \<open>What is still to be done.\<close>

definition run_left :: "(nat \<Rightarrow> ('c \<Rightarrow> 'c) list) \<Rightarrow> nat \<Rightarrow> 'c run \<Rightarrow> nat" where
  "run_left fn n s =
     (case pc s of Creating j \<Rightarrow> (n - j) + n + 2 | Joining j \<Rightarrow> (n - j) + 1 | _ \<Rightarrow> 0) +
     (\<Sum>i < n. length (fn i) - (case done_of s i of None \<Rightarrow> 0 | Some k \<Rightarrow> k))"

lemma run_left_step:
  assumes "pthread_works lib" "rstep lib fn n set_len s t" "run_inv fn n set_len s"
  shows "run_left fn n t < run_left fn n s"
  using assms(2)
proof (cases rule: rstep.cases)
  case (created i)
  have "done_of s i = None" using created assms(3) by (auto simp: run_inv_def dom_def)
  then have "(case ((done_of s)(i \<mapsto> 0)) j of None \<Rightarrow> 0 | Some k \<Rightarrow> k) = (case done_of s j of None \<Rightarrow> 0 | Some k \<Rightarrow> k)" for j by simp
  then show ?thesis using created assms(1) by (simp add: run_left_def pthread_works_def del: fun_upd_apply)
next
  case (run_thread_shim i k)
  have "i < n" using run_thread_shim assms(3) by (auto simp: run_inv_def)
  let ?w = "\<lambda>d j. length (fn j) - (case d j of None \<Rightarrow> 0 | Some k \<Rightarrow> k)"
  have "(\<Sum>j < n. ?w ((done_of s)(i \<mapsto> k + 1)) j) < (\<Sum>j < n. ?w (done_of s) j)"
    by (rule sum_strict_mono_ex1) (use \<open>i < n\<close> run_thread_shim in \<open>auto intro!: bexI [of _ i]\<close>)
  then show ?thesis using run_thread_shim by (simp add: run_left_def del: fun_upd_apply)
qed (use assms(1) in \<open>auto simp: run_left_def pthread_works_def\<close>)

lemma run_progress:
  assumes "pthread_works lib" "run_inv fn n set_len s" "pc s \<noteq> Returned"
  shows "\<exists>t. rstep lib fn n set_len s t"
proof (cases "pc s")
  case (Creating i)
  then show ?thesis
    using assms(1,2) rstep.created [of s i n lib fn set_len] rstep.all_created [of s n lib fn set_len] by (cases "i < n") (auto simp: run_inv_def pthread_works_def)
next
  case (Joining i)
  show ?thesis
  proof (cases "i < n")
    case True
    then have "i \<in> dom (done_of s)" using assms(2) Joining by (simp add: run_inv_def)
    then obtain k where k: "done_of s i = Some k" "k \<le> length (fn i)" using assms(2) unfolding run_inv_def by blast
    show ?thesis
    proof (cases "k = length (fn i)")
      case True
      then show ?thesis using rstep.joined [OF Joining \<open>i < n\<close>, of lib fn set_len] assms(1) k(1) by (auto simp: pthread_works_def)
    next
      case False
      then show ?thesis using rstep.run_thread_shim [OF k(1), of fn lib n set_len] k(2) by auto
    qed
  next
    case False
    then show ?thesis using rstep.all_joined [of s n lib fn set_len] assms(2) Joining by (auto simp: run_inv_def)
  qed
qed (use assms in \<open>auto simp: run_inv_def\<close>)

text \<open>The actions that are left, thread by thread.\<close>

definition todo :: "(nat \<Rightarrow> ('c \<Rightarrow> 'c) list) \<Rightarrow> (nat \<rightharpoonup> nat) \<Rightarrow> nat \<Rightarrow> ('c \<Rightarrow> 'c) list" where
  "todo fn d i = drop (case d i of None \<Rightarrow> 0 | Some k \<Rightarrow> k) (fn i)"

definition commuting :: "(nat \<Rightarrow> ('c \<Rightarrow> 'c) list) \<Rightarrow> nat \<Rightarrow> bool" where
  "commuting fn n \<longleftrightarrow> (\<forall>i < n. \<forall>j < n. i \<noteq> j \<longrightarrow> (\<forall>f \<in> set (fn i). \<forall>g \<in> set (fn j). f \<circ> g = g \<circ> f))"

fun perform :: "('c \<Rightarrow> 'c) list \<Rightarrow> 'c \<Rightarrow> 'c" where
  "perform [] c = c"
| "perform (f # fs) c = perform fs (f c)"

lemma perform_append: "perform (fs @ gs) c = perform gs (perform fs c)"
  by (induction fs arbitrary: c) simp_all

lemma perform_commute: "\<forall>g \<in> set gs. f \<circ> g = g \<circ> f \<Longrightarrow> perform gs (f c) = f (perform gs c)"
proof (induction gs arbitrary: c)
  case (Cons g gs)
  have "g (f c) = f (g c)" using Cons.prems by (simp add: fun_eq_iff)
  then show ?case using Cons.IH [of "g c"] Cons.prems by simp
qed simp

text \<open>If actions of different threads commute, running one action now or when its thread's turn comes is the same.\<close>

lemma todo_step:
  assumes "commuting fn n" "i < n" "d i = Some k" "k < length (fn i)"
  shows "perform (concat (map (todo fn (d(i \<mapsto> k + 1))) [0..<n])) ((fn i ! k) c) = perform (concat (map (todo fn d) [0..<n])) c"
proof -
  have split: "[0..<n] = [0..<i] @ i # [Suc i..<n]" using assms(2) by (metis le0 less_imp_le upt_add_eq_append upt_conv_Cons le_add_diff_inverse)
  let ?A = "concat (map (todo fn d) [0..<i])" and ?C = "concat (map (todo fn d) [Suc i..<n])"
  have i: "todo fn d i = fn i ! k # todo fn (d(i \<mapsto> k + 1)) i" using assms(3,4) by (simp add: todo_def Cons_nth_drop_Suc)
  have same: "map (todo fn (d(i \<mapsto> k + 1))) [0..<i] = map (todo fn d) [0..<i]" "map (todo fn (d(i \<mapsto> k + 1))) [Suc i..<n] = map (todo fn d) [Suc i..<n]"
    by (simp_all add: todo_def)
  have "fn i ! k \<circ> g = g \<circ> fn i ! k" if g: "g \<in> set ?A" for g
  proof -
    obtain j where j: "j < i" "g \<in> set (todo fn d j)" using g by auto
    have "g \<in> set (fn j)" using in_set_dropD [OF j(2) [unfolded todo_def]] .
    then show ?thesis using assms(1,2) j(1) nth_mem [OF assms(4)] unfolding commuting_def by (metis less_trans less_irrefl)
  qed
  then have "perform ?A ((fn i ! k) c) = (fn i ! k) (perform ?A c)" by (intro perform_commute) blast
  then show ?thesis unfolding split map_append list.map same concat_append concat.simps i perform_append append_Cons perform.simps by simp
qed

lemma run_threads_serial:
  assumes "run_threads lib fn n set_len ctx s" "pthread_works lib" "commuting fn n"
  shows "perform (concat (map (todo fn (done_of s)) [0..<n])) (shared s) = perform (concat (map fn [0..<n])) ctx"
  using assms
proof (induction rule: run_threads.induct)
  case start
  have "todo fn Map.empty = fn" by (simp add: fun_eq_iff todo_def)
  then show ?case by (simp add: run_init_def)
next
  case (step s t)
  have inv: "run_inv fn n set_len s" using run_threads_inv [OF step.hyps(1) assms(2)] .
  note IH = step.IH [OF assms(2,3)]
  from step.hyps(2) show ?case
  proof (cases rule: rstep.cases)
    case (created i)
    have "done_of s i = None" using created inv by (auto simp: run_inv_def dom_def)
    then have "todo fn ((done_of s)(i \<mapsto> 0)) = todo fn (done_of s)" by (auto simp: fun_eq_iff todo_def)
    then show ?thesis using IH created by (simp del: fun_upd_apply)
  next
    case (run_thread_shim i k)
    have "i < n" using run_thread_shim inv by (auto simp: run_inv_def)
    then show ?thesis using IH todo_step [OF assms(3), of i "done_of s" k "shared s"] run_thread_shim by (simp del: fun_upd_apply)
  qed (use IH in simp_all)
qed

text \<open>
  C29: Running threads. If the thread library works, the call never gets stuck and every step brings it closer to its end, so it
  returns in every interleaving. When it has returned, exactly the threads \<open>0, \<dots>, n - 1\<close> have run, each to its end and
  on processor \<open>i mod set_len\<close>; and if actions of different threads commute, the result is that of running the threads one after the
  other.
\<close>

theorem run_threads_returns:
  assumes "run_threads_size count1 count2 n0 = Some (n, set_len)" "run_threads lib fn n set_len ctx s" "pthread_works lib"
  shows "2 \<le> n \<and> (n0 = 0 \<longrightarrow> int n = count1 mod 2 ^ 64) \<and> (pc s \<noteq> Returned \<longrightarrow> (\<exists>t. rstep lib fn n set_len s t)) \<and>
    (\<forall>t. rstep lib fn n set_len s t \<longrightarrow> run_left fn n t < run_left fn n s) \<and>
    (pc s = Returned \<longrightarrow>
      done_of s = (\<lambda>i. if i < n then Some (length (fn i)) else None) \<and> (\<forall>i < n. affinity s i = {i mod set_len}) \<and>
      (commuting fn n \<longrightarrow> shared s = perform (concat (map fn [0..<n])) ctx))"
proof (intro conjI allI impI)
  note inv = run_threads_inv [OF assms(2,3)]
  show "2 \<le> n" using assms(1) by (auto simp: run_threads_size_def split: Option.bind_splits if_splits)
  show "int n = count1 mod 2 ^ 64" if "n0 = 0"
    using assms(1) that by (auto simp: run_threads_size_def cpus_def split: Option.bind_splits if_splits)
  show "\<exists>t. rstep lib fn n set_len s t" if "pc s \<noteq> Returned" using run_progress [OF assms(3) inv that] .
  show "run_left fn n t < run_left fn n s" if "rstep lib fn n set_len s t" for t using run_left_step [OF assms(3) that inv] .
  have dom: "i \<in> dom (done_of s) \<longleftrightarrow> i < n" if "pc s = Returned" for i using inv that by (simp add: run_inv_def)
  have fin: "i < n \<longrightarrow> done_of s i = Some (length (fn i)) \<and> affinity s i = {i mod set_len}" if "pc s = Returned" for i
    using inv that by (simp add: run_inv_def)
  show "done_of s = (\<lambda>i. if i < n then Some (length (fn i)) else None)" if "pc s = Returned"
    using dom [OF that] fin [OF that] by (fastforce simp: fun_eq_iff)
  show "affinity s i = {i mod set_len}" if "pc s = Returned" "i < n" for i using fin that by blast
  show "shared s = perform (concat (map fn [0..<n])) ctx" if "pc s = Returned" "commuting fn n"
  proof -
    have "todo fn (done_of s) i = []" if "i < n" for i using fin [OF \<open>pc s = Returned\<close>, of i] that by (simp add: todo_def)
    then have e: "concat (map (todo fn (done_of s)) [0..<n]) = []" by simp
    show ?thesis using run_threads_serial [OF assms(2,3) that(2)] unfolding e by simp
  qed
qed

text \<open>A call with two threads that each add to a number, and the state it reaches when they have run.\<close>

definition works :: pthread where
  "works = \<lparr>attr_init = \<lambda>_. 0, create = \<lambda>_. 0, attr_destroy = \<lambda>_. 0, join = \<lambda>_. 0\<rparr>"

definition adders :: "nat \<Rightarrow> (nat \<Rightarrow> nat) list" where
  "adders i = (if i < 2 then [\<lambda>c. c + Suc i] else [])"

lemma works_works: "pthread_works works"
  by (simp add: pthread_works_def works_def)

lemma returned_reachable:
  assumes "run_threads lib fn n set_len ctx s" "pthread_works lib"
  shows "\<exists>t. run_threads lib fn n set_len ctx t \<and> pc t = Returned"
  using assms
proof (induction "run_left fn n s" arbitrary: s rule: less_induct)
  case less
  note inv = run_threads_inv [OF less.prems]
  show ?case
  proof (cases "pc s = Returned")
    case False
    then obtain t where t: "rstep lib fn n set_len s t" using run_progress [OF less.prems(2) inv] by blast
    show ?thesis using less.hyps [OF run_left_step [OF less.prems(2) t inv]] run_threads.step [OF less.prems(1) t] less.prems(2) by blast
  qed (use less.prems in blast)
qed

theorem run_threads_returns_witness:
  "\<exists>s. run_threads works adders 2 8 5 s \<and> pc s = Returned \<and> done_of s 1 = Some 1 \<and> done_of s 2 = None \<and> affinity s 1 = {1} \<and> shared s = 8"
proof -
  obtain s where s: "run_threads works adders 2 8 5 s" "pc s = Returned"
    using returned_reachable [OF run_threads.start works_works, of adders 2 8 5] by auto
  have "run_threads_size 8 8 2 = Some (2, 8)" by (simp add: run_threads_size_def cpus_def)
  moreover have "commuting adders 2" by (auto simp: commuting_def adders_def fun_eq_iff split: if_splits)
  ultimately show ?thesis
    using run_threads_returns [of 8 8 2 2 8 works adders 5 s] s works_works by (auto simp: adders_def upt_rec)
qed

text \<open>
  A join that fails is not noticed: it returns the number of an error, never -1. If every join fails, the call returns before any
  thread has run.
\<close>

theorem join_failure_missed:
  "\<exists>s. run_threads (works\<lparr>join := \<lambda>_. 35\<rparr>) adders 2 8 5 s \<and> pc s = Returned \<and> done_of s 0 = Some 0 \<and> done_of s 1 = Some 0 \<and> shared s = 5"
proof -
  let ?lib = "works\<lparr>join := \<lambda>_. 35\<rparr>" and ?R = "run_threads (works\<lparr>join := \<lambda>_. 35\<rparr>) adders 2 8 5"
  let ?s = "\<lambda>p k. \<lparr>pc = p, done_of = (\<lambda>i. if i < k then Some 0 else None), affinity = (\<lambda>i. if i < k then {i mod 8} else {}), shared = 5\<rparr>"
  have step: "?R s \<Longrightarrow> rstep ?lib adders 2 8 s t \<Longrightarrow> t = u \<Longrightarrow> ?R u" for s t u
    by (simp add: run_threads.step [of ?lib adders 2 8 5 s])
  have "?R (?s (Creating 0) 0)" using run_threads.start [of ?lib adders 2 8 5] by (simp add: run_init_def fun_eq_iff)
  then have "?R (?s (Creating 1) 1)" by (rule step [OF _ rstep.created [of _ 0]]) (auto simp: works_def fun_eq_iff)
  then have "?R (?s (Creating 2) 2)" by (rule step [OF _ rstep.created [of _ 1]]) (auto simp: works_def fun_eq_iff)
  then have "?R (?s (Joining 0) 2)" by (rule step [OF _ rstep.all_created]) (auto simp: works_def fun_eq_iff)
  then have "?R (?s (Joining 1) 2)" by (rule step [OF _ rstep.not_joined [of _ 0]]) (auto simp: works_def fun_eq_iff)
  then have "?R (?s (Joining 2) 2)" by (rule step [OF _ rstep.not_joined [of _ 1]]) (auto simp: works_def fun_eq_iff)
  then have "?R (?s Returned 2)" by (rule step [OF _ rstep.all_joined]) (auto simp: works_def fun_eq_iff)
  then show ?thesis by (intro exI [of _ "?s Returned 2"]) simp
qed

end
