(* ===== verification/Blocks.thy ===== *)
theory Blocks
  imports Prelude "HOL-Library.Multiset"
begin

text \<open>
  The heap of the process, as far as \<^verbatim>\<open>malloc\<close> and \<^verbatim>\<open>free\<close> see it: which blocks are allocated. A block is a
  number that is never given out again, so that a second free of it is seen. \<open>None\<close> means that a block is freed that is not
  allocated. What the blocks hold is in the structures that own them.
\<close>

section \<open>Allocating and freeing\<close>

type_synonym block = nat

record procheap =
  hlive :: "block multiset"
  hnext :: nat

definition halloc :: "procheap \<Rightarrow> block \<times> procheap" where
  "halloc h = (hnext h, h\<lparr>hlive := add_mset (hnext h) (hlive h), hnext := hnext h + 1\<rparr>)"

text \<open>The null pointer may be freed.\<close>

definition hfree :: "block option \<Rightarrow> procheap \<Rightarrow> procheap option" where
  "hfree p h =
     (case p of
        None \<Rightarrow> Some h
      | Some b \<Rightarrow> if b \<in># hlive h then Some (h\<lparr>hlive := hlive h - {#b#}\<rparr>) else None)"

definition hrealloc :: "block option \<Rightarrow> procheap \<Rightarrow> (block \<times> procheap) option" where
  "hrealloc p h = map_option halloc (hfree p h)"

text \<open>Every allocated block has one name, below the next one.\<close>

definition heap_inv :: "procheap \<Rightarrow> bool" where
  "heap_inv h \<longleftrightarrow> (\<forall>b \<in># hlive h. b < hnext h) \<and> (\<forall>b. count (hlive h) b \<le> 1)"

lemma halloc_inv: "heap_inv h \<Longrightarrow> heap_inv (snd (halloc h))"
  by (fastforce simp: heap_inv_def halloc_def count_eq_zero_iff)

lemma hfree_inv: "heap_inv h \<Longrightarrow> hfree p h = Some h' \<Longrightarrow> heap_inv h'"
  by (fastforce simp: heap_inv_def hfree_def dest: in_diffD split: option.splits if_splits)

lemma halloc_live [simp]: "hlive (snd (halloc h)) = add_mset (fst (halloc h)) (hlive h)"
  by (simp add: halloc_def)

lemma halloc_fresh: "heap_inv h \<Longrightarrow> fst (halloc h) \<notin># hlive h"
  by (auto simp: heap_inv_def halloc_def)

section \<open>Freeing a list of blocks\<close>

fun free_all :: "block list \<Rightarrow> procheap \<Rightarrow> procheap option" where
  "free_all [] h = Some h"
| "free_all (b # bs) h = (if b \<in># hlive h then free_all bs (h\<lparr>hlive := hlive h - {#b#}\<rparr>) else None)"

definition option_block :: "block option \<Rightarrow> block list" where
  "option_block p = (case p of None \<Rightarrow> [] | Some b \<Rightarrow> [b])"

lemma option_block_simps [simp]: "option_block None = []" "option_block (Some b) = [b]"
  by (simp_all add: option_block_def)

lemma hfree_free_all: "hfree p = free_all (option_block p)"
  by (cases p) (auto simp: fun_eq_iff hfree_def option_block_def)

lemma free_all_append: "free_all (bs @ cs) h = Option.bind (free_all bs h) (free_all cs)"
  by (induction bs arbitrary: h) auto

lemma free_all_owned: "hlive h = F + mset bs \<Longrightarrow> free_all bs h = Some (h\<lparr>hlive := F\<rparr>)"
  by (induction bs arbitrary: h) auto

lemma hrealloc_owned:
  assumes "hlive h = F + mset (option_block p)"
  obtains b h' where "hrealloc p h = Some (b, h')" "hlive h' = F + {#b#}"
proof -
  have "hfree p h = Some (h\<lparr>hlive := F\<rparr>)" unfolding hfree_free_all using assms by (rule free_all_owned)
  then show thesis using that by (simp add: hrealloc_def halloc_def)
qed

text \<open>To show that a function frees a list: replace its frees by lists and join them.\<close>

lemmas frees = hfree_free_all free_all_append [symmetric] option_block_simps append_Cons append_Nil append_Nil2 append_assoc

text \<open>A free of a block that the list has twice, or that is not allocated, is not defined.\<close>

lemma free_all_Some: "free_all bs h = Some h' \<Longrightarrow> hlive h = hlive h' + mset bs"
proof (induction bs arbitrary: h)
  case (Cons b bs)
  then have b: "b \<in># hlive h" and f: "free_all bs (h\<lparr>hlive := hlive h - {#b#}\<rparr>) = Some h'" by (simp_all split: if_splits)
  have "hlive h - {#b#} = hlive h' + mset bs" using Cons.IH [OF f] by simp
  then show ?case using b by (metis insert_DiffM mset.simps(2) union_mset_add_mset_right)
qed simp

section \<open>Structures that own blocks\<close>

text \<open>
  A structure that has a function which frees it: the blocks it owns are those that the function frees. Then it can be freed
  whenever its blocks are allocated, this frees nothing else, and it cannot be freed twice.
\<close>

locale disposable =
  fixes dispose :: "'a \<Rightarrow> procheap \<Rightarrow> procheap option"
    and blocks :: "'a \<Rightarrow> block list"
  assumes dispose_frees: "dispose x h = free_all (blocks x) h"
begin

lemma dispose_owned: "hlive h = F + mset (blocks x) \<Longrightarrow> dispose x h = Some (h\<lparr>hlive := F\<rparr>)"
  by (simp add: dispose_frees free_all_owned)

lemma dispose_twice:
  assumes "heap_inv h" "dispose x h = Some h'" "blocks x \<noteq> []"
  shows "dispose x h' = None"
proof (rule ccontr)
  assume "dispose x h' \<noteq> None"
  then obtain h'' where h'': "dispose x h' = Some h''" by blast
  obtain b where b: "b \<in> set (blocks x)" using assms(3) by (cases "blocks x") auto
  have "hlive h = hlive h'' + mset (blocks x) + mset (blocks x)"
    using free_all_Some [of "blocks x"] assms(2) h'' by (simp add: dispose_frees)
  then have "2 * count (mset (blocks x)) b \<le> count (hlive h) b" by simp
  moreover have "0 < count (mset (blocks x)) b" using b by simp
  ultimately have "2 \<le> count (hlive h) b" by linarith
  moreover have "count (hlive h) b \<le> 1" using assms(1) by (simp add: heap_inv_def)
  ultimately show False by simp
qed

end

end
