(* ===== verification/Crest_Mem.thy ===== *)
theory Crest_Mem
  imports Crest Blocks
begin

text \<open>
  The memory of the REST server, \<^verbatim>\<open>src/utils/crest\<close>: paths, routers and the server with the blocks they own, from
  \<^verbatim>\<open>malloc\<close> to \<^verbatim>\<open>free\<close>. Forgetting the blocks gives the structures of \<open>Router\<close> and \<open>Crest\<close>, and the operations
  agree with those there. Allocations succeed here; a failure is an abort at the point of the allocation. \<open>None\<close> means that a
  block is freed that is not allocated, or that the array of a router is written outside its capacity.
\<close>

section \<open>Paths\<close>

record mpath =
  self_block :: block
  raw_block :: block
  items_block :: "block option"
  path_of :: path

text \<open>There is no array of items if there are no items.\<close>

definition path_new_mem :: "string \<Rightarrow> procheap \<Rightarrow> mpath \<times> procheap" where
  "path_new_mem raw h =
     (let (p, h1) = halloc h;
          (r, h2) = halloc h1;
          path = path_new raw;
          (items, h3) = (if pn path \<noteq> 0 then map_prod Some id (halloc h2) else (None, h2))
      in (\<lparr>self_block = p, raw_block = r, items_block = items, path_of = path\<rparr>, h3))"

definition path_free :: "mpath \<Rightarrow> procheap \<Rightarrow> procheap option" where
  "path_free path h =
     Option.bind (hfree (items_block path) h) (\<lambda>h1.
       Option.bind (hfree (Some (raw_block path)) h1) (\<lambda>h2.
         hfree (Some (self_block path)) h2))"

definition path_blocks :: "mpath \<Rightarrow> block list" where
  "path_blocks path = option_block (items_block path) @ [raw_block path, self_block path]"

lemma path_free_frees: "path_free path h = free_all (path_blocks path) h"
  by (simp only: path_free_def path_blocks_def frees)

interpretation paths: disposable path_free path_blocks
  by unfold_locales (rule path_free_frees)

lemma path_new_mem_live: "path_new_mem raw h = (p, h') \<Longrightarrow> hlive h' = hlive h + mset (path_blocks p) \<and> path_of p = path_new raw"
  by (auto simp: path_new_mem_def path_blocks_def halloc_def Let_def split: prod.splits if_splits)

section \<open>Routers\<close>

text \<open>
  Resources, the router of the wildcard and the texts of the constants are blocks; the routers of the constants are inside the array,
  which has its capacity. The length is that of the list of entries in use.
\<close>

datatype 'r mrouter = Mrouter
  (mstar: "(block \<times> 'r) option")
  (mexact: "(block \<times> 'r) option")
  (mwildcards: "(block \<times> 'r mrouter) option")
  (rcap: nat)
  (rarray: "block option")
  (mconsts: "(block \<times> string \<times> 'r mrouter) list")

definition zero_mrouter :: "'r mrouter" where
  "zero_mrouter = Mrouter None None None 0 None []"

definition size_wild :: "(block \<times> 'r mrouter) option \<Rightarrow> nat" where
  "size_wild = size_option (size_prod (\<lambda>_. 0) size)"

definition size_consts :: "(block \<times> string \<times> 'r mrouter) list \<Rightarrow> nat" where
  "size_consts = size_list (size_prod (\<lambda>_. 0) (size_prod (\<lambda>_. 0) size))"

function (sequential) router_free :: "'r mrouter \<Rightarrow> procheap \<Rightarrow> procheap option"
  and wildcards_free :: "(block \<times> 'r mrouter) option \<Rightarrow> procheap \<Rightarrow> procheap option"
  and consts_free :: "(block \<times> string \<times> 'r mrouter) list \<Rightarrow> procheap \<Rightarrow> procheap option" where
  "router_free (Mrouter st ex w cap arr cs) h =
     Option.bind (hfree (map_option fst st) h) (\<lambda>h1.
       Option.bind (hfree (map_option fst ex) h1) (\<lambda>h2.
         Option.bind (wildcards_free w h2) (\<lambda>h3.
           Option.bind (consts_free cs h3) (\<lambda>h4. hfree arr h4))))"
| "wildcards_free None h = Some h"
| "wildcards_free (Some (b, sub)) h = Option.bind (router_free sub h) (\<lambda>h1. hfree (Some b) h1)"
| "consts_free [] h = Some h"
| "consts_free ((v, key, sub) # cs) h =
     Option.bind (hfree (Some v) h) (\<lambda>h1. Option.bind (router_free sub h1) (\<lambda>h2. consts_free cs h2))"
  by pat_completeness auto
termination by (relation "measure (case_sum (\<lambda>(r, h). size r) (case_sum (\<lambda>(w, h). size_wild w) (\<lambda>(cs, h). size_consts cs)))") (auto simp: size_wild_def size_consts_def)

text \<open>The array grows when it is full; the new entry has an empty router.\<close>

definition router_append_mem ::
  "nat \<Rightarrow> block option \<Rightarrow> (block \<times> string \<times> 'r mrouter) list \<Rightarrow> string \<Rightarrow> procheap \<Rightarrow>
     (nat \<times> block option \<times> (block \<times> string \<times> 'r mrouter) list \<times> procheap) option" where
  "router_append_mem cap arr cs key h =
     Option.bind
       (if length cs = cap
        then map_option (\<lambda>(a, h1). (if cap \<noteq> 0 then umul cap 2 else 1, Some a, h1)) (hrealloc arr h)
        else Some (cap, arr, h)) (\<lambda>(cap1, arr1, h1).
       if length cs < cap1
       then (case halloc h1 of (v, h2) \<Rightarrow> Some (cap1, arr1, cs @ [(v, key, zero_mrouter)], h2))
       else None)"

text \<open>The resource to add comes with its block.\<close>

function router_add_mem :: "'r mrouter \<Rightarrow> path \<Rightarrow> block \<times> 'r \<Rightarrow> procheap \<Rightarrow> (bool \<times> 'r mrouter \<times> procheap) option" where
  "router_add_mem (Mrouter st ex w cap arr cs) path res h =
     (let head = the (path_head path) in
      if path_empty path then
        (if ex \<noteq> None then Some (False, Mrouter st ex w cap arr cs, h) else Some (True, Mrouter st (Some res) w cap arr cs, h))
      else if path_token_type head = token_star then
        (if st \<noteq> None then Some (False, Mrouter st ex w cap arr cs, h) else Some (True, Mrouter (Some res) ex w cap arr cs, h))
      else
        (let tail = path_tail path in
         if path_token_type head = token_wildcard then
           (case (case w of None \<Rightarrow> (case halloc h of (b, h1) \<Rightarrow> ((b, zero_mrouter), h1)) | Some w' \<Rightarrow> (w', h)) of ((b, sub), h1) \<Rightarrow>
              map_option (\<lambda>(ret, sub', h2). (ret, Mrouter st ex (Some (b, sub')) cap arr cs, h2)) (router_add_mem sub tail res h1))
         else
           (case find_const (map snd cs) head 0 of
              Some i \<Rightarrow>
                map_option (\<lambda>(ret, sub', h1). (ret, Mrouter st ex w cap arr (cs[i := (fst (cs ! i), fst (snd (cs ! i)), sub')]), h1))
                  (router_add_mem (snd (snd (cs ! i))) tail res h)
            | None \<Rightarrow>
                Option.bind (router_append_mem cap arr cs head h) (\<lambda>(cap1, arr1, cs1, h1).
                  let i = length cs1 - 1 in
                  map_option (\<lambda>(ret, sub', h2). (ret, Mrouter st ex w cap1 arr1 (cs1[i := (fst (cs1 ! i), fst (snd (cs1 ! i)), sub')]), h2))
                    (router_add_mem (snd (snd (cs1 ! i))) tail res h1)))))"
  by pat_completeness auto
termination router_add_mem
  by (relation "measure (\<lambda>(r, p, res, h). if pi p \<le> pn p then pn p - pi p else 1)") (simp_all add: path_tail_less)

declare router_add_mem.simps [simp del]

text \<open>The blocks of a router, in the order in which they are freed; the router without its blocks; and the bounds of its arrays.\<close>

function (sequential) router_blocks :: "'r mrouter \<Rightarrow> block list"
  and wildcards_blocks :: "(block \<times> 'r mrouter) option \<Rightarrow> block list"
  and consts_blocks :: "(block \<times> string \<times> 'r mrouter) list \<Rightarrow> block list" where
  "router_blocks (Mrouter st ex w cap arr cs) =
     option_block (map_option fst st) @ option_block (map_option fst ex) @ wildcards_blocks w @ consts_blocks cs @ option_block arr"
| "wildcards_blocks None = []"
| "wildcards_blocks (Some (b, sub)) = router_blocks sub @ [b]"
| "consts_blocks [] = []"
| "consts_blocks ((v, key, sub) # cs) = v # router_blocks sub @ consts_blocks cs"
  by pat_completeness auto
termination by (relation "measure (case_sum size (case_sum size_wild size_consts))") (auto simp: size_wild_def size_consts_def)

function (sequential) forget :: "'r mrouter \<Rightarrow> 'r router"
  and forget_wild :: "(block \<times> 'r mrouter) option \<Rightarrow> 'r router option"
  and forget_consts :: "(block \<times> string \<times> 'r mrouter) list \<Rightarrow> (string \<times> 'r router) list" where
  "forget (Mrouter st ex w cap arr cs) = Router (map_option snd st) (map_option snd ex) (forget_wild w) (forget_consts cs)"
| "forget_wild None = None"
| "forget_wild (Some (b, sub)) = Some (forget sub)"
| "forget_consts [] = []"
| "forget_consts ((v, key, sub) # cs) = (key, forget sub) # forget_consts cs"
  by pat_completeness auto
termination by (relation "measure (case_sum size (case_sum size_wild size_consts))") (auto simp: size_wild_def size_consts_def)

function (sequential) fits :: "nat \<Rightarrow> 'r mrouter \<Rightarrow> bool"
  and wild_fits :: "nat \<Rightarrow> (block \<times> 'r mrouter) option \<Rightarrow> bool"
  and consts_fit :: "nat \<Rightarrow> (block \<times> string \<times> 'r mrouter) list \<Rightarrow> bool" where
  "fits n (Mrouter st ex w cap arr cs) \<longleftrightarrow>
     length cs \<le> cap \<and> cap \<le> 2 * length cs \<and> length cs \<le> n \<and> wild_fits n w \<and> consts_fit n cs"
| "wild_fits n None \<longleftrightarrow> True"
| "wild_fits n (Some (b, sub)) \<longleftrightarrow> fits n sub"
| "consts_fit n [] \<longleftrightarrow> True"
| "consts_fit n ((v, key, sub) # cs) \<longleftrightarrow> fits n sub \<and> consts_fit n cs"
  by pat_completeness auto
termination by (relation "measure (case_sum (\<lambda>(n, r). size r) (case_sum (\<lambda>(n, w). size_wild w) (\<lambda>(n, cs). size_consts cs)))") (auto simp: size_wild_def size_consts_def)

lemma router_free_frees:
  fixes r :: "'r mrouter" and w :: "(block \<times> 'r mrouter) option" and cs :: "(block \<times> string \<times> 'r mrouter) list"
  shows "router_free r = free_all (router_blocks r)"
    and "wildcards_free w = free_all (wildcards_blocks w)"
    and "consts_free cs = free_all (consts_blocks cs)"
  by (induction r and w and cs rule: router_blocks_wildcards_blocks_consts_blocks.induct)
    (rule ext, simp only: router_free.simps wildcards_free.simps consts_free.simps router_blocks.simps
      wildcards_blocks.simps consts_blocks.simps frees free_all.simps(1))+

interpretation routers: disposable router_free router_blocks
  by unfold_locales (simp add: router_free_frees)

lemma fits_mono:
  fixes r :: "'r mrouter" and w :: "(block \<times> 'r mrouter) option" and cs :: "(block \<times> string \<times> 'r mrouter) list"
  shows "fits n r \<Longrightarrow> n \<le> m \<Longrightarrow> fits m r"
    and "wild_fits n w \<Longrightarrow> n \<le> m \<Longrightarrow> wild_fits m w"
    and "consts_fit n cs \<Longrightarrow> n \<le> m \<Longrightarrow> consts_fit m cs"
  by (induction n r and n w and n cs rule: fits_wild_fits_consts_fit.induct) auto

text \<open>The entries of the array, one by one.\<close>

lemma forget_consts_map: "forget_consts cs = map (\<lambda>(v, key, sub). (key, forget sub)) cs"
  by (induction cs) auto

lemma consts_fit_all: "consts_fit n cs \<longleftrightarrow> (\<forall>(v, key, sub) \<in> set cs. fits n sub)"
  by (induction cs) auto

lemma consts_blocks_append: "consts_blocks (cs @ ds) = consts_blocks cs @ consts_blocks ds"
  by (induction cs) auto

lemma consts_blocks_update:
  assumes "i < length cs" "cs ! i = (v, key, sub)"
  obtains others where "mset (consts_blocks cs) = others + mset (router_blocks sub)"
    "\<And>sub'. mset (consts_blocks (cs[i := (v, key, sub')])) = others + mset (router_blocks sub')"
proof -
  have c: "cs = take i cs @ (v, key, sub) # drop (Suc i) cs" using id_take_nth_drop [OF assms(1)] unfolding assms(2) .
  have u: "cs[i := (v, key, sub')] = take i cs @ (v, key, sub') # drop (Suc i) cs" for sub'
    by (rule upd_conv_take_nth_drop [OF assms(1)])
  let ?o = "mset (consts_blocks (take i cs)) + {#v#} + mset (consts_blocks (drop (Suc i) cs))"
  have "mset (consts_blocks cs) = mset (consts_blocks (take i cs @ (v, key, sub) # drop (Suc i) cs))" using c by simp
  also have "\<dots> = ?o + mset (router_blocks sub)" by (simp add: consts_blocks_append)
  finally have "mset (consts_blocks cs) = ?o + mset (router_blocks sub)" .
  moreover have "mset (consts_blocks (cs[i := (v, key, sub')])) = ?o + mset (router_blocks sub')" for sub'
    by (simp add: u consts_blocks_append)
  ultimately show thesis by (rule that)
qed

lemma find_const_forget: "find_const (forget_consts cs) key i = find_const (map snd cs) key i"
  by (induction cs arbitrary: i) auto

text \<open>
  Adding keeps track of every block: nothing is freed twice, the array is written inside its capacity, what is allocated
  afterwards is what the new router owns, and the block of the resource is the router's exactly if it was added. Without the blocks it is
  the operation of \<open>Router\<close>. \<open>F\<close> are the blocks of everybody else.
\<close>

definition adds_well :: "nat \<Rightarrow> 'r mrouter \<Rightarrow> path \<Rightarrow> block \<times> 'r \<Rightarrow> block multiset \<Rightarrow> procheap \<Rightarrow> bool" where
  "adds_well n r p res F h \<longleftrightarrow>
     (\<exists>ret r' h'. router_add_mem r p res h = Some (ret, r', h') \<and> router_add (forget r) p (snd res) = (ret, forget r') \<and>
        hlive h' + (if ret then {#fst res#} else {#}) = F + mset (router_blocks r') \<and> fits (n + 1) r')"

lemma router_append_mem_owned:
  assumes "hlive h = F + mset (option_block arr)" "length cs \<le> cap" "cap \<le> 2 * length cs" "length cs < 2 ^ 62"
  obtains cap' a v h' where
    "router_append_mem cap arr cs key h = Some (cap', a, cs @ [(v, key, zero_mrouter)], h')"
    "hlive h' = F + mset (option_block a) + {#v#}" "length cs + 1 \<le> cap'" "cap' \<le> 2 * (length cs + 1)"
proof (cases "length cs = cap")
  case True
  obtain b h1 where h1: "hrealloc arr h = Some (b, h1)" "hlive h1 = F + {#b#}" using hrealloc_owned [OF assms(1)] .
  have "umul cap 2 = cap * 2" using True assms(4) by (simp add: umul_def)
  then show thesis
    using that [of "if cap \<noteq> 0 then cap * 2 else 1" "Some b" "fst (halloc h1)" "snd (halloc h1)"] True h1
    by (auto simp: router_append_mem_def split_def)
next
  case False
  then show thesis
    using that [of cap arr "fst (halloc h)" "snd (halloc h)"] assms(1-3) by (simp add: router_append_mem_def split_def)
qed

lemma zero_mrouter_parts [simp]:
  "router_blocks zero_mrouter = []" "fits n zero_mrouter" "forget zero_mrouter = empty_router"
  by (simp_all add: zero_mrouter_def empty_router_def)

lemma adds_well_here:
  assumes "hlive h = F + mset (router_blocks r)" "fits n r"
    and "path_empty p \<or> path_token_type (the (path_head p)) = token_star"
  shows "adds_well n r p res F h"
proof -
  obtain st ex w cap arr cs where r: "r = Mrouter st ex w cap arr cs" by (cases r)
  have "wild_fits (Suc n) w" "consts_fit (Suc n) cs" using assms(2) fits_mono(2) [of n w "Suc n"] fits_mono(3) [of n cs "Suc n"] by (simp_all add: r)
  then show ?thesis using assms unfolding adds_well_def r
    by (cases "path_empty p"; cases ex; cases st) (auto simp: router_add_mem.simps router_add.simps)
qed

lemma adds_well_wild:
  assumes "hlive h = F + mset (router_blocks (Mrouter st ex w cap arr cs))" "fits n (Mrouter st ex w cap arr cs)"
    and "\<not> path_empty p" "path_token_type (the (path_head p)) = token_wildcard"
    and IH: "\<And>r F h. hlive h = F + mset (router_blocks r) \<Longrightarrow> fits n r \<Longrightarrow> adds_well n r (path_tail p) res F h"
  shows "adds_well n (Mrouter st ex w cap arr cs) p res F h"
proof -
  let ?others = "mset (router_blocks (Mrouter st ex None cap arr cs))"
  obtain b sub h1 where sub: "(case w of None \<Rightarrow> (case halloc h of (b, h1) \<Rightarrow> ((b, zero_mrouter), h1)) | Some w' \<Rightarrow> (w', h)) = ((b, sub), h1)"
    by (metis surj_pair)
  have own: "hlive h1 = F + ?others + {#b#} + mset (router_blocks sub)" and "fits n sub"
      and f: "forget sub = (case forget_wild w of None \<Rightarrow> empty_router | Some s \<Rightarrow> s)"
    using sub assms(1,2) by (auto simp: halloc_def split: option.splits)
  obtain ret sub' h' where sub': "router_add_mem sub (path_tail p) res h1 = Some (ret, sub', h')"
      "router_add (forget sub) (path_tail p) (snd res) = (ret, forget sub')"
      "hlive h' + (if ret then {#fst res#} else {#}) = F + ?others + {#b#} + mset (router_blocks sub')" "fits (n + 1) sub'"
    using IH [OF own \<open>fits n sub\<close>] by (auto simp: adds_well_def)
  have "consts_fit (n + 1) cs" using assms(2) fits_mono(3) [of n cs "n + 1"] by simp
  then have "fits (n + 1) (Mrouter st ex (Some (b, sub')) cap arr cs)" using assms(2) sub'(4) by simp
  moreover have "router_add_mem (Mrouter st ex w cap arr cs) p res h = Some (ret, Mrouter st ex (Some (b, sub')) cap arr cs, h')"
    using assms(3,4) sub'(1) by (simp add: router_add_mem.simps Let_def sub)
  moreover have "router_add (forget (Mrouter st ex w cap arr cs)) p (snd res) = (ret, forget (Mrouter st ex (Some (b, sub')) cap arr cs))"
    using assms(3,4) sub'(2) f by (simp add: router_add.simps Let_def)
  ultimately show ?thesis using sub'(3) unfolding adds_well_def by (intro exI conjI) (assumption | simp add: ac_simps)+
qed

lemma adds_well_old:
  assumes "hlive h = F + mset (router_blocks (Mrouter st ex w cap arr cs))" "fits n (Mrouter st ex w cap arr cs)"
    and "\<not> path_empty p" "path_token_type (the (path_head p)) = token_const"
    and "find_const (map snd cs) (the (path_head p)) 0 = Some i"
    and IH: "\<And>r F h. hlive h = F + mset (router_blocks r) \<Longrightarrow> fits n r \<Longrightarrow> adds_well n r (path_tail p) res F h"
  shows "adds_well n (Mrouter st ex w cap arr cs) p res F h"
proof -
  let ?others = "mset (router_blocks (Mrouter st ex w cap arr []))"
  obtain v key sub where c: "cs ! i = (v, key, sub)" by (metis surj_pair)
  have i: "i < length cs" using find_const_map(2) [OF assms(5)] by simp
  obtain os where os: "mset (consts_blocks cs) = os + mset (router_blocks sub)"
      "\<And>sub'. mset (consts_blocks (cs[i := (v, key, sub')])) = os + mset (router_blocks sub')"
    using consts_blocks_update [OF i c] by blast
  have own: "hlive h = F + ?others + os + mset (router_blocks sub)" using assms(1) os(1) by (simp add: ac_simps)
  have "fits n sub" using assms(2) nth_mem [OF i] unfolding c by (auto simp: consts_fit_all)
  then obtain ret sub' h' where sub': "router_add_mem sub (path_tail p) res h = Some (ret, sub', h')"
      "router_add (forget sub) (path_tail p) (snd res) = (ret, forget sub')"
      "hlive h' + (if ret then {#fst res#} else {#}) = F + ?others + os + mset (router_blocks sub')" "fits (n + 1) sub'"
    using IH [OF own] by (auto simp: adds_well_def)
  let ?cs = "cs[i := (v, key, sub')]"
  have "consts_fit (n + 1) cs" "wild_fits (n + 1) w" using assms(2) fits_mono(2) [of n w "n + 1"] fits_mono(3) [of n cs "n + 1"] by simp_all
  then have "consts_fit (n + 1) ?cs" using sub'(4) by (auto simp: consts_fit_all dest!: set_update_subset_insert [THEN subsetD])
  then have "fits (n + 1) (Mrouter st ex w cap arr ?cs)" using assms(2) \<open>wild_fits (n + 1) w\<close> by simp
  moreover have "router_add_mem (Mrouter st ex w cap arr cs) p res h = Some (ret, Mrouter st ex w cap arr ?cs, h')"
    using assms(3-5) sub'(1) c by (simp add: router_add_mem.simps Let_def)
  moreover have "router_add (forget (Mrouter st ex w cap arr cs)) p (snd res) = (ret, forget (Mrouter st ex w cap arr ?cs))"
    using assms(3-5) sub'(2) c i by (simp add: router_add.simps Let_def find_const_forget) (simp add: forget_consts_map map_update)
  ultimately show ?thesis using sub'(3) os(2) [of sub'] unfolding adds_well_def
    by (intro exI conjI) (assumption | simp add: ac_simps)+
qed

lemma adds_well_new:
  assumes "hlive h = F + mset (router_blocks (Mrouter st ex w cap arr cs))" "fits n (Mrouter st ex w cap arr cs)" "n < 2 ^ 62"
    and "\<not> path_empty p" "path_token_type (the (path_head p)) = token_const"
    and "find_const (map snd cs) (the (path_head p)) 0 = None"
    and IH: "\<And>r F h. hlive h = F + mset (router_blocks r) \<Longrightarrow> fits n r \<Longrightarrow> adds_well n r (path_tail p) res F h"
  shows "adds_well n (Mrouter st ex w cap arr cs) p res F h"
proof -
  let ?others = "mset (router_blocks (Mrouter st ex w cap None cs))" and ?key = "the (path_head p)"
  have "hlive h = F + ?others + mset (option_block arr)" using assms(1) by simp
  then obtain cap' a v h1 where ap: "router_append_mem cap arr cs ?key h = Some (cap', a, cs @ [(v, ?key, zero_mrouter)], h1)"
      "hlive h1 = F + ?others + mset (option_block a) + {#v#}" "length cs + 1 \<le> cap'" "cap' \<le> 2 * (length cs + 1)"
    by (rule router_append_mem_owned) (use assms(2,3) in auto)
  have own: "hlive h1 = F + ?others + mset (option_block a) + {#v#} + mset (router_blocks zero_mrouter)" using ap(2) by simp
  obtain ret sub' h' where sub': "router_add_mem zero_mrouter (path_tail p) res h1 = Some (ret, sub', h')"
      "router_add empty_router (path_tail p) (snd res) = (ret, forget sub')"
      "hlive h' + (if ret then {#fst res#} else {#}) = F + ?others + mset (option_block a) + {#v#} + mset (router_blocks sub')" "fits (n + 1) sub'"
    using IH [OF own] by (auto simp: adds_well_def)
  let ?cs = "cs @ [(v, ?key, sub')]"
  have "consts_fit (n + 1) cs" "wild_fits (n + 1) w" using assms(2) fits_mono(2) [of n w "n + 1"] fits_mono(3) [of n cs "n + 1"] by simp_all
  then have "fits (n + 1) (Mrouter st ex w cap' a ?cs)" using assms(2) ap(3,4) sub'(4) by (simp add: consts_fit_all)
  moreover have "router_add_mem (Mrouter st ex w cap arr cs) p res h = Some (ret, Mrouter st ex w cap' a ?cs, h')"
    using assms(4-6) sub'(1) by (simp add: router_add_mem.simps Let_def ap(1))
  moreover have "router_add (forget (Mrouter st ex w cap arr cs)) p (snd res) = (ret, forget (Mrouter st ex w cap' a ?cs))"
    using assms(4-6) sub'(2)
    by (simp add: router_add.simps Let_def find_const_forget router_append_def) (simp add: forget_consts_map)
  ultimately show ?thesis using sub'(3) unfolding adds_well_def
    by (intro exI conjI) (assumption | simp add: consts_blocks_append ac_simps)+
qed

lemma router_add_mem_well:
  assumes "hlive h = F + mset (router_blocks r)" "fits n r" "n < 2 ^ 62"
  shows "adds_well n r p res F h"
  using assms
proof (induction "if pi p \<le> pn p then pn p - pi p else 1" arbitrary: r p F h rule: less_induct)
  case less
  obtain st ex w cap arr cs where r: "r = Mrouter st ex w cap arr cs" by (cases r)
  show ?case
  proof (cases "path_empty p \<or> path_token_type (the (path_head p)) = token_star")
    case True
    then show ?thesis using adds_well_here [OF less.prems(1,2)] by blast
  next
    case False
    then have ne: "\<not> path_empty p" by blast
    have IH: "hlive h = F + mset (router_blocks r) \<Longrightarrow> fits n r \<Longrightarrow> adds_well n r (path_tail p) res F h" for r :: "'a mrouter" and F h
      using less.hyps [OF path_tail_less [OF ne]] assms(3) by blast
    note own = less.prems(1,2) [unfolded r]
    show ?thesis
    proof (cases "path_token_type (the (path_head p))")
      case token_wildcard
      then show ?thesis unfolding r using adds_well_wild [OF own ne _ IH] by blast
    next
      case token_const
      then show ?thesis unfolding r using adds_well_old [OF own ne _ _ IH] adds_well_new [OF own assms(3) ne _ _ IH] by blast
    qed (use False in simp)
  qed
qed

section \<open>The server\<close>

record 'w mcrest =
  crest_block :: block
  mrouter :: "'w crest_res mrouter"
  mstarted :: bool

definition crest_new_mem :: "procheap \<Rightarrow> 'w mcrest \<times> procheap" where
  "crest_new_mem h = (case halloc h of (b, h1) \<Rightarrow> (\<lparr>crest_block = b, mrouter = zero_mrouter, mstarted = False\<rparr>, h1))"

definition crest_bind_mem :: "bool \<Rightarrow> 'w mcrest \<Rightarrow> bool \<times> 'w mcrest" where
  "crest_bind_mem daemon crest = (if \<not> daemon then (False, crest) else (True, crest\<lparr>mstarted := True\<rparr>))"

definition crest_add_mem :: "'w mcrest \<Rightarrow> 'w crest_res \<Rightarrow> procheap \<Rightarrow> (bool \<times> 'w mcrest \<times> procheap) option" where
  "crest_add_mem crest raw_res h =
     (if mstarted crest then Some (False, crest, h)
      else
        (case halloc h of (res, h1) \<Rightarrow>
           (case path_new_mem (res_path raw_res) h1 of (path, h2) \<Rightarrow>
              Option.bind (router_add_mem (mrouter crest) (path_of path) (res, raw_res) h2) (\<lambda>(ret, router, h3).
                Option.bind (path_free path h3) (\<lambda>h4.
                  Option.bind (if \<not> ret then hfree (Some res) h4 else Some h4) (\<lambda>h5.
                    Some (ret, crest\<lparr>mrouter := router\<rparr>, h5)))))))"

text \<open>The flag says that the daemon of the HTTP library is stopped.\<close>

definition crest_free :: "'w mcrest \<Rightarrow> procheap \<Rightarrow> (bool \<times> procheap) option" where
  "crest_free crest h =
     (let stopped = mstarted crest in
      Option.bind (router_free (mrouter crest) h) (\<lambda>h1.
        map_option (Pair stopped) (hfree (Some (crest_block crest)) h1)))"

definition crest_blocks :: "'w mcrest \<Rightarrow> block list" where
  "crest_blocks crest = router_blocks (mrouter crest) @ [crest_block crest]"

definition forget_crest :: "'w mcrest \<Rightarrow> 'w crest" where
  "forget_crest crest = \<lparr>crouter = forget (mrouter crest), started = mstarted crest\<rparr>"

lemma crest_free_frees: "map_option snd (crest_free crest h) = free_all (crest_blocks crest) h"
proof -
  have "free_all (crest_blocks crest) h = Option.bind (router_free (mrouter crest) h) (hfree (Some (crest_block crest)))"
    by (simp only: crest_blocks_def router_free_frees frees)
  then show ?thesis by (auto simp: crest_free_def Let_def map_conv_bind_option option.map_comp split: Option.bind_split)
qed

interpretation crests: disposable "\<lambda>crest h. map_option snd (crest_free crest h)" crest_blocks
  by unfold_locales (rule crest_free_frees)

text \<open>Adding a resource: the temporary path is freed, and the copy of the resource too if it is refused.\<close>

lemma crest_add_mem_owned:
  assumes "hlive h = F + mset (crest_blocks c)" "fits n (mrouter c)" "n < 2 ^ 62"
  obtains ret c' h' where "crest_add_mem c res h = Some (ret, c', h')" "crest_add (forget_crest c) res = (ret, forget_crest c')"
    "hlive h' = F + mset (crest_blocks c')" "fits (n + 1) (mrouter c')" "mstarted c' = mstarted c"
proof (cases "mstarted c")
  case True
  then show thesis using that [of False c h] assms fits_mono(1) [of n "mrouter c" "n + 1"] by (simp add: crest_add_mem_def crest_add_def forget_crest_def)
next
  case False
  obtain b h1 where h1: "halloc h = (b, h1)" "hlive h1 = add_mset b (hlive h)" by (metis halloc_live prod.collapse)
  obtain p h2 where h2: "path_new_mem (res_path res) h1 = (p, h2)" by (metis surj_pair)
  note P = path_new_mem_live [OF h2]
  let ?F = "F + {#crest_block c#} + {#b#} + mset (path_blocks p)"
  have "hlive h2 = ?F + mset (router_blocks (mrouter c))" using assms(1) h1(2) P by (simp add: crest_blocks_def)
  from router_add_mem_well [OF this assms(2,3), of "path_of p" "(b, res)"] obtain ret r' h3 where
    r': "router_add_mem (mrouter c) (path_of p) (b, res) h2 = Some (ret, r', h3)" "router_add (forget (mrouter c)) (path_of p) res = (ret, forget r')"
      "hlive h3 + (if ret then {#b#} else {#}) = ?F + mset (router_blocks r')" "fits (n + 1) r'"
    unfolding adds_well_def fst_conv snd_conv by blast
  let ?G = "F + {#crest_block c#} + mset (router_blocks r') + (if ret then {#} else {#b#})"
  have "hlive h3 = ?G + mset (path_blocks p)" using r'(3) by (simp split: if_splits)
  note h4 = paths.dispose_owned [OF this]
  have "crest_add_mem c res h = Some (ret, c\<lparr>mrouter := r'\<rparr>, h3\<lparr>hlive := F + {#crest_block c#} + mset (router_blocks r')\<rparr>)"
    using False h1(1) h2 r'(1) h4 by (simp add: crest_add_mem_def hfree_def)
  moreover have "crest_add (forget_crest c) res = (ret, forget_crest (c\<lparr>mrouter := r'\<rparr>))"
    using False r'(2) P by (simp add: crest_add_def forget_crest_def)
  ultimately show thesis using that [of ret "c\<lparr>mrouter := r'\<rparr>"] r'(4) by (simp add: crest_blocks_def)
qed

text \<open>Any number of resources.\<close>

fun crest_adds_mem :: "'w mcrest \<Rightarrow> 'w crest_res list \<Rightarrow> procheap \<Rightarrow> ('w mcrest \<times> procheap) option" where
  "crest_adds_mem c [] h = Some (c, h)"
| "crest_adds_mem c (res # rs) h = Option.bind (crest_add_mem c res h) (\<lambda>(_, c1, h1). crest_adds_mem c1 rs h1)"

lemma crest_adds_mem_owned:
  assumes "hlive h = F + mset (crest_blocks c)" "fits n (mrouter c)" "n + length rs \<le> 2 ^ 62"
  shows "\<exists>c' h'. crest_adds_mem c rs h = Some (c', h') \<and> forget_crest c' = fold (\<lambda>res d. snd (crest_add d res)) rs (forget_crest c) \<and>
    hlive h' = F + mset (crest_blocks c') \<and> mstarted c' = mstarted c"
  using assms
proof (induction rs arbitrary: c h n)
  case (Cons res rs)
  have "n < 2 ^ 62" using Cons.prems(3) by simp
  with Cons.prems(1,2) obtain ret c1 h1 where c1: "crest_add_mem c res h = Some (ret, c1, h1)"
    "crest_add (forget_crest c) res = (ret, forget_crest c1)" "hlive h1 = F + mset (crest_blocks c1)" "fits (n + 1) (mrouter c1)"
    "mstarted c1 = mstarted c" by (rule crest_add_mem_owned)
  show ?case using Cons.IH [OF c1(3,4)] Cons.prems(3) c1 by simp
qed simp

text \<open>
  C22: The memory of the REST server. From the creation of a server, over any resources that are added or refused, to its
  end, no block is freed that is not allocated and no array of a router is written past its capacity; in
  between, the server owns exactly what it has allocated and is the server of \<open>Crest\<close>; in the end every block is freed again, and the
  HTTP library is stopped exactly if it was started.
\<close>

theorem crest_memory_balanced:
  assumes "crest_new_mem h = (c0, h0)" "length rs \<le> 2 ^ 62"
  shows "\<exists>c h1 h2. crest_adds_mem c0 rs h0 = Some (c, h1) \<and>
    forget_crest c = fold (\<lambda>res d. snd (crest_add d res)) rs crest_new \<and> hlive h1 = hlive h + mset (crest_blocks c) \<and>
    crest_free (snd (crest_bind_mem daemon c)) h1 = Some (daemon, h2) \<and> hlive h2 = hlive h"
proof -
  have c0: "hlive h0 = hlive h + mset (crest_blocks c0)" "mrouter c0 = zero_mrouter" "forget_crest c0 = crest_new" "\<not> mstarted c0"
    using assms(1) by (auto simp: crest_new_mem_def halloc_def crest_blocks_def forget_crest_def crest_new_def)
  have "fits 0 (mrouter c0)" "0 + length rs \<le> 2 ^ 62" using c0(2) assms(2) by simp_all
  from crest_adds_mem_owned [OF c0(1) this] c0(3) obtain c h1 where c: "crest_adds_mem c0 rs h0 = Some (c, h1)"
    "forget_crest c = fold (\<lambda>res d. snd (crest_add d res)) rs crest_new" "hlive h1 = hlive h + mset (crest_blocks c)"
    "mstarted c = mstarted c0" by auto
  let ?c = "snd (crest_bind_mem daemon c)"
  have "crest_blocks ?c = crest_blocks c" "mstarted ?c = daemon"
    using c(4) c0(4) by (simp_all add: crest_bind_mem_def crest_blocks_def)
  then obtain h2 where "crest_free ?c h1 = Some (daemon, h2)" "hlive h2 = hlive h"
    using crests.dispose_owned [of h1 "hlive h" ?c] c(3) by (auto simp: crest_free_def Let_def split: Option.bind_splits)
  then show ?thesis using c by blast
qed

definition plain_res :: "string \<Rightarrow> unit crest_res" where
  "plain_res path = \<lparr>res_path = path, authorized = None, forbidden = None, accepts = None, exists_cb = None,
     get_cb = None, put_cb = None, post_cb = None, delete_cb = None\<rparr>"

theorem crest_memory_balanced_witness:
  "\<exists>c0 h0 c h1 h2. crest_new_mem \<lparr>hlive = {#7#}, hnext = 8\<rparr> = (c0, h0) \<and>
    crest_adds_mem c0 [plain_res ''/a/:b'', plain_res ''/a/:c'', plain_res ''/a/*''] h0 = Some (c, h1) \<and>
    crest_free (snd (crest_bind_mem True c)) h1 = Some (True, h2) \<and> hlive h2 = {#7#}"
proof -
  let ?rs = "[plain_res ''/a/:b'', plain_res ''/a/:c'', plain_res ''/a/*'']"
  obtain c0 h0 where c0: "crest_new_mem \<lparr>hlive = {#7#}, hnext = 8\<rparr> = (c0 :: unit mcrest, h0)" by (metis surj_pair)
  have "length ?rs \<le> 2 ^ 62" by simp
  from crest_memory_balanced [OF c0 this, of True] c0 show ?thesis by (simp del: crest_adds_mem.simps) blast
qed

end
