(* ===== verification/Rest_Mem.thy ===== *)
theory Rest_Mem
  imports Rest Crest_Mem
begin

text \<open>
  The memory of the REST backend, \<^verbatim>\<open>src/backend_rest.c\<close>: a table of metrics is a block, and so is the copy of every key. A
  poll builds a new table and the old one is freed when it is replaced. Forgetting the blocks gives the operations of \<open>Rest\<close>.
  \<open>None\<close> also means that a block is freed that is not allocated.
\<close>

section \<open>Tables of metrics\<close>

record mmetrics =
  table_block :: block
  mm_cap :: nat
  mm_data :: "(block \<times> metric) list"

fun keys_free :: "(block \<times> metric) list \<Rightarrow> procheap \<Rightarrow> procheap option" where
  "keys_free [] h = Some h"
| "keys_free ((key, m) # data) h = Option.bind (hfree (Some key) h) (\<lambda>h1. keys_free data h1)"

definition metrics_free :: "mmetrics option \<Rightarrow> procheap \<Rightarrow> procheap option" where
  "metrics_free metrics h =
     (case metrics of
        None \<Rightarrow> Some h
      | Some m \<Rightarrow> Option.bind (keys_free (mm_data m) h) (\<lambda>h1. hfree (Some (table_block m)) h1))"

definition metrics_append_mem :: "mmetrics option \<Rightarrow> optics_poll \<Rightarrow> procheap \<Rightarrow> (mmetrics \<times> procheap) option" where
  "metrics_append_mem metrics poll h =
     Option.bind
       (case metrics of
          Some m \<Rightarrow> Some (m, h)
        | None \<Rightarrow>
            if malloc_ok (sizeof_metrics metrics_init_cap)
            then (case halloc h of (b, h1) \<Rightarrow> Some (\<lparr>table_block = b, mm_cap = metrics_init_cap, mm_data = []\<rparr>, h1)) else None)
       (\<lambda>(m1, h1).
         Option.bind
           (if length (mm_data m1) = mm_cap m1
            then (let cap = umul (mm_cap m1) 2 in
                  if malloc_ok (sizeof_metrics cap)
                  then map_option (\<lambda>(b, h2). (m1\<lparr>table_block := b, mm_cap := cap\<rparr>, h2)) (hrealloc (Some (table_block m1)) h1)
                  else None)
            else Some (m1, h1))
           (\<lambda>(m2, h2).
             Option.bind (poller_key (pprefix poll) (phost poll) (pkey poll)) (\<lambda>key.
               case halloc h2 of (k, h3) \<Rightarrow>
                 Some (m2\<lparr>mm_data := mm_data m2 @
                   [(k, \<lparr>mkey = take optics_name_max_len (key_str key), mvalue = pvalue poll\<rparr>)]\<rparr>, h3))))"

text \<open>Sorting moves the pointers to the keys together with the values.\<close>

definition metrics_sort_mem :: "(block \<times> metric) qsort \<Rightarrow> mmetrics \<Rightarrow> mmetrics option" where
  "metrics_sort_mem qsort metrics =
     map_option (\<lambda>data. metrics\<lparr>mm_data := data\<rparr>) (qsort (\<lambda>a b. metrics_cmp (snd a) (snd b)) (mm_data metrics))"

section \<open>The backend\<close>

record mrest =
  rest_block :: block
  mrlock :: slock
  mcurrent :: "mmetrics option"
  mbuild :: "mmetrics option"

definition rest_new :: "procheap \<Rightarrow> mrest \<times> procheap" where
  "rest_new h = (case halloc h of (b, h1) \<Rightarrow> (\<lparr>rest_block = b, mrlock = 0, mcurrent = None, mbuild = None\<rparr>, h1))"

definition swap_tables_mem :: "(block \<times> metric) qsort \<Rightarrow> mrest \<Rightarrow> procheap \<Rightarrow> (mrest \<times> procheap) option" where
  "swap_tables_mem qsort rest h =
     Option.bind
       (case mbuild rest of None \<Rightarrow> Some None | Some m \<Rightarrow> map_option Some (metrics_sort_mem qsort m))
       (\<lambda>sorted.
         Option.bind (slock_lock (mrlock rest)) (\<lambda>l.
           let to_delete = mcurrent rest;
               rest1 = rest\<lparr>mcurrent := sorted, mrlock := slock_unlock l\<rparr>
           in Option.bind (metrics_free to_delete h) (\<lambda>h1. Some (rest1\<lparr>mbuild := None\<rparr>, h1))))"

definition rest_dump_mem ::
  "(block \<times> metric) qsort \<Rightarrow> mrest \<Rightarrow> optics_poll_type \<Rightarrow> optics_poll option \<Rightarrow> procheap \<Rightarrow> (mrest \<times> procheap) option" where
  "rest_dump_mem qsort rest type poll h =
     (case type of
        optics_poll_begin \<Rightarrow> Option.bind (metrics_free (mbuild rest) h) (\<lambda>h1. Some (rest\<lparr>mbuild := None\<rparr>, h1))
      | optics_poll_done \<Rightarrow> swap_tables_mem qsort rest h
      | optics_poll_metric \<Rightarrow>
          Option.bind poll (\<lambda>p. map_option (\<lambda>(m, h1). (rest\<lparr>mbuild := Some m\<rparr>, h1)) (metrics_append_mem (mbuild rest) p h)))"

definition rest_free_mem :: "mrest \<Rightarrow> procheap \<Rightarrow> procheap option" where
  "rest_free_mem rest h =
     (case slock_try_lock (mrlock rest) of
        (False, _) \<Rightarrow> None
      | (True, _) \<Rightarrow>
          Option.bind (metrics_free (mcurrent rest) h) (\<lambda>h1.
            Option.bind (metrics_free (mbuild rest) h1) (\<lambda>h2. hfree (Some (rest_block rest)) h2)))"

fun rest_dumps_mem ::
  "(block \<times> metric) qsort \<Rightarrow> mrest \<Rightarrow> (optics_poll_type \<times> optics_poll option) list \<Rightarrow> procheap \<Rightarrow> (mrest \<times> procheap) option" where
  "rest_dumps_mem qsort rest [] h = Some (rest, h)"
| "rest_dumps_mem qsort rest ((type, poll) # calls) h =
     Option.bind (rest_dump_mem qsort rest type poll h) (\<lambda>(rest1, h1). rest_dumps_mem qsort rest1 calls h1)"

section \<open>Who owns what\<close>

definition metrics_blocks :: "mmetrics option \<Rightarrow> block list" where
  "metrics_blocks metrics = (case metrics of None \<Rightarrow> [] | Some m \<Rightarrow> map fst (mm_data m) @ [table_block m])"

definition rest_blocks :: "mrest \<Rightarrow> block list" where
  "rest_blocks rest = metrics_blocks (mcurrent rest) @ metrics_blocks (mbuild rest) @ [rest_block rest]"

definition forget_metrics :: "mmetrics \<Rightarrow> metrics" where
  "forget_metrics m = \<lparr>mcap = mm_cap m, mdata = map snd (mm_data m)\<rparr>"

lemma keys_free_frees: "keys_free data = free_all (map fst data)"
proof (induction data)
  case (Cons d data)
  show ?case by (rule ext) (cases d, simp only: keys_free.simps Cons list.map fst_conv frees)
qed (simp add: fun_eq_iff)

lemma metrics_free_frees: "metrics_free metrics = free_all (metrics_blocks metrics)"
proof (rule ext)
  show "metrics_free metrics h = free_all (metrics_blocks metrics) h" for h
    by (cases metrics) (simp_all only: metrics_free_def metrics_blocks_def option.case keys_free_frees frees free_all.simps(1))
qed

interpretation metrics_tables: disposable metrics_free metrics_blocks
  by unfold_locales (simp add: metrics_free_frees)

text \<open>Appending a metric.\<close>

lemma metrics_append_mem_owned:
  assumes "hlive h = F + mset (metrics_blocks b)" "metrics_append (map_option forget_metrics b) p = Some m"
  obtains m' h' where "metrics_append_mem b p h = Some (m', h')" "forget_metrics m' = m" "hlive h' = F + mset (metrics_blocks (Some m'))"
proof -
  obtain m1 h1 where m1: "(case b of Some m \<Rightarrow> Some (m, h)
        | None \<Rightarrow> if malloc_ok (sizeof_metrics metrics_init_cap)
            then (case halloc h of (b, h1) \<Rightarrow> Some (\<lparr>table_block = b, mm_cap = metrics_init_cap, mm_data = []\<rparr>, h1)) else None) = Some (m1, h1)"
      "hlive h1 = F + mset (metrics_blocks (Some m1))"
      "forget_metrics m1 = (case b of None \<Rightarrow> \<lparr>mcap = metrics_init_cap, mdata = []\<rparr> | Some m \<Rightarrow> forget_metrics m)"
  proof (cases b)
    case None
    show thesis
      by (rule that [of "\<lparr>table_block = fst (halloc h), mm_cap = metrics_init_cap, mm_data = []\<rparr>" "snd (halloc h)"])
        (use None assms in \<open>auto simp: metrics_blocks_def forget_metrics_def metrics_append_def split_def split: if_splits\<close>)
  qed (use that assms in simp)
  let ?G = "F + mset (map fst (mm_data m1))"
  have "hlive h1 = ?G + mset (option_block (Some (table_block m1)))" using m1(2) by (simp add: metrics_blocks_def)
  then obtain b' h2 where h2: "hrealloc (Some (table_block m1)) h1 = Some (b', h2)" "hlive h2 = ?G + {#b'#}" by (rule hrealloc_owned)
  show thesis
  proof (cases "length (mm_data m1) = mm_cap m1")
    case True
    then show thesis
      using that [of "m1\<lparr>table_block := b', mm_cap := umul (mm_cap m1) 2, mm_data := mm_data m1 @ [(fst (halloc h2), last (mdata m))]\<rparr>" "snd (halloc h2)"]
        assms(2) m1 h2
      by (cases b) (auto simp: metrics_append_mem_def metrics_append_def metrics_blocks_def forget_metrics_def Let_def split_def
          split: if_splits Option.bind_splits)
  next
    case False
    then show thesis
      using that [of "m1\<lparr>mm_data := mm_data m1 @ [(fst (halloc h1), last (mdata m))]\<rparr>" "snd (halloc h1)"] assms(2) m1
      by (cases b) (auto simp: metrics_append_mem_def metrics_append_def metrics_blocks_def forget_metrics_def Let_def split_def
          split: if_splits Option.bind_splits)
  qed
qed

section \<open>Polls\<close>

lemma rest_dumps_mem_append:
  "rest_dumps_mem qsort rest (xs @ ys) h =
     Option.bind (rest_dumps_mem qsort rest xs h) (\<lambda>(rest1, h1). rest_dumps_mem qsort rest1 ys h1)"
proof (induction qsort rest xs h rule: rest_dumps_mem.induct)
  case (2 qsort rest type poll calls h)
  then show ?case by (cases "rest_dump_mem qsort rest type poll h") auto
qed simp

lemma rest_dumps_mem_metrics:
  assumes "hlive h = F + mset (metrics_blocks (mbuild rest))" "building (map_option forget_metrics (mbuild rest)) ms"
    and "\<forall>p \<in> set ps. poll_names_ok p" "length ms + length ps < 2 ^ 47"
  shows "\<exists>b h'. rest_dumps_mem qsort rest (map (\<lambda>p. (optics_poll_metric, Some p)) ps) h = Some (rest\<lparr>mbuild := b\<rparr>, h') \<and>
    building (map_option forget_metrics b) (ms @ map metric_of ps) \<and> hlive h' = F + mset (metrics_blocks b)"
  using assms
proof (induction ps arbitrary: rest h ms)
  case Nil
  then show ?case by (intro exI [of _ "mbuild rest"]) simp
next
  case (Cons p ps)
  have "length ms < 2 ^ 47" "poll_names_ok p" using Cons.prems by simp_all
  then obtain m where m: "metrics_append (map_option forget_metrics (mbuild rest)) p = Some m" "building (Some m) (ms @ [metric_of p])"
    using metrics_append_builds [OF Cons.prems(2)] by blast
  obtain m' h' where m': "metrics_append_mem (mbuild rest) p h = Some (m', h')" "forget_metrics m' = m"
      "hlive h' = F + mset (metrics_blocks (Some m'))"
    using metrics_append_mem_owned [OF Cons.prems(1) m(1)] .
  show ?case
    using Cons.IH [of h' "rest\<lparr>mbuild := Some m'\<rparr>" "ms @ [metric_of p]"] Cons.prems(3,4) m(2) m' by (simp add: rest_dump_mem_def)
qed

text \<open>What requests see after a poll of \<open>ps\<close>.\<close>

definition holds_poll :: "mrest \<Rightarrow> optics_poll list \<Rightarrow> bool" where
  "holds_poll rest ps \<longleftrightarrow> mrlock rest = 0 \<and> mbuild rest = None \<and>
     (case mcurrent rest of None \<Rightarrow> ps = [] | Some m \<Rightarrow> ps \<noteq> [] \<and> mset (map snd (mm_data m)) = mset (map metric_of ps))"

lemma swap_tables_mem_owned:
  assumes "qsort_ok qsort" "mrlock rest = 0" "hlive h = F + mset (rest_blocks rest)"
    and "building (map_option forget_metrics (mbuild rest)) (map metric_of ps)" "\<forall>p \<in> set ps. poll_names_ok p"
    and "mbuild rest \<noteq> None \<longleftrightarrow> ps \<noteq> []"
  obtains rest' h' where "swap_tables_mem qsort rest h = Some (rest', h')" "holds_poll rest' ps"
    "hlive h' = F + mset (rest_blocks rest')"
proof -
  let ?cmp = "\<lambda>a b :: block \<times> metric. metrics_cmp (snd a) (snd b)"
  obtain sorted where sorted: "(case mbuild rest of None \<Rightarrow> Some None | Some m \<Rightarrow> map_option Some (metrics_sort_mem qsort m)) = Some sorted"
      "mset (metrics_blocks sorted) = mset (metrics_blocks (mbuild rest))"
      "case sorted of None \<Rightarrow> ps = [] | Some m \<Rightarrow> ps \<noteq> [] \<and> mset (map snd (mm_data m)) = mset (map metric_of ps)"
  proof (cases "mbuild rest")
    case None
    then show thesis using that [of None] assms(6) by simp
  next
    case (Some m)
    have ms: "map snd (mm_data m) = map metric_of ps" using assms(4) Some by (simp add: building_def forget_metrics_def)
    have "\<forall>k \<in> set (map snd (mm_data m)). cstring (mkey k)" unfolding ms using assms(5) cstring_metric_of by auto
    then have "cmp_orders metrics_cmp (snd ` set (mm_data m))" using metrics_cmp_orders by simp
    then have "cmp_orders ?cmp (set (mm_data m))" unfolding cmp_orders_def by blast
    then obtain ys where ys: "qsort ?cmp (mm_data m) = Some ys" "mset ys = mset (mm_data m)"
      using assms(1) unfolding qsort_ok_def by blast
    have "mset (map fst ys) = mset (map fst (mm_data m))" "mset (map snd ys) = mset (map snd (mm_data m))"
      using ys(2) by (simp_all only: mset_map)
    then show thesis using that [of "Some (m\<lparr>mm_data := ys\<rparr>)"] Some ys(1) ms assms(6)
      by (simp add: metrics_sort_mem_def metrics_blocks_def)
  qed
  let ?r = "rest\<lparr>mcurrent := sorted, mrlock := 0, mbuild := None\<rparr>"
  have "hlive h = F + mset (metrics_blocks sorted) + {#rest_block rest#} + mset (metrics_blocks (mcurrent rest))"
    using assms(3) sorted(2) by (simp add: rest_blocks_def ac_simps)
  note free = metrics_tables.dispose_owned [OF this]
  show thesis
  proof (rule that [of ?r])
    show "swap_tables_mem qsort rest h = Some (?r, h\<lparr>hlive := F + mset (metrics_blocks sorted) + {#rest_block rest#}\<rparr>)"
      using sorted(1) free assms(2) by (simp add: swap_tables_mem_def)
  qed (use sorted(3) in \<open>simp_all add: holds_poll_def rest_blocks_def metrics_blocks_def\<close>)
qed

lemma rest_dumps_mem_poll:
  assumes "qsort_ok qsort" "holds_poll rest qs" "hlive h = F + mset (rest_blocks rest)"
    and "\<forall>p \<in> set ps. poll_names_ok p" "length ps < 2 ^ 47"
  obtains rest' h' where "rest_dumps_mem qsort rest (poll_calls ps) h = Some (rest', h')" "holds_poll rest' ps"
    "hlive h' = F + mset (rest_blocks rest')"
proof -
  have r: "mrlock rest = 0" "mbuild rest = None" using assms(2) by (simp_all add: holds_poll_def)
  let ?G = "F + mset (metrics_blocks (mcurrent rest)) + {#rest_block rest#}"
  have "hlive h = ?G + mset (metrics_blocks (mbuild rest))" using assms(3) r(2) by (simp add: rest_blocks_def metrics_blocks_def)
  moreover have "building (map_option forget_metrics (mbuild rest)) []" using r(2) by (simp add: building_def)
  ultimately obtain b h1 where b: "rest_dumps_mem qsort rest (map (\<lambda>p. (optics_poll_metric, Some p)) ps) h = Some (rest\<lparr>mbuild := b\<rparr>, h1)"
      "building (map_option forget_metrics b) (map metric_of ps)" "hlive h1 = ?G + mset (metrics_blocks b)"
    using rest_dumps_mem_metrics [of h ?G rest "[]" ps qsort] assms(4,5) by auto
  have own: "hlive h1 = F + mset (rest_blocks (rest\<lparr>mbuild := b\<rparr>))" using b(3) by (simp add: rest_blocks_def ac_simps)
  have ne: "b \<noteq> None \<longleftrightarrow> ps \<noteq> []"
  proof (cases "ps = []")
    case True
    then have "rest\<lparr>mbuild := b\<rparr> = rest" using b(1) by simp
    then have "mbuild (rest\<lparr>mbuild := b\<rparr>) = mbuild rest" by (rule arg_cong)
    then show ?thesis using True r(2) by simp
  next
    case False
    then show ?thesis using b(2) by (cases b) (simp_all add: building_def)
  qed
  obtain rest' h' where d: "swap_tables_mem qsort (rest\<lparr>mbuild := b\<rparr>) h1 = Some (rest', h')" "holds_poll rest' ps"
      "hlive h' = F + mset (rest_blocks rest')"
    using swap_tables_mem_owned [OF assms(1) _ own _ assms(4)] r(1) b(2) ne by auto
  have first: "rest_dump_mem qsort rest optics_poll_begin None h = Some (rest, h)" using r(2) by (simp add: rest_dump_mem_def metrics_free_def)
  have "rest_dumps_mem qsort rest (poll_calls ps) h = Some (rest', h')"
    using b(1) d(1) by (simp add: poll_calls_def first rest_dumps_mem_append) (simp add: rest_dump_mem_def)
  then show thesis using d(2,3) by (rule that)
qed

lemma rest_dumps_mem_polls:
  assumes "qsort_ok qsort" "holds_poll rest qs" "hlive h = F + mset (rest_blocks rest)"
    and "\<forall>ps \<in> set pss. (\<forall>p \<in> set ps. poll_names_ok p) \<and> length ps < 2 ^ 47"
  shows "\<exists>rest' h'. rest_dumps_mem qsort rest (concat (map poll_calls pss)) h = Some (rest', h') \<and>
    holds_poll rest' (last (qs # pss)) \<and> hlive h' = F + mset (rest_blocks rest')"
  using assms(2-4)
proof (induction pss arbitrary: rest h qs)
  case (Cons ps pss)
  have "\<forall>p \<in> set ps. poll_names_ok p" "length ps < 2 ^ 47" using Cons.prems(3) by simp_all
  with assms(1) Cons.prems(1,2) obtain rest1 h1 where r1: "rest_dumps_mem qsort rest (poll_calls ps) h = Some (rest1, h1)" "holds_poll rest1 ps"
    "hlive h1 = F + mset (rest_blocks rest1)" by (rule rest_dumps_mem_poll)
  show ?case using Cons.IH [OF r1(2,3)] Cons.prems(3) r1(1) by (simp add: rest_dumps_mem_append)
qed simp

text \<open>
  C20: The memory of the REST backend. Over any number of polls, no block is freed that is not allocated, and
  between polls the backend owns its own block and those of the last poll only: a table and one key per metric, or nothing if the
  poll was empty. It does not grow with time. Freeing the backend frees every block it ever allocated.
\<close>

theorem rest_memory_balanced:
  assumes "qsort_ok qsort" "rest_new h = (r0, h0)"
    and "\<forall>ps \<in> set pss. (\<forall>p \<in> set ps. poll_names_ok p) \<and> length ps < 2 ^ 47"
  shows "\<exists>r h1 h2. rest_dumps_mem qsort r0 (concat (map poll_calls pss)) h0 = Some (r, h1) \<and>
    hlive h1 = hlive h + mset (rest_blocks r) \<and>
    length (rest_blocks r) = (let n = length (last ([] # pss)) in if n = 0 then 1 else n + 2) \<and>
    rest_free_mem r h1 = Some h2 \<and> hlive h2 = hlive h"
proof -
  have "holds_poll r0 []" "hlive h0 = hlive h + mset (rest_blocks r0)"
    using assms(2) by (auto simp: rest_new_def halloc_def holds_poll_def rest_blocks_def metrics_blocks_def)
  from rest_dumps_mem_polls [OF assms(1) this assms(3)] obtain r h1 where
    r: "rest_dumps_mem qsort r0 (concat (map poll_calls pss)) h0 = Some (r, h1)" "holds_poll r (last ([] # pss))"
      "hlive h1 = hlive h + mset (rest_blocks r)" by blast
  have "length (mm_data m) = length (last ([] # pss))" if "mcurrent r = Some m" for m
    using r(2) that by (auto simp: holds_poll_def dest!: mset_eq_length simp del: mset_map)
  then have "length (rest_blocks r) = (let n = length (last ([] # pss)) in if n = 0 then 1 else n + 2)"
    using r(2) by (cases "mcurrent r") (simp_all add: rest_blocks_def metrics_blocks_def holds_poll_def del: last.simps)
  moreover have "rest_free_mem r h1 = free_all (rest_blocks r) h1"
  proof -
    have "rest_free_mem r h1 = Option.bind (metrics_free (mcurrent r) h1) (\<lambda>h1. Option.bind (metrics_free (mbuild r) h1) (hfree (Some (rest_block r))))"
      using r(2) by (simp add: rest_free_mem_def holds_poll_def slock_try_lock_def)
    then show ?thesis by (simp only: rest_blocks_def metrics_free_frees frees)
  qed
  then have "rest_free_mem r h1 = Some (h1\<lparr>hlive := hlive h\<rparr>)" using free_all_owned [OF r(3)] by simp
  ultimately show ?thesis using r(1,3) by (intro exI [of _ r] exI [of _ h1] exI [of _ "h1\<lparr>hlive := hlive h\<rparr>"]) simp
qed

theorem rest_memory_balanced_witness:
  "\<exists>r0 h0 r h1 h2. rest_new \<lparr>hlive = {#}, hnext = 0\<rparr> = (r0, h0) \<and>
    rest_dumps_mem isort r0 (concat (map poll_calls [[poll_of ''requests'' 3, poll_of ''errors'' 5], [poll_of ''errors'' 6]])) h0 = Some (r, h1) \<and>
    length (rest_blocks r) = 3 \<and> rest_free_mem r h1 = Some h2 \<and> hlive h2 = {#}"
proof -
  let ?pss = "[[poll_of ''requests'' 3, poll_of ''errors'' 5], [poll_of ''errors'' 6]]"
  obtain r0 h0 where new: "rest_new \<lparr>hlive = {#}, hnext = 0\<rparr> = (r0, h0)" by (metis surj_pair)
  have "\<forall>ps \<in> set ?pss. (\<forall>p \<in> set ps. poll_names_ok p) \<and> length ps < 2 ^ 47"
    by (simp add: poll_of_def poll_names_ok_def cstring_def nil_char_def)
  from rest_memory_balanced [OF isort_ok new this] new show ?thesis
    by (simp del: rest_dumps_mem.simps list.map concat.simps add: numeral_3_eq_3) blast
qed

end
