(* ===== verification/Htable_Mem.thy ===== *)
theory Htable_Mem
  imports Htable Blocks
begin

text \<open>
  The memory of the hash table, \<^verbatim>\<open>src/utils/htable.c\<close>: the array of buckets is a block, and so is the copy of every key. Growing
  moves the pointers to the keys into a new array, perhaps after some arrays that were too small. Forgetting the blocks gives the
  operations of \<open>Htable\<close>. \<open>None\<close> also means that a block is freed that is not allocated.
\<close>

section \<open>Definitions\<close>

record mbucket =
  mbkey :: "(block \<times> string) option"
  mbvalue :: u64

record mtable =
  mt_len :: nat
  mt_cap :: nat
  mt_block :: "block option"
  mt_buckets :: "mbucket list"

definition empty_mbucket :: mbucket where
  "empty_mbucket = \<lparr>mbkey = None, mbvalue = 0\<rparr>"

definition empty_mtable :: mtable where
  "empty_mtable = \<lparr>mt_len = 0, mt_cap = 0, mt_block = None, mt_buckets = []\<rparr>"

text \<open>The table without its blocks. Looking for a bucket only reads the texts of the keys.\<close>

definition forget_bucket :: "mbucket \<Rightarrow> htable_bucket" where
  "forget_bucket b = \<lparr>bkey = map_option snd (mbkey b), bvalue = mbvalue b\<rparr>"

definition forget_table :: "mtable \<Rightarrow> htable" where
  "forget_table ht = \<lparr>ht_len = mt_len ht, ht_cap = mt_cap ht, ht_table = map forget_bucket (mt_buckets ht)\<rparr>"

fun buckets_free :: "mbucket list \<Rightarrow> procheap \<Rightarrow> procheap option" where
  "buckets_free [] h = Some h"
| "buckets_free (b # bs) h = Option.bind (hfree (map_option fst (mbkey b)) h) (\<lambda>h1. buckets_free bs h1)"

definition htable_reset_mem :: "mtable \<Rightarrow> procheap \<Rightarrow> (mtable \<times> procheap) option" where
  "htable_reset_mem ht h =
     map_option (Pair empty_mtable)
       (case mt_block ht of
          None \<Rightarrow> Some h
        | Some b \<Rightarrow> Option.bind (buckets_free (mt_buckets ht) h) (\<lambda>h1. hfree (Some b) h1))"

definition table_put_mem :: "mbucket list \<Rightarrow> nat \<Rightarrow> block \<times> string \<Rightarrow> u64 \<Rightarrow> mbucket list option" where
  "table_put_mem table cap key value =
     (let hash = htable_hash (snd key) in
      case find (\<lambda>i. mbkey (table ! probe cap hash i) = None) [0..<probe_window] of
        None \<Rightarrow> None
      | Some i \<Rightarrow> Some (table[probe cap hash i := \<lparr>mbkey = Some key, mbvalue = value\<rparr>]))"

fun rehash_mem :: "mbucket list \<Rightarrow> mbucket list \<Rightarrow> nat \<Rightarrow> mbucket list option" where
  "rehash_mem [] new_table new_cap = Some new_table"
| "rehash_mem (bucket # buckets) new_table new_cap =
     (case mbkey bucket of
        None \<Rightarrow> rehash_mem buckets new_table new_cap
      | Some k \<Rightarrow>
          (case table_put_mem new_table new_cap k (mbvalue bucket) of
             None \<Rightarrow> None
           | Some new_table' \<Rightarrow> rehash_mem buckets new_table' new_cap))"

function htable_resize_mem :: "mtable \<Rightarrow> nat \<Rightarrow> procheap \<Rightarrow> (mtable \<times> procheap) option" where
  "htable_resize_mem ht cap h =
     (if cap \<le> mt_cap ht then Some (ht, h)
      else
        (case double_until (if mt_cap ht \<noteq> 0 then mt_cap ht else 1) cap of
           None \<Rightarrow> None
         | Some new_cap \<Rightarrow>
             if \<not> calloc_ok new_cap then None
             else
               (case rehash_mem (mt_buckets ht) (replicate new_cap empty_mbucket) new_cap of
                  None \<Rightarrow>
                    Option.bind (hfree (Some (fst (halloc h))) (snd (halloc h))) (\<lambda>h2. htable_resize_mem ht (umul new_cap 2) h2)
                | Some new_table \<Rightarrow>
                    Option.bind (hfree (mt_block ht) (snd (halloc h))) (\<lambda>h2.
                      Some (ht\<lparr>mt_cap := new_cap, mt_block := Some (fst (halloc h)), mt_buckets := new_table\<rparr>, h2)))))"
  by pat_completeness auto
termination
proof (relation "measure (\<lambda>(ht, cap, h). 2 * 576460752303423488 - cap)", goal_cases)
  case (2 ht cap h new_cap)
  then have "cap \<le> new_cap" "new_cap < 576460752303423488" "0 < cap"
    by (auto simp: calloc_ok_def dest: double_until_ge)
  then show ?case by (simp add: umul_small)
qed simp

declare htable_resize_mem.simps [simp del]

section \<open>Forgetting the blocks\<close>

lemma forget_bucket_simps [simp]:
  "bkey (forget_bucket b) = map_option snd (mbkey b)" "bvalue (forget_bucket b) = mbvalue b"
  by (simp_all add: forget_bucket_def)

lemma forget_table_simps [simp]:
  "ht_len (forget_table ht) = mt_len ht" "ht_cap (forget_table ht) = mt_cap ht"
  "ht_table (forget_table ht) = map forget_bucket (mt_buckets ht)"
  by (simp_all add: forget_table_def)

lemma forget_table_update:
  "forget_table (ht\<lparr>mt_len := n, mt_buckets := bs\<rparr>) = (forget_table ht)\<lparr>ht_len := n, ht_table := map forget_bucket bs\<rparr>"
  by (simp add: forget_table_def)

lemma forget_replicate: "map forget_bucket (replicate n empty_mbucket) = replicate n empty_bucket"
  by (simp add: forget_bucket_def empty_mbucket_def empty_bucket_def)

lemma table_put_forget:
  assumes "length table = cap" "0 < cap"
  shows "table_put (map forget_bucket table) cap (snd key) v = map_option (map forget_bucket) (table_put_mem table cap key v)"
proof -
  have "forget_bucket (table ! probe cap hash i) = map forget_bucket table ! probe cap hash i" for hash i using assms by simp
  then have "find (\<lambda>i. bkey (map forget_bucket table ! probe cap hash i) = None) is = find (\<lambda>i. mbkey (table ! probe cap hash i) = None) is" for hash "is"
    using assms by (simp add: nth_map)
  then show ?thesis by (simp add: table_put_def table_put_mem_def Let_def map_update forget_bucket_def split: option.split)
qed

lemma table_put_mem_length: "table_put_mem table cap key v = Some table' \<Longrightarrow> length table' = length table"
  by (auto simp: table_put_mem_def Let_def split: option.splits)

lemma rehash_forget:
  assumes "length new_table = cap" "0 < cap"
  shows "rehash (map forget_bucket buckets) (map forget_bucket new_table) cap = map_option (map forget_bucket) (rehash_mem buckets new_table cap)"
  using assms
proof (induction buckets arbitrary: new_table)
  case (Cons b buckets)
  show ?case
  proof (cases "mbkey b")
    case (Some k)
    then show ?thesis using Cons table_put_forget [OF Cons.prems, of k "mbvalue b"]
      by (auto simp: table_put_mem_length split: option.splits)
  qed (use Cons in simp)
qed simp

lemma resize_forget: "htable_resize_mem ht cap h = Some (ht', h') \<Longrightarrow> htable_resize (forget_table ht) cap = Some (forget_table ht')"
proof (induction ht cap h rule: htable_resize_mem.induct)
  case (1 ht cap h)
  show ?case
  proof (cases "cap \<le> mt_cap ht")
    case True
    then show ?thesis using "1.prems" by (simp add: htable_resize.simps htable_resize_mem.simps)
  next
    case False
    then obtain n where n: "double_until (if mt_cap ht \<noteq> 0 then mt_cap ht else 1) cap = Some n" "calloc_ok n"
      using "1.prems" by (auto simp: htable_resize_mem.simps [of ht cap] split: option.splits if_splits)
    have "0 < n" using double_until_ge [OF n(1)] False by simp
    note R = rehash_forget [of "replicate n empty_mbucket" n "mt_buckets ht", unfolded forget_replicate, OF length_replicate this]
    show ?thesis
    proof (cases "rehash_mem (mt_buckets ht) (replicate n empty_mbucket) n")
      case None
      then obtain h2 where h2: "hfree (Some (fst (halloc h))) (snd (halloc h)) = Some h2" "htable_resize_mem ht (umul n 2) h2 = Some (ht', h')"
        using "1.prems" False n by (auto simp: htable_resize_mem.simps [of ht cap] split: Option.bind_splits)
      have "htable_resize (forget_table ht) (umul n 2) = Some (forget_table ht')" using "1.IH" False n None h2 by blast
      then show ?thesis using False n R None by (simp add: htable_resize.simps [of _ cap] split: if_splits)
    next
      case (Some t)
      then show ?thesis using "1.prems" False n R
        by (auto simp: htable_resize.simps [of _ cap] htable_resize_mem.simps [of ht cap] forget_table_def split: Option.bind_splits)
    qed
  qed
qed

section \<open>Operations\<close>

definition htable_reserve_mem :: "mtable \<Rightarrow> nat \<Rightarrow> procheap \<Rightarrow> (mtable \<times> procheap) option" where
  "htable_reserve_mem ht items h = htable_resize_mem ht (umul items 4) h"

definition htable_get_mem :: "mtable \<Rightarrow> string \<Rightarrow> procheap \<Rightarrow> (htable_ret \<times> mtable \<times> procheap) option" where
  "htable_get_mem ht0 key h =
     Option.bind (htable_resize_mem ht0 probe_window h) (\<lambda>(ht, h1).
       Some (case find_bucket (forget_table ht) key of
               Some b \<Rightarrow> (\<lparr>ok = True, rvalue = mbvalue (mt_buckets ht ! b)\<rparr>, ht, h1)
             | None \<Rightarrow> (\<lparr>ok = False, rvalue = 0\<rparr>, ht, h1)))"

function htable_put_mem :: "mtable \<Rightarrow> string \<Rightarrow> u64 \<Rightarrow> procheap \<Rightarrow> (htable_ret \<times> mtable \<times> procheap) option" where
  "htable_put_mem ht0 key value h =
     (case htable_resize_mem ht0 probe_window h of
        None \<Rightarrow> None
      | Some (ht, h1) \<Rightarrow>
          (case find_bucket (forget_table ht) key of
             Some b \<Rightarrow> Some (\<lparr>ok = False, rvalue = mbvalue (mt_buckets ht ! b)\<rparr>, ht, h1)
           | None \<Rightarrow>
               (case find_empty (forget_table ht) key of
                  Some b \<Rightarrow>
                    Some (\<lparr>ok = True, rvalue = 0\<rparr>,
                      ht\<lparr>mt_len := uadd (mt_len ht) 1,
                         mt_buckets := (mt_buckets ht)
                           [b := \<lparr>mbkey = Some (fst (halloc h1), strndup key htable_key_max_len), mbvalue = value\<rparr>]\<rparr>,
                      snd (halloc h1))
                | None \<Rightarrow>
                    if \<not> calloc_ok (mt_cap ht) then None
                    else
                      (case htable_resize_mem ht (umul (mt_cap ht) 2) h1 of
                         None \<Rightarrow> None
                       | Some (ht', h2) \<Rightarrow> htable_put_mem ht' key value h2))))"
  by pat_completeness auto
termination
proof (relation "measure (\<lambda>(ht, key, value, h). 2 * 576460752303423488 - mt_cap ht)", goal_cases)
  case (2 ht0 key v h x ht h1 y ht' h2)
  have r: "htable_resize (forget_table ht0) probe_window = Some (forget_table ht)" "htable_resize (forget_table ht) (umul (mt_cap ht) 2) = Some (forget_table ht')"
    using 2 by (auto intro: resize_forget)
  have "mt_cap ht0 \<le> mt_cap ht"
    using r(1) htable_resize_cap [OF r(1)] by (cases "probe_window \<le> mt_cap ht0") (auto simp: htable_resize.simps [of "forget_table ht0"] dest: arg_cong [of _ _ ht_cap])
  moreover have "probe_window \<le> mt_cap ht" using htable_resize_cap [OF r(1)] by simp
  moreover have "umul (mt_cap ht) 2 = mt_cap ht * 2" using 2 by (intro umul_small) (simp add: calloc_ok_def)
  ultimately show ?case using htable_resize_cap [OF r(2)] by (auto simp: probe_window_def calloc_ok_def)
qed simp

declare htable_put_mem.simps [simp del]

definition htable_xchg_mem :: "mtable \<Rightarrow> string \<Rightarrow> u64 \<Rightarrow> procheap \<Rightarrow> (htable_ret \<times> mtable \<times> procheap) option" where
  "htable_xchg_mem ht0 key value h =
     Option.bind (htable_resize_mem ht0 probe_window h) (\<lambda>(ht, h1).
       Some (case find_bucket (forget_table ht) key of
               Some b \<Rightarrow>
                 (\<lparr>ok = True, rvalue = mbvalue (mt_buckets ht ! b)\<rparr>,
                  ht\<lparr>mt_buckets := (mt_buckets ht)[b := (mt_buckets ht ! b)\<lparr>mbvalue := value\<rparr>]\<rparr>, h1)
             | None \<Rightarrow> (\<lparr>ok = False, rvalue = 0\<rparr>, ht, h1)))"

text \<open>The key is freed, and its bucket has none.\<close>

definition htable_del_mem :: "mtable \<Rightarrow> string \<Rightarrow> procheap \<Rightarrow> (htable_ret \<times> mtable \<times> procheap) option" where
  "htable_del_mem ht0 key h =
     Option.bind (htable_resize_mem ht0 probe_window h) (\<lambda>(ht, h1).
       case find_bucket (forget_table ht) key of
         Some b \<Rightarrow>
           map_option (\<lambda>h2.
             (\<lparr>ok = True, rvalue = mbvalue (mt_buckets ht ! b)\<rparr>,
              ht\<lparr>mt_len := usub (mt_len ht) 1, mt_buckets := (mt_buckets ht)[b := (mt_buckets ht ! b)\<lparr>mbkey := None\<rparr>]\<rparr>, h2))
             (hfree (map_option fst (mbkey (mt_buckets ht ! b))) h1)
       | None \<Rightarrow> Some (\<lparr>ok = False, rvalue = 0\<rparr>, ht, h1))"

section \<open>Who owns what\<close>

definition bucket_blocks :: "mbucket list \<Rightarrow> block list" where
  "bucket_blocks bs = concat (map (\<lambda>b. option_block (map_option fst (mbkey b))) bs)"

definition table_blocks :: "mtable \<Rightarrow> block list" where
  "table_blocks ht = bucket_blocks (mt_buckets ht) @ option_block (mt_block ht)"

text \<open>There is an array exactly if there is capacity.\<close>

definition mtable_ok :: "mtable \<Rightarrow> bool" where
  "mtable_ok ht \<longleftrightarrow> length (mt_buckets ht) = mt_cap ht \<and> (mt_block ht = None \<longleftrightarrow> mt_cap ht = 0)"

lemma bucket_blocks_simps [simp]:
  "bucket_blocks [] = []" "bucket_blocks (b # bs) = option_block (map_option fst (mbkey b)) @ bucket_blocks bs"
  "bucket_blocks (bs @ cs) = bucket_blocks bs @ bucket_blocks cs" "bucket_blocks (replicate n empty_mbucket) = []"
  by (simp_all add: bucket_blocks_def empty_mbucket_def)

lemma buckets_free_frees: "buckets_free bs = free_all (bucket_blocks bs)"
proof (induction bs)
  case (Cons b bs)
  show ?case by (rule ext) (simp only: buckets_free.simps Cons bucket_blocks_simps frees)
qed (simp add: fun_eq_iff)

text \<open>Changing a bucket exchanges the block of its key.\<close>

lemma bucket_blocks_update:
  assumes "i < length bs"
  shows "mset (bucket_blocks (bs[i := b])) + mset (option_block (map_option fst (mbkey (bs ! i)))) =
    mset (bucket_blocks bs) + mset (option_block (map_option fst (mbkey b)))"
proof -
  have bs: "bucket_blocks bs = bucket_blocks (take i bs @ bs ! i # drop (Suc i) bs)" using id_take_nth_drop [OF assms] by simp
  show ?thesis unfolding upd_conv_take_nth_drop [OF assms] bs by simp
qed

lemma table_put_mem_blocks:
  assumes "table_put_mem table cap key v = Some t" "length table = cap" "0 < cap"
  shows "mset (bucket_blocks t) = add_mset (fst key) (mset (bucket_blocks table))"
proof -
  obtain i where i: "mbkey (table ! probe cap (htable_hash (snd key)) i) = None"
      "t = table[probe cap (htable_hash (snd key)) i := \<lparr>mbkey = Some key, mbvalue = v\<rparr>]"
    using assms(1) by (auto simp: table_put_mem_def Let_def find_Some_iff split: option.splits)
  show ?thesis
    using bucket_blocks_update [of "probe cap (htable_hash (snd key)) i" table "\<lparr>mbkey = Some key, mbvalue = v\<rparr>"] assms(2,3) i by simp
qed

lemma rehash_mem_blocks:
  assumes "rehash_mem bs table cap = Some t" "length table = cap" "0 < cap"
  shows "mset (bucket_blocks t) = mset (bucket_blocks bs) + mset (bucket_blocks table) \<and> length t = cap"
  using assms
proof (induction bs arbitrary: table)
  case (Cons b bs)
  show ?case
  proof (cases "mbkey b")
    case (Some k)
    then obtain t1 where t1: "table_put_mem table cap k (mbvalue b) = Some t1" "rehash_mem bs t1 cap = Some t"
      using Cons.prems(1) by (auto split: option.splits)
    show ?thesis
      using Cons.IH [OF t1(2)] table_put_mem_blocks [OF t1(1) Cons.prems(2,3)] table_put_mem_length [OF t1(1)] Cons.prems(2,3) Some
      by simp
  qed (use Cons in simp)
qed simp

text \<open>The table owns its blocks, beside the blocks \<open>F\<close> of everybody else.\<close>

definition owns :: "block multiset \<Rightarrow> mtable \<Rightarrow> procheap \<Rightarrow> bool" where
  "owns F ht h \<longleftrightarrow> hlive h = F + mset (table_blocks ht) \<and> mtable_ok ht"

lemma hfree_halloc: "hfree (Some (fst (halloc h))) (snd (halloc h)) = Some (h\<lparr>hnext := hnext h + 1\<rparr>)"
  by (simp add: hfree_def halloc_def)

lemma resize_owned:
  assumes "owns F ht h" "htable_resize (forget_table ht) cap = Some r"
  shows "\<exists>ht' h'. htable_resize_mem ht cap h = Some (ht', h') \<and> forget_table ht' = r \<and> owns F ht' h'"
  using assms
proof (induction ht cap h rule: htable_resize_mem.induct)
  case (1 ht cap h)
  show ?case
  proof (cases "cap \<le> mt_cap ht")
    case True
    then show ?thesis using "1.prems" by (simp add: htable_resize.simps htable_resize_mem.simps)
  next
    case False
    then obtain n where n: "double_until (if mt_cap ht \<noteq> 0 then mt_cap ht else 1) cap = Some n" "calloc_ok n"
      using "1.prems"(2) by (auto simp: htable_resize.simps [of _ cap] split: option.splits if_splits)
    have "0 < n" using double_until_ge [OF n(1)] False by simp
    note R = rehash_forget [of "replicate n empty_mbucket" n "mt_buckets ht", unfolded forget_replicate, OF length_replicate this]
    show ?thesis
    proof (cases "rehash_mem (mt_buckets ht) (replicate n empty_mbucket) n")
      case None
      have "htable_resize (forget_table ht) (umul n 2) = Some r"
        using "1.prems"(2) False n R None by (simp add: htable_resize.simps [of _ cap] split: if_splits)
      moreover have "owns F ht (h\<lparr>hnext := hnext h + 1\<rparr>)" using "1.prems"(1) by (simp add: owns_def)
      ultimately show ?thesis using "1.IH" [OF False n(1) _ None hfree_halloc] n False None
        by (simp add: htable_resize_mem.simps [of ht cap] hfree_halloc)
    next
      case (Some t)
      have f: "r = (forget_table ht)\<lparr>ht_cap := n, ht_table := map forget_bucket t\<rparr>"
        using "1.prems"(2) False n R Some by (simp add: htable_resize.simps [of _ cap] split: if_splits)
      let ?ht = "ht\<lparr>mt_cap := n, mt_block := Some (fst (halloc h)), mt_buckets := t\<rparr>"
      have B: "mset (bucket_blocks t) = mset (bucket_blocks (mt_buckets ht))" "length t = n"
        using rehash_mem_blocks [OF Some length_replicate \<open>0 < n\<close>] by simp_all
      have "hlive (snd (halloc h)) = F + mset (table_blocks ?ht) + mset (option_block (mt_block ht))"
        using "1.prems"(1) B(1) by (simp add: owns_def table_blocks_def ac_simps)
      then have "hfree (mt_block ht) (snd (halloc h)) = Some ((snd (halloc h))\<lparr>hlive := F + mset (table_blocks ?ht)\<rparr>)"
        unfolding hfree_free_all by (rule free_all_owned)
      moreover have "mtable_ok ?ht" using B(2) \<open>0 < n\<close> by (simp add: mtable_ok_def)
      ultimately show ?thesis using False n Some f by (simp add: htable_resize_mem.simps [of ht cap] owns_def forget_table_def)
    qed
  qed
qed

text \<open>The search always starts after the table has a window.\<close>

lemma window_owned:
  assumes "owns F ht h" "htable_resize (forget_table ht) probe_window = Some r"
  obtains ht' h' where "htable_resize_mem ht probe_window h = Some (ht', h')" "forget_table ht' = r" "owns F ht' h'"
    "0 < mt_cap ht'" "length (mt_buckets ht') = mt_cap ht'"
proof -
  obtain ht' h' where h: "htable_resize_mem ht probe_window h = Some (ht', h')" "forget_table ht' = r" "owns F ht' h'"
    using resize_owned [OF assms] by blast
  have "0 < mt_cap ht'" using htable_resize_cap [OF assms(2)] h(2) by (auto simp: probe_window_def)
  then show thesis using that h by (simp add: owns_def mtable_ok_def)
qed

lemma find_bucket_less: "0 < ht_cap ht \<Longrightarrow> find_bucket ht key = Some b \<Longrightarrow> b < ht_cap ht"
  by (auto simp: find_bucket_def Let_def find_Some_iff)

lemma get_owned:
  assumes "owns F ht h" "htable_get (forget_table ht) key = Some (ret, r)"
  shows "\<exists>ht' h'. htable_get_mem ht key h = Some (ret, ht', h') \<and> forget_table ht' = r \<and> owns F ht' h'"
proof -
  obtain t where t: "htable_resize (forget_table ht) probe_window = Some t" using assms(2) by (auto simp: htable_get_def split: option.splits)
  with assms(1) obtain ht1 h1 where w: "htable_resize_mem ht probe_window h = Some (ht1, h1)" "forget_table ht1 = t" "owns F ht1 h1"
    "0 < mt_cap ht1" "length (mt_buckets ht1) = mt_cap ht1" by (rule window_owned)
  show ?thesis
    using assms(2) t w find_bucket_less [of "forget_table ht1" key]
    by (cases "find_bucket (forget_table ht1) key") (auto simp: htable_get_def htable_get_mem_def nth_map)
qed

lemma xchg_owned:
  assumes "owns F ht h" "htable_xchg (forget_table ht) key v = Some (ret, r)"
  shows "\<exists>ht' h'. htable_xchg_mem ht key v h = Some (ret, ht', h') \<and> forget_table ht' = r \<and> owns F ht' h'"
proof -
  obtain t where t: "htable_resize (forget_table ht) probe_window = Some t" using assms(2) by (auto simp: htable_xchg_def split: option.splits)
  with assms(1) obtain ht1 h1 where w: "htable_resize_mem ht probe_window h = Some (ht1, h1)" "forget_table ht1 = t" "owns F ht1 h1"
    "0 < mt_cap ht1" "length (mt_buckets ht1) = mt_cap ht1" by (rule window_owned)
  show ?thesis
  proof (cases "find_bucket (forget_table ht1) key")
    case (Some b)
    have b: "b < length (mt_buckets ht1)" using find_bucket_less [OF _ Some] w(4,5) by simp
    have "owns F (ht1\<lparr>mt_buckets := (mt_buckets ht1)[b := (mt_buckets ht1 ! b)\<lparr>mbvalue := v\<rparr>]\<rparr>) h1"
      using w(3) bucket_blocks_update [OF b, of "(mt_buckets ht1 ! b)\<lparr>mbvalue := v\<rparr>"] by (simp add: owns_def table_blocks_def mtable_ok_def)
    then show ?thesis using assms(2) t w(1,2) b Some
      by (auto simp: htable_xchg_def htable_xchg_mem_def nth_map forget_table_def map_update forget_bucket_def)
  qed (use assms(2) t w in \<open>auto simp: htable_xchg_def htable_xchg_mem_def\<close>)
qed

lemma del_owned:
  assumes "owns F ht h" "htable_del (forget_table ht) key = Some (ret, r)"
  shows "\<exists>ht' h'. htable_del_mem ht key h = Some (ret, ht', h') \<and> forget_table ht' = r \<and> owns F ht' h'"
proof -
  obtain t where t: "htable_resize (forget_table ht) probe_window = Some t" using assms(2) by (auto simp: htable_del_def split: option.splits)
  with assms(1) obtain ht1 h1 where w: "htable_resize_mem ht probe_window h = Some (ht1, h1)" "forget_table ht1 = t" "owns F ht1 h1"
    "0 < mt_cap ht1" "length (mt_buckets ht1) = mt_cap ht1" by (rule window_owned)
  show ?thesis
  proof (cases "find_bucket (forget_table ht1) key")
    case (Some b)
    have b: "b < length (mt_buckets ht1)" using find_bucket_less [OF _ Some] w(4,5) by simp
    let ?ht = "ht1\<lparr>mt_len := usub (mt_len ht1) 1, mt_buckets := (mt_buckets ht1)[b := (mt_buckets ht1 ! b)\<lparr>mbkey := None\<rparr>]\<rparr>"
    have "hlive h1 = F + mset (table_blocks ?ht) + mset (option_block (map_option fst (mbkey (mt_buckets ht1 ! b))))"
      using w(3) bucket_blocks_update [OF b, of "(mt_buckets ht1 ! b)\<lparr>mbkey := None\<rparr>"] by (simp add: owns_def table_blocks_def ac_simps)
    then have "hfree (map_option fst (mbkey (mt_buckets ht1 ! b))) h1 = Some (h1\<lparr>hlive := F + mset (table_blocks ?ht)\<rparr>)"
      unfolding hfree_free_all by (rule free_all_owned)
    moreover have "mtable_ok ?ht" using w(3) by (simp add: owns_def mtable_ok_def)
    ultimately show ?thesis using assms(2) t w(1,2) b Some
      by (auto simp: htable_del_def htable_del_mem_def nth_map owns_def forget_table_def map_update forget_bucket_def)
  qed (use assms(2) t w in \<open>auto simp: htable_del_def htable_del_mem_def\<close>)
qed

lemma put_owned:
  assumes "owns F ht h" "htable_put (forget_table ht) key v = Some (ret, r)"
  shows "\<exists>ht' h'. htable_put_mem ht key v h = Some (ret, ht', h') \<and> forget_table ht' = r \<and> owns F ht' h'"
  using assms
proof (induction ht key v h rule: htable_put_mem.induct)
  case (1 ht key v h)
  obtain t where t: "htable_resize (forget_table ht) probe_window = Some t"
    using "1.prems"(2) by (auto simp: htable_put.simps [of _ key] split: option.splits)
  with "1.prems"(1) obtain ht1 h1 where w: "htable_resize_mem ht probe_window h = Some (ht1, h1)" "forget_table ht1 = t" "owns F ht1 h1"
    "0 < mt_cap ht1" "length (mt_buckets ht1) = mt_cap ht1" by (rule window_owned)
  note eqs = htable_put.simps [of "forget_table ht" key v] htable_put_mem.simps [of ht key v h]
  show ?case
  proof (cases "find_bucket (forget_table ht1) key")
    case (Some b)
    then have "b < length (mt_buckets ht1)" using find_bucket_less [OF _ Some] w(4,5) by simp
    then show ?thesis using "1.prems"(2) t w Some by (auto simp: eqs nth_map)
  next
    case None
    note nb = None
    show ?thesis
    proof (cases "find_empty (forget_table ht1) key")
      case (Some b)
      have b: "b < length (mt_buckets ht1)" "mbkey (mt_buckets ht1 ! b) = None"
        using find_empty_Some(1,2) [OF _ Some] w(4,5) by (auto simp: nth_map)
      let ?b = "\<lparr>mbkey = Some (fst (halloc h1), strndup key htable_key_max_len), mbvalue = v\<rparr>"
      have "owns F (ht1\<lparr>mt_len := uadd (mt_len ht1) 1, mt_buckets := (mt_buckets ht1)[b := ?b]\<rparr>) (snd (halloc h1))"
        using w(3) bucket_blocks_update [OF b(1), of ?b] b(2) by (simp add: owns_def table_blocks_def mtable_ok_def)
      then show ?thesis using "1.prems"(2) t w(1,2) nb Some
        by (auto simp: eqs forget_table_update map_update forget_bucket_def)
    next
      case None
      obtain t2 where t2: "calloc_ok (mt_cap ht1)" "htable_resize (forget_table ht1) (umul (mt_cap ht1) 2) = Some t2" "htable_put t2 key v = Some (ret, r)"
        using "1.prems"(2) t w(2) nb None by (auto simp: eqs split: option.splits if_splits)
      obtain ht2 h2 where h2: "htable_resize_mem ht1 (umul (mt_cap ht1) 2) h1 = Some (ht2, h2)" "forget_table ht2 = t2" "owns F ht2 h2"
        using resize_owned [OF w(3) t2(2)] by blast
      have "\<exists>ht' h'. htable_put_mem ht2 key v h2 = Some (ret, ht', h') \<and> forget_table ht' = r \<and> owns F ht' h'"
        using "1.IH" w(1) nb None t2 h2 by blast
      then show ?thesis using w(1) nb None t2(1) h2(1) by (simp add: eqs)
    qed
  qed
qed

section \<open>The life of a table\<close>

datatype table_op = Op_get string | Op_put string u64 | Op_xchg string u64 | Op_del string | Op_reserve nat

fun run_op :: "table_op \<Rightarrow> htable \<Rightarrow> (htable_ret \<times> htable) option" where
  "run_op (Op_get key) ht = htable_get ht key"
| "run_op (Op_put key v) ht = htable_put ht key v"
| "run_op (Op_xchg key v) ht = htable_xchg ht key v"
| "run_op (Op_del key) ht = htable_del ht key"
| "run_op (Op_reserve n) ht = map_option (Pair \<lparr>ok = True, rvalue = 0\<rparr>) (htable_reserve ht n)"

fun run_op_mem :: "table_op \<Rightarrow> mtable \<Rightarrow> procheap \<Rightarrow> (htable_ret \<times> mtable \<times> procheap) option" where
  "run_op_mem (Op_get key) ht h = htable_get_mem ht key h"
| "run_op_mem (Op_put key v) ht h = htable_put_mem ht key v h"
| "run_op_mem (Op_xchg key v) ht h = htable_xchg_mem ht key v h"
| "run_op_mem (Op_del key) ht h = htable_del_mem ht key h"
| "run_op_mem (Op_reserve n) ht h = map_option (Pair \<lparr>ok = True, rvalue = 0\<rparr>) (htable_reserve_mem ht n h)"

fun run_ops :: "table_op list \<Rightarrow> htable \<Rightarrow> (htable_ret list \<times> htable) option" where
  "run_ops [] ht = Some ([], ht)"
| "run_ops (op # ops) ht = Option.bind (run_op op ht) (\<lambda>(r, ht1). map_option (map_prod (Cons r) id) (run_ops ops ht1))"

fun run_ops_mem :: "table_op list \<Rightarrow> mtable \<Rightarrow> procheap \<Rightarrow> (htable_ret list \<times> mtable \<times> procheap) option" where
  "run_ops_mem [] ht h = Some ([], ht, h)"
| "run_ops_mem (op # ops) ht h =
     Option.bind (run_op_mem op ht h) (\<lambda>(r, ht1, h1). map_option (map_prod (Cons r) id) (run_ops_mem ops ht1 h1))"

lemma run_op_owned:
  assumes "owns F ht h" "run_op op (forget_table ht) = Some (ret, r)"
  shows "\<exists>ht' h'. run_op_mem op ht h = Some (ret, ht', h') \<and> forget_table ht' = r \<and> owns F ht' h'"
proof (cases op)
  case (Op_reserve n)
  then show ?thesis using assms resize_owned [OF assms(1), of "umul n 4" r] by (auto simp: htable_reserve_def htable_reserve_mem_def)
qed (use assms get_owned put_owned xchg_owned del_owned in simp_all)

lemma run_ops_owned:
  assumes "owns F ht h" "run_ops ops (forget_table ht) = Some (rets, r)"
  shows "\<exists>ht' h'. run_ops_mem ops ht h = Some (rets, ht', h') \<and> forget_table ht' = r \<and> owns F ht' h'"
  using assms
proof (induction ops arbitrary: ht h rets)
  case (Cons op ops)
  then obtain ret t rets' where o: "run_op op (forget_table ht) = Some (ret, t)" "run_ops ops t = Some (rets', r)" "rets = ret # rets'"
    by (auto split: Option.bind_splits)
  obtain ht1 h1 where h1: "run_op_mem op ht h = Some (ret, ht1, h1)" "forget_table ht1 = t" "owns F ht1 h1"
    using run_op_owned [OF Cons.prems(1) o(1)] by blast
  show ?case using Cons.IH [OF h1(3), of rets'] o h1 by auto
qed simp

lemma length_bucket_blocks: "length (bucket_blocks bs) = length (entries (map forget_bucket bs))"
  by (induction bs) (auto simp: entries_def entry_def split: option.splits)

lemma reset_frees: "mtable_ok ht \<Longrightarrow> htable_reset_mem ht h = map_option (Pair empty_mtable) (free_all (table_blocks ht) h)"
proof (cases "mt_block ht")
  case (Some b)
  have "Option.bind (buckets_free (mt_buckets ht) h) (hfree (Some b)) = free_all (table_blocks ht) h"
    by (simp only: table_blocks_def Some buckets_free_frees frees)
  then show ?thesis by (simp add: htable_reset_mem_def Some)
qed (auto simp: htable_reset_mem_def table_blocks_def mtable_ok_def)

text \<open>
  C21: The memory of the hash table. Whatever operations are run on an empty table (if the table of \<open>Htable\<close> survives them, that is
  unless it outgrows the address space), the table with its blocks answers the same, never frees a block that is not allocated, and
  owns exactly one block per entry and one for the array: failed attempts to rehash leave nothing behind. Resetting it frees
  every block that it allocated.
\<close>

theorem htable_memory_balanced:
  assumes "run_ops ops empty_htable = Some (rets, t)"
  shows "\<exists>ht h1 h2. run_ops_mem ops empty_mtable h = Some (rets, ht, h1) \<and> forget_table ht = t \<and>
    hlive h1 = hlive h + mset (table_blocks ht) \<and>
    length (table_blocks ht) = length (entries (ht_table t)) + (if ht_cap t = 0 then 0 else 1) \<and>
    htable_reset_mem ht h1 = Some (empty_mtable, h2) \<and> hlive h2 = hlive h"
proof -
  have "owns (hlive h) empty_mtable h" "forget_table empty_mtable = empty_htable"
    by (simp_all add: owns_def table_blocks_def empty_mtable_def mtable_ok_def forget_table_def empty_htable_def)
  then obtain ht h1 where ht: "run_ops_mem ops empty_mtable h = Some (rets, ht, h1)" "forget_table ht = t" "owns (hlive h) ht h1"
    using run_ops_owned [of "hlive h" empty_mtable h ops rets t] assms by auto
  have ok: "hlive h1 = hlive h + mset (table_blocks ht)" "mtable_ok ht" using ht(3) by (simp_all add: owns_def)
  have "length (table_blocks ht) = length (entries (ht_table t)) + (if ht_cap t = 0 then 0 else 1)"
    using ok(2) ht(2) by (auto simp: table_blocks_def length_bucket_blocks mtable_ok_def)
  moreover have "htable_reset_mem ht h1 = Some (empty_mtable, h1\<lparr>hlive := hlive h\<rparr>)"
    using reset_frees [OF ok(2)] free_all_owned [OF ok(1)] by simp
  ultimately show ?thesis using ht(1,2) ok(1) by (intro exI [of _ ht] exI [of _ h1] exI [of _ "h1\<lparr>hlive := hlive h\<rparr>"]) simp
qed

theorem htable_memory_balanced_witness:
  "\<exists>rets ht h1 h2. run_ops_mem [Op_put ''lens'' 704, Op_del ''lens''] empty_mtable \<lparr>hlive = {#5#}, hnext = 6\<rparr> = Some (rets, ht, h1) \<and>
    map ok rets = [True, True] \<and> htable_reset_mem ht h1 = Some (empty_mtable, h2) \<and> hlive h2 = {#5#}"
proof -
  obtain r1 t1 where p: "htable_put empty_htable ''lens'' 704 = Some (r1, t1)" "ok r1" "ht_inv t1" "ht_abs t1 ''lens'' = Some 704"
    by (rule put_empty)
  obtain r2 t2 where d: "htable_del t1 ''lens'' = Some (r2, t2)" "ok r2" using htable_del_spec [OF p(3), of "''lens''"] p(4) by auto
  have "run_ops [Op_put ''lens'' 704, Op_del ''lens''] empty_htable = Some ([r1, r2], t2)" using p(1) d(1) by simp
  from htable_memory_balanced [OF this, of "\<lparr>hlive = {#5#}, hnext = 6\<rparr>"] obtain ht h1 h2 where
    "run_ops_mem [Op_put ''lens'' 704, Op_del ''lens''] empty_mtable \<lparr>hlive = {#5#}, hnext = 6\<rparr> = Some ([r1, r2], ht, h1)"
    "htable_reset_mem ht h1 = Some (empty_mtable, h2)" "hlive h2 = {#5#}" by auto
  moreover have "map ok [r1, r2] = [True, True]" using p(2) d(2) by simp
  ultimately show ?thesis by (intro exI conjI)
qed

end
