(* ===== verification/Resp_Mem.thy ===== *)
theory Resp_Mem
  imports Crest_Mem Htable_Mem
begin

text \<open>
  The memory of a request and its response, \<^verbatim>\<open>src/utils/crest/req.c\<close> and \<^verbatim>\<open>resp.c\<close>: the path that is made at the first use, the
  table of headers with the copies of their values, and the buffer of the body. The value of a header in the table is the
  address of its copy, that is its block. \<open>None\<close> also means that a block is freed that is not allocated.
\<close>

section \<open>Requests\<close>

text \<open>The path of the request is kept once it is made.\<close>

definition crest_req_get_path_mem :: "string \<Rightarrow> mpath option \<Rightarrow> procheap \<Rightarrow> mpath \<times> procheap" where
  "crest_req_get_path_mem url path h = (case path of Some p \<Rightarrow> (p, h) | None \<Rightarrow> path_new_mem url h)"

definition crest_req_free :: "mpath option \<Rightarrow> procheap \<Rightarrow> procheap option" where
  "crest_req_free path h = (case path of None \<Rightarrow> Some h | Some p \<Rightarrow> path_free p h)"

definition req_blocks :: "mpath option \<Rightarrow> block list" where
  "req_blocks path = (case path of None \<Rightarrow> [] | Some p \<Rightarrow> path_blocks p)"

interpretation requests: disposable crest_req_free req_blocks
  by unfold_locales (simp add: crest_req_free_def req_blocks_def path_free_frees split: option.split)

lemma crest_req_get_path_mem_owned:
  assumes "hlive h = F + mset (req_blocks path)" "crest_req_get_path_mem url path h = (p, h')"
    and "case path of None \<Rightarrow> True | Some q \<Rightarrow> path_of q = path_new url"
  shows "hlive h' = F + mset (req_blocks (Some p))" "path_of p = path_new url"
  using assms path_new_mem_live [of url h p h'] by (auto simp: crest_req_get_path_mem_def req_blocks_def split: option.splits)

section \<open>Responses\<close>

record mresp =
  rheaders :: mtable
  body_block :: "block option"

fun values_free :: "mbucket list \<Rightarrow> procheap \<Rightarrow> procheap option" where
  "values_free [] h = Some h"
| "values_free (b # bs) h =
     Option.bind (if mbkey b = None then Some h else hfree (Some (unat (mbvalue b))) h) (\<lambda>h1. values_free bs h1)"

definition crest_resp_free :: "mresp \<Rightarrow> procheap \<Rightarrow> procheap option" where
  "crest_resp_free resp h =
     Option.bind (values_free (mt_buckets (rheaders resp)) h) (\<lambda>h1.
       Option.bind (htable_reset_mem (rheaders resp) h1) (\<lambda>(_, h2).
         hfree (body_block resp) h2))"

definition crest_resp_add_header_mem :: "mresp \<Rightarrow> string \<Rightarrow> procheap \<Rightarrow> (mresp \<times> procheap) option" where
  "crest_resp_add_header_mem resp key h =
     (case halloc h of (data, h1) \<Rightarrow>
        Option.bind (htable_get_mem (rheaders resp) key h1) (\<lambda>(ret, ht, h2).
          if \<not> ok ret
          then map_option (\<lambda>(_, ht', h3). (resp\<lparr>rheaders := ht'\<rparr>, h3)) (htable_put_mem ht key (of_nat data) h2)
          else Option.bind (htable_xchg_mem ht key (of_nat data) h2) (\<lambda>(ret', ht', h3).
            map_option (Pair (resp\<lparr>rheaders := ht'\<rparr>)) (hfree (Some (unat (rvalue ret'))) h3))))"

text \<open>The body: the buffer is reallocated when it grows (\<open>grows\<close>), and given to the HTTP library when the response is sent.\<close>

definition crest_resp_write_mem :: "mresp \<Rightarrow> bool \<Rightarrow> procheap \<Rightarrow> (mresp \<times> procheap) option" where
  "crest_resp_write_mem resp grows h =
     (if grows then map_option (\<lambda>(b, h1). (resp\<lparr>body_block := Some b\<rparr>, h1)) (hrealloc (body_block resp) h) else Some (resp, h))"

definition crest_resp_give_body :: "mresp \<Rightarrow> block option \<times> mresp" where
  "crest_resp_give_body resp = (body_block resp, resp\<lparr>body_block := None\<rparr>)"

section \<open>Who owns what\<close>

definition value_blocks :: "htable \<Rightarrow> block list" where
  "value_blocks ht = map (\<lambda>(k, v). unat v) (entries (ht_table ht))"

definition resp_blocks :: "mresp \<Rightarrow> block list" where
  "resp_blocks resp = value_blocks (forget_table (rheaders resp)) @ table_blocks (rheaders resp) @ option_block (body_block resp)"

lemma values_free_frees: "values_free bs = free_all (map (\<lambda>(k, v). unat v) (entries (map forget_bucket bs)))"
proof (induction bs)
  case (Cons b bs)
  have "map (\<lambda>(k, v). unat v) (entry (forget_bucket b)) = (if mbkey b = None then [] else [unat (mbvalue b)])"
    by (auto simp: entry_def split: option.splits)
  then have e: "map (\<lambda>(k, v). unat v) (entries (map forget_bucket (b # bs))) =
      (if mbkey b = None then [] else [unat (mbvalue b)]) @ map (\<lambda>(k, v). unat v) (entries (map forget_bucket bs))"
    by (simp add: entries_def)
  show ?case unfolding e by (rule ext) (simp add: Cons hfree_free_all free_all_append)
qed (simp add: fun_eq_iff entries_def)

lemma crest_resp_free_frees:
  assumes "mtable_ok (rheaders resp)"
  shows "crest_resp_free resp h = free_all (resp_blocks resp) h"
proof -
  have "crest_resp_free resp h = Option.bind (free_all (value_blocks (forget_table (rheaders resp))) h) (\<lambda>h1.
      Option.bind (free_all (table_blocks (rheaders resp)) h1) (free_all (option_block (body_block resp))))"
    by (simp add: crest_resp_free_def reset_frees [OF assms] values_free_frees value_blocks_def hfree_free_all map_conv_bind_option bind_assoc comp_def)
  then show ?thesis by (simp only: resp_blocks_def frees)
qed

text \<open>The entries of a table are determined by the map it stands for.\<close>

lemma entries_set:
  assumes "ht_inv ht"
  shows "set (entries (ht_table ht)) = {(k, v). cut_key k = k \<and> ht_abs ht k = Some v}" "distinct (entries (ht_table ht))"
proof -
  have d: "distinct (map fst (entries (ht_table ht)))" using assms by (simp add: ht_inv_def tab_inv_def)
  have "cut_key k = k" if "(k, v) \<in> set (entries (ht_table ht))" for k v
    using ht_inv_keys [OF assms] that by force
  then show "set (entries (ht_table ht)) = {(k, v). cut_key k = k \<and> ht_abs ht k = Some v}"
    using map_of_eq_Some_iff [OF d] by (auto simp: ht_abs_def)
  show "distinct (entries (ht_table ht))" using d by (simp add: distinct_map)
qed

lemma mset_entries: "ht_inv ht \<Longrightarrow> mset (entries (ht_table ht)) = mset_set {(k, v). cut_key k = k \<and> ht_abs ht k = Some v}"
  using entries_set(1) [of ht] mset_set_set [OF entries_set(2), of ht] by simp

lemma value_blocks_set:
  assumes "ht_inv ht" "ht_inv ht'" "ht_abs ht' = key_upd (ht_abs ht) k (Some v)"
  shows "mset (value_blocks ht') + mset (map unat (case ht_abs ht k of None \<Rightarrow> [] | Some w \<Rightarrow> [w])) = add_mset (unat v) (mset (value_blocks ht))"
proof -
  let ?E = "{(k, v). cut_key k = k \<and> ht_abs ht k = Some v}" and ?E' = "{(k, v). cut_key k = k \<and> ht_abs ht' k = Some v}"
  let ?R = "{(j, w). cut_key j = j \<and> j \<noteq> cut_key k \<and> ht_abs ht j = Some w}"
  have fin: "finite ?E" using entries_set(1) [OF assms(1)] by (metis finite_set)
  then have finR: "finite ?R" by (rule rev_finite_subset) auto
  have c: "ht_abs ht (cut_key k) = ht_abs ht k" by (simp add: ht_abs_def)
  have E': "?E' = insert (cut_key k, v) ?R" by (auto simp: assms(3) key_upd_def split: if_splits)
  have E: "?E = (case ht_abs ht k of None \<Rightarrow> ?R | Some w \<Rightarrow> insert (cut_key k, w) ?R)" using c by (auto split: option.split)
  have "mset (value_blocks ht') = add_mset (unat v) (image_mset (\<lambda>(k, v). unat v) (mset_set ?R))"
    using mset_entries [OF assms(2)] finR by (simp add: value_blocks_def E')
  moreover have "mset (value_blocks ht) = image_mset (\<lambda>(k, v). unat v) (mset_set ?E)"
    using mset_entries [OF assms(1)] by (simp add: value_blocks_def)
  ultimately show ?thesis using E finR by (cases "ht_abs ht k") simp_all
qed

text \<open>
  A response that owns its blocks still does after a header is set, if the table has room: the value that is replaced is freed, and only
  that. \<open>h\<close> has given out fewer than \<open>2 ^ 64\<close> blocks, as addresses have 64 bits.
\<close>

definition resp_owned :: "block multiset \<Rightarrow> mresp \<Rightarrow> procheap \<Rightarrow> bool" where
  "resp_owned F resp h \<longleftrightarrow> hlive h = F + mset (resp_blocks resp) \<and> mtable_ok (rheaders resp) \<and> ht_inv (forget_table (rheaders resp))"

lemma resp_free_owned: "resp_owned F resp h \<Longrightarrow> crest_resp_free resp h = Some (h\<lparr>hlive := F\<rparr>)"
  by (simp add: resp_owned_def crest_resp_free_frees free_all_owned)

lemma resp_write_owned:
  assumes "resp_owned F resp h"
  obtains resp' h' where "crest_resp_write_mem resp grows h = Some (resp', h')" "resp_owned F resp' h'" "rheaders resp' = rheaders resp"
proof (cases grows)
  case True
  let ?F = "F + mset (value_blocks (forget_table (rheaders resp))) + mset (table_blocks (rheaders resp))"
  have "hlive h = ?F + mset (option_block (body_block resp))" using assms by (simp add: resp_owned_def resp_blocks_def)
  then obtain b h' where "hrealloc (body_block resp) h = Some (b, h')" "hlive h' = ?F + {#b#}" by (rule hrealloc_owned)
  then show thesis using that [of "resp\<lparr>body_block := Some b\<rparr>" h'] True assms
    by (simp add: crest_resp_write_mem_def resp_owned_def resp_blocks_def)
qed (use that assms in \<open>simp add: crest_resp_write_mem_def\<close>)

lemma give_body_owned:
  "resp_owned F resp h \<Longrightarrow> crest_resp_give_body resp = (b, resp') \<Longrightarrow> resp_owned (F + mset (option_block b)) resp' h"
  by (auto simp: crest_resp_give_body_def resp_owned_def resp_blocks_def ac_simps)

lemma add_header_owned:
  assumes "resp_owned F resp h" "hnext h < 2 ^ 64"
    and room: "\<And>r t. htable_get (forget_table (rheaders resp)) key = Some (r, t) \<Longrightarrow> htable_put t key (of_nat (hnext h)) \<noteq> None"
  shows "\<exists>resp' h'. crest_resp_add_header_mem resp key h = Some (resp', h') \<and> resp_owned F resp' h' \<and>
    ht_abs (forget_table (rheaders resp')) = key_upd (ht_abs (forget_table (rheaders resp))) key (Some (of_nat (hnext h)))"
proof -
  let ?t = "forget_table (rheaders resp)" and ?b = "hnext h"
  let ?F = "F + {#?b#} + mset (option_block (body_block resp))"
  let ?h = "snd (halloc h)"
  note inv = assms(1) [unfolded resp_owned_def]
  have b: "unat (of_nat ?b :: u64) = ?b" using assms(2) by (simp add: unat_of_nat take_bit_nat_eq_self)
  have o1: "owns (?F + mset (value_blocks ?t)) (rheaders resp) ?h" using inv by (simp add: owns_def resp_blocks_def halloc_def)
  obtain r t where g: "htable_get ?t key = Some (r, t)" "ht_inv t" "ht_abs t = ht_abs ?t" "ok r = (ht_abs ?t key \<noteq> None)"
    using htable_get_spec [of ?t key] inv by blast
  obtain ht1 h1 where h1: "htable_get_mem (rheaders resp) key ?h = Some (r, ht1, h1)" "forget_table ht1 = t" "owns (?F + mset (value_blocks ?t)) ht1 h1"
    using get_owned [OF o1 g(1)] by blast
  have step: "crest_resp_add_header_mem resp key h = (if \<not> ok r
      then map_option (\<lambda>(_, ht', h3). (resp\<lparr>rheaders := ht'\<rparr>, h3)) (htable_put_mem ht1 key (of_nat ?b) h1)
      else Option.bind (htable_xchg_mem ht1 key (of_nat ?b) h1) (\<lambda>(ret', ht', h3).
            map_option (Pair (resp\<lparr>rheaders := ht'\<rparr>)) (hfree (Some (unat (rvalue ret'))) h3)))"
    using h1(1) by (simp add: crest_resp_add_header_mem_def halloc_def)
  show ?thesis
  proof (cases "ht_abs ?t key")
    case None
    obtain r2 t2 where p: "htable_put t key (of_nat ?b) = Some (r2, t2)" using room [OF g(1)] by force
    have P: "ht_inv t2" "ht_abs t2 = key_upd (ht_abs ?t) key (Some (of_nat ?b))" using htable_put_spec [OF p g(2)] g(3) None by auto
    obtain ht2 h2 where h2: "htable_put_mem ht1 key (of_nat ?b) h1 = Some (r2, ht2, h2)" "forget_table ht2 = t2" "owns (?F + mset (value_blocks ?t)) ht2 h2"
      using put_owned [OF h1(3)] p h1(2) by blast
    have "resp_owned F (resp\<lparr>rheaders := ht2\<rparr>) h2"
      using h2(2,3) P(1) value_blocks_set [OF _ P] inv None b by (simp add: resp_owned_def owns_def resp_blocks_def)
    then show ?thesis using step g(4) None h2 P(2) by simp
  next
    case (Some w)
    obtain r2 t2 where p: "htable_xchg t key (of_nat ?b) = Some (r2, t2)" "ht_inv t2" "rvalue r2 = w" "ht_abs t2 = key_upd (ht_abs ?t) key (Some (of_nat ?b))"
      using htable_xchg_spec [OF g(2), of key "of_nat ?b"] g(3) Some by auto
    obtain ht2 h2 where h2: "htable_xchg_mem ht1 key (of_nat ?b) h1 = Some (r2, ht2, h2)" "forget_table ht2 = t2" "owns (?F + mset (value_blocks ?t)) ht2 h2"
      using xchg_owned [OF h1(3)] p(1) h1(2) by blast
    let ?resp = "resp\<lparr>rheaders := ht2\<rparr>"
    have "mset (value_blocks t2) + {#unat w#} = add_mset ?b (mset (value_blocks ?t))" using value_blocks_set [OF _ p(2,4)] inv Some b by simp
    then have "hlive h2 = F + mset (resp_blocks ?resp) + mset (option_block (Some (unat w)))"
      using h2(2,3) by (simp add: owns_def resp_blocks_def)
    then have "hfree (Some (unat (rvalue r2))) h2 = Some (h2\<lparr>hlive := F + mset (resp_blocks ?resp)\<rparr>)"
      unfolding hfree_free_all p(3) by (rule free_all_owned)
    moreover have "mtable_ok ht2" using h2(3) by (simp add: owns_def)
    ultimately show ?thesis using step g(4) Some h2(1,2) p(2,4) by (simp add: resp_owned_def)
  qed
qed

section \<open>A request for the metrics\<close>

definition zero_mresp :: mresp where
  "zero_mresp = \<lparr>rheaders = empty_mtable, body_block = None\<rparr>"

text \<open>
  \<^verbatim>\<open>rest_get\<close>: a buffer of its own, which it frees, one header, and the body, a copy of the buffer. The buffers grow at least
  once; \<open>n\<close> is how often the first one grows again.
\<close>

fun grow_again :: "nat \<Rightarrow> block \<Rightarrow> procheap \<Rightarrow> (block \<times> procheap) option" where
  "grow_again 0 b h = Some (b, h)"
| "grow_again (Suc n) b h = Option.bind (hrealloc (Some b) h) (\<lambda>(b1, h1). grow_again n b1 h1)"

definition rest_get_mem :: "nat \<Rightarrow> mresp \<Rightarrow> procheap \<Rightarrow> (mresp \<times> procheap) option" where
  "rest_get_mem n resp h =
     (case halloc h of (b0, h0) \<Rightarrow>
        Option.bind (grow_again n b0 h0) (\<lambda>(b, h1).
          Option.bind (crest_resp_add_header_mem resp ''content-type'' h1) (\<lambda>(resp1, h2).
            Option.bind (crest_resp_write_mem resp1 True h2) (\<lambda>(resp2, h3).
              map_option (Pair resp2) (hfree (Some b) h3)))))"

text \<open>The last call of the HTTP library for a request: the path, the answer, and the end of the response, the request and the upload.\<close>

definition microhttpd_cb_mem :: "string \<Rightarrow> nat \<Rightarrow> block option \<Rightarrow> procheap \<Rightarrow> (block option \<times> procheap) option" where
  "microhttpd_cb_mem url n upload h =
     (case crest_req_get_path_mem url None h of (path, h1) \<Rightarrow>
        Option.bind (rest_get_mem n zero_mresp h1) (\<lambda>(resp, h2).
          case crest_resp_give_body resp of (data, resp1) \<Rightarrow>
            Option.bind (crest_resp_free resp1 h2) (\<lambda>h3.
              Option.bind (crest_req_free (Some path) h3) (\<lambda>h4.
                map_option (Pair data) (hfree upload h4)))))"

lemma grow_again_owned:
  assumes "hlive h = F + {#b#}"
  shows "\<exists>b' h'. grow_again n b h = Some (b', h') \<and> hlive h' = F + {#b'#} \<and> hnext h' = hnext h + n"
  using assms
proof (induction n arbitrary: b h)
  case (Suc n)
  let ?h = "h\<lparr>hlive := F + {#hnext h#}, hnext := hnext h + 1\<rparr>"
  have "hrealloc (Some b) h = Some (hnext h, ?h)" using Suc.prems by (simp add: hrealloc_def hfree_def halloc_def)
  then show ?case using Suc.IH [of ?h "hnext h"] by simp
qed simp

text \<open>
  Answering a request for the metrics. No block is freed that is not allocated, and of everything that was allocated for the
  request only the data of the body is left, which belongs to the HTTP library from then on; the upload is freed too.
\<close>

theorem request_memory_balanced:
  assumes "hlive h = F + mset (option_block upload)" "hnext h + n + 4 < 2 ^ 64"
  shows "\<exists>b h'. microhttpd_cb_mem url n upload h = Some (Some b, h') \<and> hlive h' = F + {#b#}"
proof -
  obtain path h1 where p: "path_new_mem url h = (path, h1)" by (metis surj_pair)
  have P: "hlive h1 = hlive h + mset (path_blocks path)" "hnext h1 \<le> hnext h + 3"
    using path_new_mem_live [OF p] p by (auto simp: path_new_mem_def halloc_def Let_def split: prod.splits if_splits)
  let ?G = "hlive h + mset (path_blocks path)"
  obtain b h2 where g: "grow_again n (fst (halloc h1)) (snd (halloc h1)) = Some (b, h2)" "hlive h2 = ?G + {#b#}" "hnext h2 < 2 ^ 64"
    using grow_again_owned [of "snd (halloc h1)" ?G "fst (halloc h1)" n] P assms(2) by (auto simp: halloc_def)
  have z: "forget_table (rheaders zero_mresp) = empty_htable"
    by (simp add: zero_mresp_def empty_mtable_def forget_table_def empty_htable_def)
  have o1: "resp_owned (?G + {#b#}) zero_mresp h2"
    using g(2) ht_inv_empty z by (simp add: resp_owned_def resp_blocks_def value_blocks_def empty_htable_def)
      (simp add: zero_mresp_def table_blocks_def empty_mtable_def mtable_ok_def)
  have room: "htable_put t ''content-type'' v \<noteq> None" if "htable_get empty_htable ''content-type'' = Some (r, t)" for r t v
  proof -
    have "ht_inv t" "ht_len t = 0"
      using htable_get_spec [OF ht_inv_empty, of "''content-type''"] htable_get_len [OF ht_inv_empty that] that by (auto simp: empty_htable_def)
    then show ?thesis using htable_put_first [of t] by fastforce
  qed
  obtain resp1 h3 where a: "crest_resp_add_header_mem zero_mresp ''content-type'' h2 = Some (resp1, h3)" "resp_owned (?G + {#b#}) resp1 h3"
    using add_header_owned [OF o1 g(3)] room z by metis
  obtain resp2 h4 where w: "crest_resp_write_mem resp1 True h3 = Some (resp2, h4)" "resp_owned (?G + {#b#}) resp2 h4"
    using resp_write_owned [OF a(2)] by metis
  obtain d where d: "body_block resp2 = Some d" using w(1) by (auto simp: crest_resp_write_mem_def)
  have "hlive h4 = ?G + mset (resp_blocks resp2) + {#b#}" using w(2) by (simp add: resp_owned_def)
  then have f: "hfree (Some b) h4 = Some (h4\<lparr>hlive := ?G + mset (resp_blocks resp2)\<rparr>)" by (simp add: hfree_def)
  have "resp_owned (?G + {#d#}) (resp2\<lparr>body_block := None\<rparr>) (h4\<lparr>hlive := ?G + mset (resp_blocks resp2)\<rparr>)"
    using w(2) d by (simp add: resp_owned_def resp_blocks_def)
  note free = resp_free_owned [OF this]
  have "path_free path (h4\<lparr>hlive := ?G + {#d#}\<rparr>) = Some (h4\<lparr>hlive := hlive h + {#d#}\<rparr>)"
    using paths.dispose_owned [of "h4\<lparr>hlive := ?G + {#d#}\<rparr>" "hlive h + {#d#}" path] by simp
  moreover have "hfree upload (h4\<lparr>hlive := hlive h + {#d#}\<rparr>) = Some (h4\<lparr>hlive := F + {#d#}\<rparr>)"
    unfolding hfree_free_all using free_all_owned [of "h4\<lparr>hlive := hlive h + {#d#}\<rparr>" "F + {#d#}"] assms(1) by simp
  ultimately have "microhttpd_cb_mem url n upload h = Some (Some d, h4\<lparr>hlive := F + {#d#}\<rparr>)"
    using p g(1) a(1) w(1) d f free
    by (simp add: microhttpd_cb_mem_def rest_get_mem_def crest_req_get_path_mem_def crest_resp_give_body_def crest_req_free_def split_def)
  then show ?thesis by auto
qed

end
