(* ===== verification/Spec2Isabelle.thy ===== *)
theory Spec2Isabelle
  imports Epochs Daemon Errors Log Threads Rest_Mem Resp_Mem
begin

text \<open>
  This development models \<^bold>\<open>optics\<close>, a library for metrics in shared memory, and \<^verbatim>\<open>opticsd\<close>, the daemon that polls
  them, from the C sources under \<^verbatim>\<open>src/src\<close>.

  \<^bold>\<open>The program.\<close> A process creates a region, a file in shared memory that grows (\<^verbatim>\<open>region.c\<close>); an allocator with free
  lists inside the region (\<^verbatim>\<open>alloc.c\<close>) hands out blocks; lenses are blocks with a name, a type and data
  (\<^verbatim>\<open>lens.c\<close> and the five \<^verbatim>\<open>lens_*.c\<close>), linked in a list in the region and found through a hash table of the process
  (\<^verbatim>\<open>optics.c\<close>). Every lens has its data twice, once per epoch: threads record in the current epoch, and a poller in another process ends
  the epoch and reads the other one (\<^verbatim>\<open>poller_poll.c\<close>). A freed lens is kept for two epochs. The poller collects the values of
  all regions in one table and reports it to its backends (\<^verbatim>\<open>poller.c\<close>): standard output, carbon over a socket, and a REST
  server (\<^verbatim>\<open>backend_*.c\<close>, \<^verbatim>\<open>utils/crest\<close>). The daemon (\<^verbatim>\<open>opticsd.c\<close>) parses options and polls until it is told to stop.

  \<^bold>\<open>Theories, and what their lemmas show.\<close>

  \<^item> \<open>Prelude\<close>: 64-bit arithmetic on naturals that wraps (\<open>uadd\<close>, \<open>usub\<close>, \<open>umul\<close>), strings without nil, decimal numbers.
  \<^item> \<open>Bits\<close> (\<^verbatim>\<open>utils/bits.h\<close>), \<open>Double\<close> (IEEE 754 arithmetic on 64-bit patterns, rounded with integers; \<^verbatim>\<open>utils/type_pun.h\<close>),
    \<open>Format\<close> (what \<^verbatim>\<open>%g\<close> prints), \<open>Rng\<close> (\<^verbatim>\<open>utils/rng.c\<close>), \<open>Key\<close> (\<^verbatim>\<open>utils/key.c\<close>: push and pop are inverse and stay in the array).
  \<^item> \<open>Mem\<close>: memory as bytes, loads and stores of 32 and 64 bits; the laws of a cell are a locale, interpreted for both widths.
  \<^item> \<open>Slock\<close> (\<^verbatim>\<open>utils/lock.h\<close>): the lock in one thread, and as a step relation of atomic accesses under any number of threads, where
    it excludes; the barrier.
  \<^item> \<open>Htable\<close> (\<^verbatim>\<open>utils/htable.c\<close>): buckets, probe windows and resizing; the operations implement a map, and the locale
    \<open>kv_table\<close> is that contract.
  \<^item> \<open>Region\<close> (\<^verbatim>\<open>region.c\<close>): files, mappings and failing system calls; accesses are inside the mapping, growing keeps old accesses
    valid, and an access that runs during a grow is safe in all interleavings but one.
  \<^item> \<open>Alloc\<close> (\<^verbatim>\<open>alloc.c\<close>): allocated blocks are zeroed and disjoint, frees disturb no other block, and a freed block can be allocated again;
    the locale \<open>allocator\<close> is what the store relies on.
  \<^item> \<open>Store\<close>, \<open>Lens\<close>, \<open>Optics\<close> (\<^verbatim>\<open>optics.c\<close>, \<^verbatim>\<open>lens.c\<close>): the header, deferred frees and epochs; the list and the table of lenses
    agree (\<open>optics_rel\<close>), and every operation keeps that. \<open>Epochs\<close>: interleavings of recording threads and polls lose nothing.
  \<^item> \<open>Poll_Value\<close>, \<open>Counter\<close> (counters and gauges), \<open>Histo\<close>, \<open>Dist\<close>, \<open>Quantile\<close>: the five types of lenses; what they record is what
    a poll reads. \<open>Api\<close>: the public operations; the locale \<open>lens_maker\<close> is the contract of the five constructors.
  \<^item> \<open>Poller\<close> (\<^verbatim>\<open>poller.c\<close>, \<^verbatim>\<open>poller_poll.c\<close>, \<^verbatim>\<open>utils/shm.c\<close>): a poll visits every lens, reads only the data of that lens, and puts its value
    under its key; the report calls every backend once per entry.
  \<^item> \<open>Buffer\<close> (\<^verbatim>\<open>utils/buffer.c\<close>), \<open>Router\<close> (\<^verbatim>\<open>crest/path.c\<close>, \<^verbatim>\<open>router.c\<close>: the tree is a map from patterns and routing finds the best match),
    \<open>Crest\<close> (\<^verbatim>\<open>crest/crest.c\<close>, \<^verbatim>\<open>req.c\<close>, \<^verbatim>\<open>resp.c\<close>: every request gets one answer, uploads are collected in their array).
  \<^item> \<open>Rest\<close> (\<^verbatim>\<open>backend_rest.c\<close>), \<open>Backends\<close> (\<^verbatim>\<open>backend_carbon.c\<close>, \<^verbatim>\<open>backend_stdout.c\<close>, \<^verbatim>\<open>utils/socket.c\<close>): published metrics and lines; the locale
    \<open>number_sink\<close> is a callback that takes every number of a poll.
  \<^item> \<open>Runtime\<close> (\<^verbatim>\<open>utils/time.c\<close>, the timer of \<^verbatim>\<open>optics.h\<close>), \<open>Threads\<close> (\<^verbatim>\<open>utils/thread.c\<close>: the threads and their join as a step
    relation; the call returns after every thread has run once), \<open>Errors\<close> (\<^verbatim>\<open>utils/errors.c\<close> and the macros of \<^verbatim>\<open>errors.h\<close>), \<open>Log\<close> (\<^verbatim>\<open>utils/log.c\<close>),
    \<open>Daemon\<close> (\<^verbatim>\<open>opticsd.c\<close>, \<^verbatim>\<open>poller_thread.c\<close>, registration of the backends).
  \<^item> \<open>Blocks\<close>: the heap of the process, which blocks are live and how often a block that is not live was freed; the locale \<open>disposable\<close> is the
    contract of a structure whose free function gives back the blocks that the structure owns. \<open>Htable_Mem\<close> (the table of \<^verbatim>\<open>htable.c\<close>), \<open>Crest_Mem\<close> (paths, routers
    and the server), \<open>Rest_Mem\<close> (the tables of metrics of \<^verbatim>\<open>backend_rest.c\<close>) and \<open>Resp_Mem\<close> (requests and responses) run the operations on
    that heap: from creation to free, no block is freed twice and none is left; of a request only the body of the
    answer stays, which then belongs to the HTTP library.
  \<^item> This theory: from a poll to the answer of the REST server.

  \<^bold>\<open>How the code is modelled.\<close> Structures of the process are records with the fields of the code; structures in a region are bytes at
  their offsets, because other processes and the allocator see bytes. An operation is a function that returns the new state. Results
  that the code reports are values (\<open>optics_ret\<close>, options, pairs with a flag); an outer \<open>None\<close> means that the call does not return
  normally: an assertion fails, undefined behaviour, or a loop that never ends. Sizes and counters are naturals with the
  wrap-around of 64 bits written out, or words. Atomic accesses are sequential in an operation; where
  interleavings matter (lock, barrier, growing regions, epochs) there are step relations.

  \<^bold>\<open>Parameters.\<close> What the sources do not contain is an argument: system calls and their failures (\<open>sys\<close>, \<open>os\<close>, \<open>net_step\<close>, \<open>startup\<close>), the clock and the time
  stamp counter, the HTTP library (\<open>mhd\<close>), \<^verbatim>\<open>qsort\<close> (\<open>qsort_ok\<close> is what the standard promises), what an uninitialised array holds. Hypotheses about them
  have instances in the witnesses.

  \<^bold>\<open>Bounds and termination.\<close> Loops are structural or have a measure. Five may run for ever and are partial functions: the walks over the list of
  lenses and over the deferred frees (they end on a well-formed store), the doubling of a buffer (it ends exactly up to \<open>2 ^ 63\<close> bytes), an
  interrupted sleep, and the loop of the daemon (it ends when the signal is seen). Sizes such as \<open>2 ^ 62\<close> bytes and
  \<open>2 ^ 47\<close> metrics are far above what memory allows and keep the arithmetic from wrapping.

  \<^bold>\<open>Not modelled.\<close> Memory orders weaker than sequential consistency. The blocks of the process behind handles of lenses, the poller and its list of polls:
  there is no heap of the process in those theories, so leaks of them are not visible; in the theories on memory the allocations of the process
  succeed, because the code asserts it. The pause of a poll between the change of the epoch and the reads is not a step of the poll in \<open>Poller\<close>; what it is for, that
  recorders of the old epoch finish, is the subject of \<open>Epochs\<close>. The contents of warnings where they are only printed; casts between pointers and
  integers; macros without behaviour of their own; tests and benchmarks.
\<close>

section \<open>From a poll to an answer\<close>

text \<open>
  C3: The daemon serves what it polled. After a poll has been polled to a poller whose first backend is the REST backend, that
  backend has published exactly the entries of the table of the poll, once each and sorted by key, and a GET of
  \<^verbatim>\<open>/metrics/json\<close> is answered with 200 and their text. The metrics have to be printable and to fit into memory.
\<close>

theorem daemon_serves_poll:
  assumes "qsort_ok qsort" "mhd_works mhd" "ht_inv vals" "rlock rest = 0"
    and "backends p = \<lparr>bctx = Rest_ctx (Some rest), bcb = rest_cb qsort, bfree = f\<rparr> # bs"
    and "polled = map (\<lambda>(_, w). ps ! unat w) (entries (ht_table vals))" "length polled < 2 ^ 47"
    and "\<forall>poll \<in> set polled. poll_names_ok poll \<and> printable (pvalue poll)"
    and "2 + (\<Sum>poll \<leftarrow> polled. length (metric_json (metric_of poll)) + 1) < 2 ^ 62"
    and "cstring (qurl req)" "url_tokens (take 1024 (qurl req)) = [''metrics'', ''json'']" "qmethod req = ''GET''"
  shows "\<exists>rest' ms resp hs. bctx (hd (backends (poller_report p vals ps))) = Rest_ctx (Some rest') \<and>
    mset ms = mset (map metric_of polled) \<and> sorted_wrt (\<lambda>a b. strncmp (mkey a) (mkey b) optics_name_max_len \<le> 0) ms \<and>
    crest_process mhd rest_server rest' req zero_resp = Some (rest', resp) \<and> sent resp = [(200, hs, metrics_json ms)]"
proof -
  have calls: "(optics_poll_begin, None) # map (\<lambda>(_, w). (optics_poll_metric, Some (ps ! unat w))) (entries (ht_table vals)) @
      [(optics_poll_done, None)] = poll_calls polled"
    by (simp add: poll_calls_def assms(6) comp_def split_def)
  have names: "\<forall>poll \<in> set polled. poll_names_ok poll" using assms(8) by blast
  from assms(1,4) names assms(7) obtain r where r: "rest_dumps qsort rest (poll_calls polled) = Some r" "rlock r = 0"
      "mset (served r) = mset (map metric_of polled)"
      "sorted_wrt (\<lambda>a b. strncmp (mkey a) (mkey b) optics_name_max_len \<le> 0) (served r)"
    by (rule rest_dumps_poll)
  have ctx: "bctx (hd (backends (poller_report p vals ps))) = Rest_ctx (Some r)"
    unfolding poller_report_backends [OF assms(3)] calls using rest_cb_calls [of qsort rest "poll_calls polled"] r(1) assms(5) by simp
  have "set (served r) = metric_of ` set polled" using mset_eq_setD [OF r(3)] by simp
  then have v: "\<forall>m \<in> set (served r). printable (mvalue m)" using assms(8) by (auto simp: metric_of_def)
  have "sum_mset (image_mset (\<lambda>m. length (metric_json m) + 1) (mset (served r))) =
      sum_mset (image_mset (\<lambda>m. length (metric_json m) + 1) (mset (map metric_of polled)))" unfolding r(3) ..
  then have "(\<Sum>m \<leftarrow> served r. length (metric_json m) + 1) = (\<Sum>poll \<leftarrow> polled. length (metric_json (metric_of poll)) + 1)"
    unfolding mset_map [symmetric] sum_mset_sum_list by (simp add: comp_def)
  then have "2 + (\<Sum>m \<leftarrow> served r. length (metric_json m) + 1) < 2 ^ 62" using assms(9) by simp
  from rest_get_json [OF assms(2) r(2) v this assms(10-12)] show ?thesis using ctx r(3,4) by blast
qed

text \<open>A table with one entry, and the text of a metric.\<close>

lemma one_entry_table:
  obtains vals where "ht_inv vals" "entries (ht_table vals) = [(''a'', 0)]"
proof -
  obtain r vals where p: "htable_put empty_htable ''a'' 0 = Some (r, vals)" using htable_put_first [OF ht_inv_empty, of "''a''" 0] by (auto simp: empty_htable_def)
  have c: "cut_key ''a'' = ''a''" by (simp add: cut_key_def htable_key_max_len_def)
  have "ht_inv vals" "ht_abs vals ''a'' = Some 0" "ht_len vals = 1"
    using htable_put_spec [OF p ht_inv_empty] by (simp_all add: ht_abs_empty key_upd_def) (simp add: empty_htable_def)
  then have "length (entries (ht_table vals)) = 1" "map_of (entries (ht_table vals)) ''a'' = Some 0"
    by (simp_all add: ht_inv_def ht_abs_def c)
  then have "entries (ht_table vals) = [(''a'', 0)]" by (auto simp: length_Suc_conv split: if_splits)
  then show thesis using that \<open>ht_inv vals\<close> by blast
qed

lemma poll_of_json: "metric_json (metric_of (poll_of ''a'' 42)) = ''\"app.node1.a\":42''"
  by (simp add: metric_json_def value_json_def metric_of_def poll_of_def poll_key_def dotted_def dec.simps [of 42] dec.simps [of 4]
      digit_def char_of_def bit_0)

theorem daemon_serves_poll_witness:
  "\<exists>vals rest' resp hs. entries (ht_table vals) = [(''a'', 0)] \<and>
     bctx (hd (backends (poller_report \<lparr>host = ''node1'', backends = [rest_backend isort]\<rparr> vals [poll_of ''a'' 42]))) = Rest_ctx (Some rest') \<and>
     crest_process mhd_ok rest_server rest' \<lparr>qurl = ''/metrics/json?x=1'', qmethod = ''GET'', qdata = [], qdata_len = 0, qdata_pos = 0\<rparr> zero_resp =
       Some (rest', resp) \<and> sent resp = [(200, hs, ''{\"app.node1.a\":42}'')]"
proof (rule one_entry_table)
  fix vals assume vals: "ht_inv vals" "entries (ht_table vals) = [(''a'', 0)]"
  let ?p = "\<lparr>host = ''node1'', backends = [rest_backend isort]\<rparr>" and ?x = "poll_of ''a'' 42"
  let ?q = "\<lparr>qurl = ''/metrics/json?x=1'', qmethod = ''GET'', qdata = [], qdata_len = 0, qdata_pos = 0\<rparr>"
  have "poll_names_ok ?x" "printable (pvalue ?x)"
    by (simp_all add: poll_names_ok_def printable_def poll_of_def cstring_def nil_char_def)
  moreover have u: "cstring (qurl ?q)" "url_tokens (take 1024 (qurl ?q)) = [''metrics'', ''json'']"
    by (simp_all add: cstring_def nil_char_def url_tokens_def)
  moreover have "rlock zero_rest = 0" by (simp add: zero_rest_def)
  ultimately obtain rest' ms resp hs where r: "bctx (hd (backends (poller_report ?p vals [?x]))) = Rest_ctx (Some rest')"
      "mset ms = mset (map metric_of [?x])" "crest_process mhd_ok rest_server rest' ?q zero_resp = Some (rest', resp)"
      "sent resp = [(200, hs, metrics_json ms)]"
    using daemon_serves_poll [OF isort_ok mhd_ok_works vals(1), of zero_rest ?p "Some rest_free_cb" "[]" "[?x]" "[?x]" ?q] vals(2)
    by (auto simp: rest_backend_def poll_of_json)
  have "ms = [metric_of ?x]" using r(2) by (metis list.simps(8,9) mset_single_iff_right)
  then have "metrics_json ms = ''{\"app.node1.a\":42}''" by (simp add: metrics_json_def poll_of_json)
  then show ?thesis using vals(2) r(1,3,4) by metis
qed

end
